theory Spec2Isabelle
  imports Main "HOL-Library.Word" "HOL-Library.While_Combinator"
begin

section \<open>The ring T = R[omega]/(omega^2 + omega + 1) over R = Z/2^64\<close>

text \<open>
  \<^verbatim>\<open>struct T { uint64_t a, b; }\<close>: the element \<open>a + b*omega\<close>.  The two fields are
  64-bit words, so every \<open>+\<close>, \<open>-\<close> and \<open>*\<close> below wraps modulo \<open>2^64\<close> as the
  unsigned arithmetic of the source does.  The field selectors are \<open>T_a\<close> and \<open>T_b\<close>.
\<close>

type_synonym u64 = "64 word"

datatype T = T (T_a: u64) (T_b: u64)

text \<open>
  The constructors \<^verbatim>\<open>T()\<close> and \<^verbatim>\<open>T(uint64_t x)\<close> give \<open>T 0 0\<close> and \<open>T x 0\<close>; the
  source's implicit conversions of the literals \<open>0\<close> and \<open>1\<close> are the \<open>0\<close> and \<open>1\<close> of
  the instance below.  \<^verbatim>\<open>operator+\<close>, \<^verbatim>\<open>operator-\<close> (binary and unary) and
  \<^verbatim>\<open>operator*\<close> are the operations of the instance, field by field as in the source.
\<close>

definition T_of :: "u64 \<Rightarrow> T" where
  "T_of x = T x 0"

instantiation T :: comm_ring_1
begin

definition zero_T :: T where
  "zero_T = T 0 0"

definition one_T :: T where
  "one_T = T 1 0"

definition plus_T :: "T \<Rightarrow> T \<Rightarrow> T" where
  "plus_T u v = T (T_a u + T_a v) (T_b u + T_b v)"

definition minus_T :: "T \<Rightarrow> T \<Rightarrow> T" where
  "minus_T u v = T (T_a u - T_a v) (T_b u - T_b v)"

definition uminus_T :: "T \<Rightarrow> T" where
  "uminus_T u = T (- T_a u) (- T_b u)"

definition times_T :: "T \<Rightarrow> T \<Rightarrow> T" where
  "times_T u v = T (T_a u * T_a v - T_b u * T_b v)
                   (T_b u * T_a v + T_a u * T_b v - T_b u * T_b v)"

instance
proof
  fix x y z :: T
  show "x * y * z = x * (y * z)"
    by (cases x; cases y; cases z) (simp add: times_T_def algebra_simps)
  show "x * y = y * x"
    by (cases x; cases y) (simp add: times_T_def algebra_simps)
  show "1 * x = x"
    by (cases x) (simp add: times_T_def one_T_def)
  show "x + y + z = x + (y + z)"
    by (cases x; cases y; cases z) (simp add: plus_T_def)
  show "x + y = y + x"
    by (cases x; cases y) (simp add: plus_T_def)
  show "0 + x = x"
    by (cases x) (simp add: plus_T_def zero_T_def)
  show "- x + x = 0"
    by (cases x) (simp add: plus_T_def uminus_T_def zero_T_def)
  show "x - y = x + - y"
    by (cases x; cases y) (simp add: plus_T_def minus_T_def uminus_T_def)
  show "(x + y) * z = x * z + y * z"
    by (cases x; cases y; cases z) (simp add: times_T_def plus_T_def algebra_simps)
  show "(0::T) \<noteq> 1"
    by (simp add: zero_T_def one_T_def)
qed

end

text \<open>\<^verbatim>\<open>T conj()\<close>: the conjugate of \<open>a + b*omega\<close>, mapping omega to omega^2.\<close>

definition conjT :: "T \<Rightarrow> T" where
  "conjT u = T (T_a u - T_b u) (- T_b u)"

text \<open>The compound assignments \<^verbatim>\<open>+=\<close>, \<^verbatim>\<open>-=\<close> and \<^verbatim>\<open>*=\<close>, returning the new left operand.\<close>

definition add_assign :: "T \<Rightarrow> T \<Rightarrow> T" where
  "add_assign u v = T (T_a u + T_a v) (T_b u + T_b v)"

definition sub_assign :: "T \<Rightarrow> T \<Rightarrow> T" where
  "sub_assign u v = T (T_a u - T_a v) (T_b u - T_b v)"

definition mul_assign :: "T \<Rightarrow> T \<Rightarrow> T" where
  "mul_assign u v =
     (let tmp0 = T_a u;
          a' = T_a u * T_a v - T_b u * T_b v;
          b' = T_b u * T_a v + tmp0 * T_b v - T_b u * T_b v
      in T a' b')"

definition OMEGA :: T where
  "OMEGA = T 0 1"

definition OMEGA2 :: T where
  "OMEGA2 = T (- 1) (- 1)"

definition INV3 :: T where
  "INV3 = T 12297829382473034411 0"

section \<open>The working memory of a Conv64 object\<close>

text \<open>
  \<^verbatim>\<open>class Conv64\<close> has one field, the pointer \<^verbatim>\<open>tmp\<close>.  All pointers of the private
  routines point into the single buffer \<^verbatim>\<open>buf\<close> that \<^verbatim>\<open>multiply_cyclic_raw\<close>
  allocates, so an address is the offset of a T-cell from \<^verbatim>\<open>buf\<close> and the store
  \<open>mem\<close> maps addresses to cell contents.  Pointer arithmetic \<^verbatim>\<open>p + k\<close> is addition of
  offsets; \<^verbatim>\<open>p[k]\<close> reads \<open>rd s (p + k)\<close> and \<^verbatim>\<open>p[k] = v\<close> is \<open>wr (p + k) v\<close>.

  Sizes and indices (\<^verbatim>\<open>uint64_t\<close> in the source) are natural numbers.  A buffer of
  \<open>n\<close> cells of 16 bytes lies in a 64-bit address space, so \<open>n < 2^60\<close> and none of
  the index expressions of the private routines can wrap; where wrap-around can
  happen (the size computation of \<open>multiply\<close>) it is written out.
\<close>

record conv64 =
  tmp :: nat
  mem :: "nat \<Rightarrow> T"

definition rd :: "conv64 \<Rightarrow> nat \<Rightarrow> T" where
  "rd s x = mem s x"

definition wr :: "nat \<Rightarrow> T \<Rightarrow> conv64 \<Rightarrow> conv64" where
  "wr x v s = s\<lparr>mem := (mem s)(x := v)\<rparr>"

text \<open>The contents of the \<open>k\<close> cells from address \<open>p\<close> on.\<close>

definition cells :: "conv64 \<Rightarrow> nat \<Rightarrow> nat \<Rightarrow> T list" where
  "cells s p k = map (\<lambda>j. rd s (p + j)) [0..<k]"

text \<open>
  A loop whose body may fail to return: \<open>ofold f xs s\<close> runs \<open>f x\<close> for the
  elements of \<open>xs\<close> in order and is \<open>None\<close> as soon as one of them is.
\<close>

fun ofold :: "('a \<Rightarrow> 's \<Rightarrow> 's option) \<Rightarrow> 'a list \<Rightarrow> 's \<Rightarrow> 's option" where
  "ofold f [] s = Some s"
| "ofold f (x # xs) s = Option.bind (f x s) (ofold f xs)"

lemma ofold_mono [partial_function_mono]:
  assumes "\<And>x s. mono_option (\<lambda>g. F g x s)"
  shows "mono_option (\<lambda>g. ofold (F g) xs s)"
proof (induction xs arbitrary: s)
  case Nil
  show ?case by (simp add: monotone_def flat_ord_def)
next
  case (Cons x xs)
  show ?case
    unfolding ofold.simps
    by (rule bind_mono) (rule assms, rule Cons.IH)
qed

section \<open>twiddle\<close>

text \<open>
  \<^verbatim>\<open>void twiddle(T *p, uint64_t m, uint64_t t, T *to)\<close>: the product of the block at
  \<open>p\<close> with \<open>x^t\<close> in \<open>T[x]/(x^m - omega)\<close>, written to \<open>to\<close>.  The source requires
  \<open>t\<close> in \<open>[0, 3m]\<close>; then \<open>tt \<le> m\<close> and the index \<^verbatim>\<open>m - tt + j\<close> does not wrap.
\<close>

definition twiddle :: "nat \<Rightarrow> nat \<Rightarrow> nat \<Rightarrow> nat \<Rightarrow> conv64 \<Rightarrow> conv64" where
  "twiddle p m t to s =
     (if t = 0 \<or> t = 3 * m then
        fold (\<lambda>j s. wr (to + j) (rd s (p + j)) s) [0..<m] s
      else
        let (tt, mult) =
              (if t < m then (t, 1)
               else if t < 2 * m then (t - m, OMEGA)
               else (t - 2 * m, OMEGA2));
            s = fold (\<lambda>j s. wr (to + j) (rd s (p + (m - tt + j)) * OMEGA * mult) s) [0..<tt] s
        in fold (\<lambda>j s. wr (to + j) (rd s (p + (j - tt)) * mult) s) [tt..<m] s)"

section \<open>The radix-3 transforms\<close>

text \<open>The body of the inner loop of \<^verbatim>\<open>fftdif\<close> (one coefficient of one butterfly).\<close>

definition fftdif_butterfly :: "nat \<Rightarrow> nat \<Rightarrow> nat \<Rightarrow> nat \<Rightarrow> nat \<Rightarrow> nat \<Rightarrow> conv64 \<Rightarrow> conv64" where
  "fftdif_butterfly p m pos1 pos2 i j s =
     (let s = wr (tmp s + j)
                (rd s (p + (i * m + j)) + rd s (p + (pos1 + i * m + j))
                   + rd s (p + (pos2 + i * m + j))) s;
          s = wr (tmp s + (m + j))
                (rd s (p + (i * m + j)) + OMEGA * rd s (p + (pos1 + i * m + j))
                   + OMEGA2 * rd s (p + (pos2 + i * m + j))) s;
          s = wr (tmp s + (2 * m + j))
                (rd s (p + (i * m + j)) + OMEGA2 * rd s (p + (pos1 + i * m + j))
                   + OMEGA * rd s (p + (pos2 + i * m + j))) s
      in wr (p + (i * m + j)) (rd s (tmp s + j)) s)"

text \<open>The outer loop of \<^verbatim>\<open>fftdif\<close>: butterflies and twiddles of one level.\<close>

definition fftdif_stage :: "nat \<Rightarrow> nat \<Rightarrow> nat \<Rightarrow> conv64 \<Rightarrow> conv64" where
  "fftdif_stage p m r s =
     (let rr = r div 3; pos1 = m * rr; pos2 = 2 * m * rr
      in fold (\<lambda>i s.
           let s = fold (fftdif_butterfly p m pos1 pos2 i) [0..<m] s;
               s = twiddle (tmp s + m) m (3 * i * m div r) (p + (pos1 + i * m)) s
           in twiddle (tmp s + 2 * m) m (6 * i * m div r) (p + (pos2 + i * m)) s)
         [0..<rr] s)"

text \<open>
  \<^verbatim>\<open>void fftdif(T *p, uint64_t m, uint64_t r)\<close>.  The recursion stops at \<open>r = 1\<close>
  only, so for \<open>r\<close> not a power of 3 it never returns: the result \<open>None\<close>.
\<close>

partial_function (option) fftdif :: "nat \<Rightarrow> nat \<Rightarrow> nat \<Rightarrow> conv64 \<Rightarrow> conv64 option" where
  "fftdif p m r s =
     (if r = 1 then Some s
      else
        let rr = r div 3; pos1 = m * rr; pos2 = 2 * m * rr;
            s = fftdif_stage p m r s
        in Option.bind (fftdif p m rr s) (\<lambda>s.
           Option.bind (fftdif (p + pos1) m rr s) (\<lambda>s.
           fftdif (p + pos2) m rr s)))"

declare fftdif.simps [code]

definition fftdit_butterfly :: "nat \<Rightarrow> nat \<Rightarrow> nat \<Rightarrow> nat \<Rightarrow> nat \<Rightarrow> nat \<Rightarrow> conv64 \<Rightarrow> conv64" where
  "fftdit_butterfly p m pos1 pos2 i j s =
     (let s = wr (tmp s + j) (rd s (p + (i * m + j))) s;
          s = wr (p + (i * m + j))
                (rd s (tmp s + j) + rd s (tmp s + (m + j)) + rd s (tmp s + (2 * m + j))) s;
          s = wr (p + (i * m + pos1 + j))
                (rd s (tmp s + j) + OMEGA2 * rd s (tmp s + (m + j))
                   + OMEGA * rd s (tmp s + (2 * m + j))) s
      in wr (p + (i * m + pos2 + j))
            (rd s (tmp s + j) + OMEGA * rd s (tmp s + (m + j))
               + OMEGA2 * rd s (tmp s + (2 * m + j))) s)"

definition fftdit_stage :: "nat \<Rightarrow> nat \<Rightarrow> nat \<Rightarrow> conv64 \<Rightarrow> conv64" where
  "fftdit_stage p m r s =
     (let rr = r div 3; pos1 = m * rr; pos2 = 2 * m * rr
      in fold (\<lambda>i s.
           let s = twiddle (p + (pos1 + i * m)) m (3 * m - 3 * i * m div r) (tmp s + m) s;
               s = twiddle (p + (pos2 + i * m)) m (3 * m - 6 * i * m div r) (tmp s + 2 * m) s
           in fold (fftdit_butterfly p m pos1 pos2 i) [0..<m] s)
         [0..<rr] s)"

text \<open>\<^verbatim>\<open>void fftdit(T *p, uint64_t m, uint64_t r)\<close>.\<close>

partial_function (option) fftdit :: "nat \<Rightarrow> nat \<Rightarrow> nat \<Rightarrow> conv64 \<Rightarrow> conv64 option" where
  "fftdit p m r s =
     (if r = 1 then Some s
      else
        let rr = r div 3; pos1 = m * rr; pos2 = 2 * m * rr
        in Option.bind (fftdit p m rr s) (\<lambda>s.
           Option.bind (fftdit (p + pos1) m rr s) (\<lambda>s.
           Option.bind (fftdit (p + pos2) m rr s) (\<lambda>s.
           Some (fftdit_stage p m r s)))))"

declare fftdit.simps [code]

section \<open>mul: the product in T[x]/(x^n - omega)\<close>

text \<open>The base case \<open>n \<le> 27\<close>: grade-school multiplication with wrap-around.\<close>

definition mul_base :: "nat \<Rightarrow> nat \<Rightarrow> nat \<Rightarrow> nat \<Rightarrow> conv64 \<Rightarrow> conv64" where
  "mul_base p q n to s =
     (let s = fold (\<lambda>i s. wr (to + i) 0 s) [0..<n] s
      in fold (\<lambda>i s.
           let s = fold (\<lambda>j s. wr (to + (i + j))
                           (add_assign (rd s (to + (i + j))) (rd s (p + i) * rd s (q + j))) s)
                     [0..<n - i] s
           in fold (\<lambda>j s. wr (to + (i + j - n))
                      (add_assign (rd s (to + (i + j - n))) (rd s (p + i) * rd s (q + j) * OMEGA)) s)
                [n - i..<n] s)
         [0..<n] s)"

text \<open>
  \<^verbatim>\<open>T inv = 1; for (uint64_t i = 1; i < r; i *= 3) inv *= INV3;\<close>
\<close>

definition inv_loop :: "nat \<Rightarrow> T option" where
  "inv_loop r =
     map_option snd
       (while_option (\<lambda>(i, inv). i < r) (\<lambda>(i, inv). (i * 3, mul_assign inv INV3)) (1, 1))"

text \<open>Scaling \<open>n\<close> cells in place: \<^verbatim>\<open>for (i = 0; i < n; ++i) p[i] *= c;\<close>\<close>

definition scale_cells :: "nat \<Rightarrow> nat \<Rightarrow> T \<Rightarrow> conv64 \<Rightarrow> conv64" where
  "scale_cells p n c s = fold (\<lambda>i s. wr (p + i) (mul_assign (rd s (p + i)) c) s) [0..<n] s"

text \<open>The loops of the recursive step of \<^verbatim>\<open>mul\<close>, in the order of the source.\<close>

definition mul_twiddle_in :: "nat \<Rightarrow> nat \<Rightarrow> nat \<Rightarrow> nat \<Rightarrow> nat \<Rightarrow> nat \<Rightarrow> conv64 \<Rightarrow> conv64" where
  "mul_twiddle_in p q n m r to s =
     fold (\<lambda>i s.
        let s = twiddle (p + m * i) m (m div r * i) (to + m * i) s
        in twiddle (q + m * i) m (m div r * i) (to + (n + m * i)) s)
      [0..<r] s"

definition mul_twiddle_out :: "nat \<Rightarrow> nat \<Rightarrow> nat \<Rightarrow> nat \<Rightarrow> conv64 \<Rightarrow> conv64" where
  "mul_twiddle_out n m r to s =
     fold (\<lambda>i s. twiddle (to + (2 * n + m * i)) m (3 * m - m div r * i) (to + (n + m * i)) s)
      [0..<r] s"

definition mul_conj_twiddle_in :: "nat \<Rightarrow> nat \<Rightarrow> nat \<Rightarrow> nat \<Rightarrow> nat \<Rightarrow> conv64 \<Rightarrow> conv64" where
  "mul_conj_twiddle_in p q m r to s =
     fold (\<lambda>i s.
        let s = fold (\<lambda>j s.
                   let s = wr (p + (m * i + j)) (conjT (rd s (p + (m * i + j)))) s
                   in wr (q + (m * i + j)) (conjT (rd s (q + (m * i + j)))) s)
                 [0..<m] s;
            s = twiddle (p + m * i) m (2 * m div r * i) (to + m * i) s
        in twiddle (q + m * i) m (2 * m div r * i) (p + m * i) s)
      [0..<r] s"

definition mul_conj_twiddle_out :: "nat \<Rightarrow> nat \<Rightarrow> nat \<Rightarrow> nat \<Rightarrow> nat \<Rightarrow> conv64 \<Rightarrow> conv64" where
  "mul_conj_twiddle_out q n m r to s =
     fold (\<lambda>i s. twiddle (to + (2 * n + m * i)) m (3 * m - 2 * m div r * i) (q + m * i) s)
      [0..<r] s"

definition mul_crt :: "nat \<Rightarrow> nat \<Rightarrow> nat \<Rightarrow> nat \<Rightarrow> nat \<Rightarrow> conv64 \<Rightarrow> conv64" where
  "mul_crt q n m r to s =
     (let s = fold (\<lambda>i s. wr (to + i) 0 s) [0..<n] s;
          s = fold (\<lambda>i s. fold (\<lambda>j s.
                 let s = wr (to + (i * m + j))
                           (add_assign (rd s (to + (i * m + j)))
                              ((1 - OMEGA) * rd s (to + (n + i * m + j))
                                 + (1 - OMEGA2) * conjT (rd s (q + (i * m + j))))) s
                 in if i * m + m + j < n then
                      wr (to + (i * m + m + j))
                        (add_assign (rd s (to + (i * m + m + j)))
                           ((OMEGA2 - OMEGA)
                              * (rd s (to + (n + i * m + j)) - conjT (rd s (q + (i * m + j)))))) s
                    else
                      wr (to + (i * m + m + j - n))
                        (add_assign (rd s (to + (i * m + m + j - n)))
                           ((1 - OMEGA2)
                              * (rd s (to + (n + i * m + j)) - conjT (rd s (q + (i * m + j)))))) s)
               [0..<m] s)
             [0..<r] s
      in scale_cells to n INV3 s)"

text \<open>
  The choice of the split \<open>n = m * r\<close> and of the scaling factor in \<^verbatim>\<open>mul\<close>:
  \<^verbatim>\<open>m = 1; while (m*m < n) m *= 3; r = n/m;\<close> followed by the loop for \<open>inv\<close>.
\<close>

definition mul_split :: "nat \<Rightarrow> (nat \<times> nat \<times> T) option" where
  "mul_split n =
     Option.bind (while_option (\<lambda>m. m * m < n) (\<lambda>m. m * 3) 1) (\<lambda>m.
     let r = n div m in
     Option.bind (inv_loop r) (\<lambda>inv. Some (m, r, inv)))"

text \<open>
  \<^verbatim>\<open>void mul(T *p, T *q, uint64_t n, T *to)\<close>.  \<open>None\<close> when the call does not
  return (a transform on a size that is not a power of 3).
\<close>

partial_function (option) mul :: "nat \<Rightarrow> nat \<Rightarrow> nat \<Rightarrow> nat \<Rightarrow> conv64 \<Rightarrow> conv64 option" where
  "mul p q n to s =
     (if n \<le> 27 then Some (mul_base p q n to s)
      else
        Option.bind (mul_split n) (\<lambda>(m, r, inv).
        let s = mul_twiddle_in p q n m r to s in
        Option.bind (fftdif to m r s) (\<lambda>s.
        Option.bind (fftdif (to + n) m r s) (\<lambda>s.
        Option.bind (ofold (\<lambda>i s. mul (to + m * i) (to + (n + m * i)) m (to + (2 * n + m * i)) s)
                       [0..<r] s) (\<lambda>s.
        Option.bind (fftdit (to + 2 * n) m r s) (\<lambda>s.
        let s = scale_cells (to + 2 * n) n inv s;
            s = mul_twiddle_out n m r to s;
            s = mul_conj_twiddle_in p q m r to s in
        Option.bind (fftdif to m r s) (\<lambda>s.
        Option.bind (fftdif p m r s) (\<lambda>s.
        Option.bind (ofold (\<lambda>i s. mul (to + m * i) (p + m * i) m (to + (2 * n + m * i)) s)
                       [0..<r] s) (\<lambda>s.
        Option.bind (fftdit (to + 2 * n) m r s) (\<lambda>s.
        let s = scale_cells (to + 2 * n) n inv s;
            s = mul_conj_twiddle_out q n m r to s
        in Some (mul_crt q n m r to s)))))))))))"

declare mul.simps [code]

section \<open>multiply_cyclic_raw and multiply\<close>

text \<open>
  The top-level CRT lift of \<^verbatim>\<open>multiply_cyclic_raw\<close> (\<open>pp\<close> holds the scaled product).
\<close>

definition raw_crt :: "nat \<Rightarrow> nat \<Rightarrow> nat \<Rightarrow> nat \<Rightarrow> nat \<Rightarrow> conv64 \<Rightarrow> conv64" where
  "raw_crt pp n m r to s =
     (let s = fold (\<lambda>i s. wr (to + i) 0 s) [0..<n] s
      in fold (\<lambda>i s. fold (\<lambda>j s.
            let s = wr (to + (i * m + j))
                      (add_assign (rd s (to + (i * m + j)))
                         ((1 - OMEGA) * rd s (pp + (i * m + j))
                            + (1 - OMEGA2) * conjT (rd s (pp + (i * m + j))))) s
            in if i * m + m + j < n then
                 wr (to + (i * m + m + j))
                   (add_assign (rd s (to + (i * m + m + j)))
                      ((OMEGA2 - OMEGA)
                         * (rd s (pp + (i * m + j)) - conjT (rd s (pp + (i * m + j)))))) s
               else
                 wr (to + (i * m + m + j - n))
                   (add_assign (rd s (to + (i * m + m + j - n)))
                      ((OMEGA2 - OMEGA)
                         * (rd s (pp + (i * m + j)) - conjT (rd s (pp + (i * m + j)))))) s)
          [0..<m] s)
        [0..<r] s)"

text \<open>
  \<^verbatim>\<open>void multiply_cyclic_raw(uint64_t *p, uint64_t *q, uint64_t n, uint64_t *target)\<close>.
  First the split: \<^verbatim>\<open>m = 1; while (m*m <= n) m *= 3; m /= 3; r = n/m;\<close> and the
  loop for \<open>inv\<close>.  The division \<^verbatim>\<open>n/m\<close> traps for \<open>m = 0\<close> (which needs \<open>n = 0\<close>);
  the call then does not return.
\<close>

definition raw_split :: "nat \<Rightarrow> (nat \<times> nat \<times> T) option" where
  "raw_split n =
     Option.bind (while_option (\<lambda>m. m * m \<le> n) (\<lambda>m. m * 3) 1) (\<lambda>m.
     let m = m div 3 in
     if m = 0 then None
     else
       let r = n div m in
       Option.bind (inv_loop r) (\<lambda>inv. Some (m, r, inv)))"

text \<open>
  The body up to and including the CRT lift; the result is the buffer at that point.
  The arrays behind \<open>p\<close> and \<open>q\<close> are lists.  \<^verbatim>\<open>new T[3*n + 6*m]\<close> default-constructs
  every cell as \<open>T()\<close>, the zero of T; \<open>buf\<close> is address 0.
\<close>

definition raw_lift :: "u64 list \<Rightarrow> u64 list \<Rightarrow> nat \<Rightarrow> conv64 option" where
  "raw_lift p q n =
     Option.bind (raw_split n) (\<lambda>(m, r, inv).
     let buf = 0;
         pp = buf;
         qq = buf + n;
         to = buf + 2 * n;
         s = \<lparr>tmp = buf + 3 * n + 3 * m, mem = (\<lambda>_. T 0 0)\<rparr>;
         s = fold (\<lambda>i s. wr (qq + i) (T_of (q ! i)) (wr (pp + i) (T_of (p ! i)) s)) [0..<n] s in
     Option.bind (fftdif pp m r s) (\<lambda>s.
     Option.bind (fftdif qq m r s) (\<lambda>s.
     Option.bind (ofold (\<lambda>i s. mul (pp + i * m) (qq + i * m) m (to + i * m) s) [0..<r] s) (\<lambda>s.
     Option.bind (fftdit to m r s) (\<lambda>s.
     let s = fold (\<lambda>i s. wr (pp + i) (rd s (to + i) * inv) s) [0..<n] s
     in Some (raw_crt pp n m r to s))))))"

text \<open>
  The vectors that are alive during a call of \<^verbatim>\<open>multiply\<close>: the caller's \<open>p\<close> and \<open>q\<close>
  and the locals \<open>pp\<close>, \<open>qq\<close> and \<open>res\<close>.  The store maps each vector to its contents;
  a pointer \<^verbatim>\<open>v.data()\<close> is the name of the vector, and a write through it updates the
  store at that name.  An \<^verbatim>\<open>int64_t\<close> is the 64-bit word of its two's-complement
  representation (its value is \<open>sint\<close> of the word), so the conversions between
  \<^verbatim>\<open>int64_t\<close> and \<^verbatim>\<open>uint64_t\<close> keep the word.
\<close>

datatype vname = In_p | In_q | Loc_pp | Loc_qq | Loc_res

type_synonym i64 = "64 word"

type_synonym vecs = "vname \<Rightarrow> u64 list"

text \<open>
  The whole routine.  It holds non-const pointers to three arrays: it reads \<open>p[i]\<close> and
  \<open>q[i]\<close> into its buffer and, after the lift, writes \<open>target[i]\<close> for \<open>i < n\<close>.
  \<^verbatim>\<open>for (i = 0; i < n; ++i) target[i] = (to[i]*INV3).a;\<close>
\<close>

definition multiply_cyclic_raw :: "vname \<Rightarrow> vname \<Rightarrow> nat \<Rightarrow> vname \<Rightarrow> vecs \<Rightarrow> vecs option" where
  "multiply_cyclic_raw p q n target V =
     Option.bind (raw_lift (V p) (V q) n) (\<lambda>s.
     let to = 2 * n
     in Some (fold (\<lambda>i V. V(target := (V target)[i := T_a (rd s (to + i) * INV3)])) [0..<n] V))"

text \<open>
  \<^verbatim>\<open>vector<int64_t> multiply(const vector<int64_t> &p, const vector<int64_t> &q)\<close>.
  \<^verbatim>\<open>p.size() + q.size() - 1\<close> and \<^verbatim>\<open>s *= 3\<close> are computed in \<^verbatim>\<open>size_t\<close> and wrap
  modulo \<open>2^64\<close>.  \<^verbatim>\<open>v.resize(k)\<close> truncates or pads with zeros.

  \<open>multiply_run\<close> is the call as a transformation of the store, statement by
  statement: the result is the store when the call returns, together with the returned
  vector.  \<open>multiply p q\<close> is the vector returned for the caller's vectors \<open>p\<close> and \<open>q\<close>.
\<close>

definition resize :: "nat \<Rightarrow> u64 list \<Rightarrow> u64 list" where
  "resize k xs = take k xs @ replicate (k - length xs) 0"

definition multiply_run :: "vecs \<Rightarrow> (vecs \<times> i64 list) option" where
  "multiply_run V =
     (let V = V(Loc_pp := replicate (length (V In_p)) 0);
          V = V(Loc_qq := replicate (length (V In_q)) 0);
          V = fold (\<lambda>i V. V(Loc_pp := (V Loc_pp)[i := V In_p ! i])) [0..<length (V In_p)] V;
          V = fold (\<lambda>i V. V(Loc_qq := (V Loc_qq)[i := V In_q ! i])) [0..<length (V In_q)] V;
          bound = (length (V In_p) + length (V In_q) + (2 ^ 64 - 1)) mod 2 ^ 64 in
      Option.bind (while_option (\<lambda>s. s < bound) (\<lambda>s. s * 3 mod 2 ^ 64) 1) (\<lambda>s.
      let V = V(Loc_pp := resize s (V Loc_pp));
          V = V(Loc_qq := resize s (V Loc_qq));
          V = V(Loc_res := replicate s 0) in
      Option.bind (multiply_cyclic_raw Loc_pp Loc_qq (length (V Loc_pp)) Loc_res V) (\<lambda>V.
      let V = V(Loc_res := resize bound (V Loc_res))
      in Some (V, V Loc_res))))"

text \<open>The store of a caller that holds the vectors \<open>p\<close> and \<open>q\<close>.\<close>

definition caller :: "i64 list \<Rightarrow> i64 list \<Rightarrow> vecs" where
  "caller p q = (\<lambda>v. case v of In_p \<Rightarrow> p | In_q \<Rightarrow> q | _ \<Rightarrow> [])"

definition multiply :: "i64 list \<Rightarrow> i64 list \<Rightarrow> i64 list option" where
  "multiply p q = map_option snd (multiply_run (caller p q))"

section \<open>Notions used in the statements\<close>

text \<open>An element of T that lies in R: its omega-component is zero.\<close>

definition pureR :: "T \<Rightarrow> bool" where
  "pureR u \<longleftrightarrow> T_b u = 0"

definition pure_cells :: "nat \<Rightarrow> nat \<Rightarrow> conv64 \<Rightarrow> bool" where
  "pure_cells to n s \<longleftrightarrow> (\<forall>x. to \<le> x \<and> x < to + n \<longrightarrow> pureR (rd s x))"

text \<open>
  The powers of omega, indexed by integers: \<open>wpow k = omega^k\<close> (omega has order 3).
\<close>

definition wpow :: "int \<Rightarrow> T" where
  "wpow k = OMEGA ^ nat (k mod 3)"

text \<open>
  A block \<open>f 0, ..., f (m - 1)\<close> of T-elements stands for the polynomial
  \<open>f 0 + f 1 * x + ... + f (m - 1) * x^(m - 1)\<close> in \<open>T[x]/(x^m - omega^e)\<close>.
  \<open>ext e m f\<close> extends it to all integer indices \<open>j\<close> so that index \<open>j + m\<close> carries
  the factor \<open>omega^(- e)\<close>: for every integer \<open>j\<close>, \<open>ext e m f j * x^j\<close> is the same
  element as \<open>f (j mod m) * x^(j mod m)\<close>.
\<close>

definition ext :: "int \<Rightarrow> nat \<Rightarrow> (nat \<Rightarrow> T) \<Rightarrow> int \<Rightarrow> T" where
  "ext e m f j = wpow (- e * (j div int m)) * f (nat (j mod int m))"

text \<open>The product \<open>x^t * f\<close> in \<open>T[x]/(x^m - omega)\<close>, for any integer \<open>t\<close>.\<close>

definition shiftx :: "nat \<Rightarrow> int \<Rightarrow> (nat \<Rightarrow> T) \<Rightarrow> nat \<Rightarrow> T" where
  "shiftx m t f j = ext 1 m f (int j - t)"

text \<open>The product \<open>f * g\<close> in \<open>T[x]/(x^m - omega^e)\<close>.\<close>

definition cmul :: "int \<Rightarrow> nat \<Rightarrow> (nat \<Rightarrow> T) \<Rightarrow> (nat \<Rightarrow> T) \<Rightarrow> nat \<Rightarrow> T" where
  "cmul e m f g k = (\<Sum>i<m. f i * ext e m g (int k - int i))"

text \<open>The block of the buffer that starts at address \<open>p\<close>.\<close>

definition blk :: "conv64 \<Rightarrow> nat \<Rightarrow> nat \<Rightarrow> T" where
  "blk s p j = rd s (p + j)"

text \<open>The two loops of the general case of \<open>twiddle\<close>, for given \<open>tt\<close> and \<open>mult\<close>.\<close>

definition rot_loops :: "nat \<Rightarrow> nat \<Rightarrow> nat \<Rightarrow> T \<Rightarrow> nat \<Rightarrow> conv64 \<Rightarrow> conv64" where
  "rot_loops p m tt mult to s =
     fold (\<lambda>j s. wr (to + j) (rd s (p + (j - tt)) * mult) s) [tt..<m]
       (fold (\<lambda>j s. wr (to + j) (rd s (p + (m - tt + j)) * OMEGA * mult) s) [0..<tt] s)"

text \<open>The radix-3 butterfly on three blocks, with coefficients \<open>c1\<close> and \<open>c2\<close>.\<close>

definition bfly :: "T \<Rightarrow> T \<Rightarrow> (nat \<Rightarrow> T) \<Rightarrow> (nat \<Rightarrow> T) \<Rightarrow> (nat \<Rightarrow> T) \<Rightarrow> nat \<Rightarrow> T" where
  "bfly c1 c2 f0 f1 f2 j = f0 j + c1 * f1 j + c2 * f2 j"

text \<open>The body of the outer loop of \<open>fftdif\<close> and of \<open>fftdit\<close>, for one \<open>i\<close>.\<close>

definition fftdif_body :: "nat \<Rightarrow> nat \<Rightarrow> nat \<Rightarrow> nat \<Rightarrow> nat \<Rightarrow> nat \<Rightarrow> conv64 \<Rightarrow> conv64" where
  "fftdif_body p m r pos1 pos2 i s =
     (let s = fold (fftdif_butterfly p m pos1 pos2 i) [0..<m] s;
          s = twiddle (tmp s + m) m (3 * i * m div r) (p + (pos1 + i * m)) s
      in twiddle (tmp s + 2 * m) m (6 * i * m div r) (p + (pos2 + i * m)) s)"

definition fftdit_body :: "nat \<Rightarrow> nat \<Rightarrow> nat \<Rightarrow> nat \<Rightarrow> nat \<Rightarrow> nat \<Rightarrow> conv64 \<Rightarrow> conv64" where
  "fftdit_body p m r pos1 pos2 i s =
     (let s = twiddle (p + (pos1 + i * m)) m (3 * m - 3 * i * m div r) (tmp s + m) s;
          s = twiddle (p + (pos2 + i * m)) m (3 * m - 6 * i * m div r) (tmp s + 2 * m) s
      in fold (fftdit_butterfly p m pos1 pos2 i) [0..<m] s)"

text \<open>
  The cells of the \<open>i\<close>-th blocks (of \<open>m\<close> cells each) of the regions that start at the
  addresses in \<open>bases\<close>.
\<close>

definition blocks :: "nat set \<Rightarrow> nat \<Rightarrow> nat \<Rightarrow> nat set" where
  "blocks bases m i = {x. \<exists>c\<in>bases. c + i * m \<le> x \<and> x < c + i * m + m}"

text \<open>
  \<open>frame_ok tp p n s s'\<close>: from \<open>s\<close> to \<open>s'\<close> the pointer \<open>tmp\<close> and every cell below \<open>tp\<close>
  that is outside the region \<open>[p, p + n)\<close> are unchanged.
\<close>

definition frame_ok :: "nat \<Rightarrow> nat \<Rightarrow> nat \<Rightarrow> conv64 \<Rightarrow> conv64 \<Rightarrow> bool" where
  "frame_ok tp p n s s' \<longleftrightarrow>
     tmp s' = tmp s \<and> (\<forall>x. x < tp \<and> (x < p \<or> p + n \<le> x) \<longrightarrow> rd s' x = rd s x)"

text \<open>
  The transform computed by \<open>fftdif\<close> on \<open>3^e\<close> blocks: position \<open>k\<close> of the output holds
  the value of the polynomial \<open>sum_i F i * y^i\<close> at \<open>y = zeta^(rho e k)\<close>, where
  \<open>zeta = x^(3m / 3^e)\<close> is a root of unity of order \<open>3^e\<close> in \<open>T[x]/(x^m - omega)\<close> and
  \<open>rho e k\<close> reverses the \<open>e\<close> ternary digits of \<open>k\<close>.
\<close>

fun rho :: "nat \<Rightarrow> nat \<Rightarrow> nat" where
  "rho 0 k = 0"
| "rho (Suc e) k = 3 * rho e (k mod 3 ^ e) + k div 3 ^ e"

definition dft :: "nat \<Rightarrow> nat \<Rightarrow> (nat \<Rightarrow> nat \<Rightarrow> T) \<Rightarrow> nat \<Rightarrow> nat \<Rightarrow> T" where
  "dft m e F k j = (\<Sum>i<3 ^ e. shiftx m (int (3 * m div 3 ^ e) * int i * int (rho e k)) (F i) j)"

text \<open>
  The product of \<open>sum_a F a * y^a\<close> and \<open>sum_b G b * y^b\<close> in
  \<open>(T[x]/(x^m - omega))[y]/(y^r - omega^ey)\<close>: the coefficient of \<open>y^c\<close>, a block.
\<close>

definition yprod :: "int \<Rightarrow> nat \<Rightarrow> nat \<Rightarrow> (nat \<Rightarrow> nat \<Rightarrow> T) \<Rightarrow> (nat \<Rightarrow> nat \<Rightarrow> T) \<Rightarrow> nat \<Rightarrow> nat \<Rightarrow> T" where
  "yprod ey m r F G c j =
     (\<Sum>a<r. wpow (- ey * ((int c - int a) div int r))
              * cmul 1 m (F a) (G (nat ((int c - int a) mod int r))) j)"


text \<open>
  The product of two blocks of \<open>m\<close> coefficients has degree below \<open>2m\<close>: \<open>low_part\<close> is
  its part of degree below \<open>m\<close> and \<open>high_part\<close> the rest, divided by \<open>x^m\<close>.  The sums
  \<open>ylow\<close> and \<open>yhigh\<close> collect these parts for the coefficient of \<open>y^C\<close> of a product
  modulo \<open>y^r - omega^ey\<close>.
\<close>

definition low_part :: "nat \<Rightarrow> (nat \<Rightarrow> T) \<Rightarrow> (nat \<Rightarrow> T) \<Rightarrow> nat \<Rightarrow> T" where
  "low_part m f g j = (\<Sum>i<m. if i \<le> j then f i * g (j - i) else 0)"

definition high_part :: "nat \<Rightarrow> (nat \<Rightarrow> T) \<Rightarrow> (nat \<Rightarrow> T) \<Rightarrow> nat \<Rightarrow> T" where
  "high_part m f g j = (\<Sum>i<m. if i \<le> j then 0 else f i * g (j + m - i))"

definition ylow :: "int \<Rightarrow> nat \<Rightarrow> nat \<Rightarrow> (nat \<Rightarrow> nat \<Rightarrow> T) \<Rightarrow> (nat \<Rightarrow> nat \<Rightarrow> T) \<Rightarrow> int \<Rightarrow> nat \<Rightarrow> T" where
  "ylow ey m r F G C j =
     (\<Sum>a<r. wpow (- ey * ((C - int a) div int r))
              * low_part m (F a) (G (nat ((C - int a) mod int r))) j)"

definition yhigh :: "int \<Rightarrow> nat \<Rightarrow> nat \<Rightarrow> (nat \<Rightarrow> nat \<Rightarrow> T) \<Rightarrow> (nat \<Rightarrow> nat \<Rightarrow> T) \<Rightarrow> int \<Rightarrow> nat \<Rightarrow> T" where
  "yhigh ey m r F G C j =
     (\<Sum>a<r. wpow (- ey * ((C - int a) div int r))
              * high_part m (F a) (G (nat ((C - int a) mod int r))) j)"

text \<open>
  \<open>mul_ok tp n\<close>: the contract of \<open>mul\<close> for size \<open>n\<close>, on a buffer whose scratch
  pointer \<open>tmp\<close> is \<open>tp\<close>.  The blocks at \<open>p\<close> and \<open>q\<close> do not overlap and lie below
  \<open>to\<close>, and \<open>4n\<close> cells from \<open>to\<close> on lie below \<open>tp\<close>.  Then the call returns, the \<open>n\<close>
  cells at \<open>to\<close> hold the product of the two blocks in \<open>T[x]/(x^n - omega)\<close>, and below
  \<open>tp\<close> only cells of the two blocks and of the \<open>4n\<close> cells at \<open>to\<close> have changed.
\<close>

definition mul_ok :: "nat \<Rightarrow> nat \<Rightarrow> bool" where
  "mul_ok tp n \<longleftrightarrow>
     (\<forall>p q to s. tmp s = tp \<and> p + n \<le> to \<and> q + n \<le> to \<and> (p + n \<le> q \<or> q + n \<le> p)
                   \<and> to + 4 * n \<le> tp \<longrightarrow>
        (\<exists>s'. mul p q n to s = Some s' \<and> tmp s' = tp
            \<and> (\<forall>k<n. rd s' (to + k) = cmul 1 n (blk s p) (blk s q) k)
            \<and> (\<forall>x. x < tp \<and> (x < p \<or> p + n \<le> x) \<and> (x < q \<or> q + n \<le> x)
                      \<and> (x < to \<or> to + 4 * n \<le> x) \<longrightarrow> rd s' x = rd s x)))"

text \<open>
  The coefficient of \<open>x^k\<close> in the product of the polynomials with coefficient lists \<open>p\<close>
  and \<open>q\<close> over the integers modulo \<open>2^64\<close>: the sum of \<open>p[i] * q[j]\<close> over \<open>i + j = k\<close>.
\<close>

definition conv :: "u64 list \<Rightarrow> u64 list \<Rightarrow> nat \<Rightarrow> u64" where
  "conv p q k = (\<Sum>i<length p. if i \<le> k \<and> k - i < length q then p ! i * q ! (k - i) else 0)"
section \<open>Properties of the ring\<close>

lemma add_assign_eq [simp]: "add_assign u v = u + v"
  by (simp add: add_assign_def plus_T_def)

lemma sub_assign_eq [simp]: "sub_assign u v = u - v"
  by (simp add: sub_assign_def minus_T_def)

lemma mul_assign_eq [simp]: "mul_assign u v = u * v"
  by (simp add: mul_assign_def times_T_def)

lemma T_zero: "T 0 0 = 0"
  by (simp add: zero_T_def)

lemma T_of_0 [simp]: "T_of 0 = 0" and T_of_1 [simp]: "T_of 1 = 1"
  by (simp_all add: T_of_def zero_T_def one_T_def)

lemma T_of_add: "T_of (x + y) = T_of x + T_of y"
  by (simp add: T_of_def plus_T_def)

lemma T_of_mult: "T_of (x * y) = T_of x * T_of y"
  by (simp add: T_of_def times_T_def)

lemma T_of_power: "T_of (x ^ k) = T_of x ^ k"
  by (induction k) (simp_all add: T_of_mult)

lemma T_of_sum: "T_of (sum f A) = (\<Sum>i\<in>A. T_of (f i))"
  by (induction A rule: infinite_finite_induct) (simp_all add: T_of_add)

lemma T_of_nat: "(of_nat k :: T) = T_of (of_nat k)"
  by (induction k) (simp_all add: T_of_add)

lemma OMEGA_sq [simp]: "OMEGA * OMEGA = OMEGA2"
  by (simp add: OMEGA_def OMEGA2_def times_T_def)

lemma OMEGA_cube [simp]: "OMEGA * OMEGA2 = 1" "OMEGA2 * OMEGA = 1"
  by (simp_all add: OMEGA_def OMEGA2_def times_T_def one_T_def)

lemma OMEGA2_sq [simp]: "OMEGA2 * OMEGA2 = OMEGA"
  by (simp add: OMEGA_def OMEGA2_def times_T_def)

lemma OMEGA_left [simp]:
  "OMEGA * (OMEGA * u) = OMEGA2 * u" "OMEGA * (OMEGA2 * u) = u"
  "OMEGA2 * (OMEGA * u) = u" "OMEGA2 * (OMEGA2 * u) = OMEGA * u"
  by (simp_all add: mult.assoc [symmetric])

lemma OMEGA_sum [simp]: "1 + OMEGA + OMEGA2 = 0"
  by (simp add: OMEGA_def OMEGA2_def plus_T_def one_T_def zero_T_def)

lemma OMEGA2_eq: "OMEGA2 = - 1 - OMEGA"
  by (simp add: OMEGA_def OMEGA2_def minus_T_def uminus_T_def one_T_def)

lemma INV3_times_3: "INV3 * T_of 3 = 1"
  by (simp add: INV3_def T_of_def times_T_def one_T_def)

lemma INV3_three [simp]: "INV3 * 3 = 1" "3 * INV3 = 1"
proof -
  have "INV3 * (1 + 1 + 1) = 1"
    by (simp add: INV3_def one_T_def plus_T_def times_T_def)
  then show "INV3 * 3 = 1" by simp
  then show "3 * INV3 = 1" by (simp add: mult.commute)
qed

lemma conjT_add: "conjT (u + v) = conjT u + conjT v"
  by (simp add: conjT_def plus_T_def)

lemma conjT_diff: "conjT (u - v) = conjT u - conjT v"
  by (simp add: conjT_def minus_T_def)

lemma conjT_mult: "conjT (u * v) = conjT u * conjT v"
  by (simp add: conjT_def times_T_def algebra_simps)

lemma conjT_conjT [simp]: "conjT (conjT u) = u"
  by (cases u) (simp add: conjT_def)

lemma conjT_0 [simp]: "conjT 0 = 0" and conjT_1 [simp]: "conjT 1 = 1"
  and conjT_OMEGA [simp]: "conjT OMEGA = OMEGA2" and conjT_OMEGA2 [simp]: "conjT OMEGA2 = OMEGA"
  by (simp_all add: conjT_def zero_T_def one_T_def OMEGA_def OMEGA2_def)

lemma conjT_sum: "conjT (sum f A) = (\<Sum>i\<in>A. conjT (f i))"
  by (induction A rule: infinite_finite_induct) (simp_all add: conjT_add)

lemma conjT_T_of [simp]: "conjT (T_of x) = T_of x"
  by (simp add: conjT_def T_of_def)

text \<open>
  C9: the constant \<open>INV3 = (12297829382473034411, 0)\<close> is the inverse of 3 in T under the
  wrapping arithmetic of the code: \<open>INV3 * T(3) = T(1)\<close>, and
  \<open>3 * 12297829382473034411\<close> is congruent to 1 modulo \<open>2^64\<close>.
\<close>

theorem INV3_inverse_of_3:
  "INV3 * T_of 3 = T_of 1 \<and> T_a INV3 = 12297829382473034411 \<and> T_b INV3 = 0
   \<and> (3 * 12297829382473034411 :: int) mod 2 ^ 64 = 1"
  by (simp add: INV3_def T_of_def times_T_def)

section \<open>The split of mul\<close>

lemma while_m_aux:
  "j \<le> (k + 1) div 2 \<Longrightarrow>
   while_option (\<lambda>m::nat. m * m < 3 ^ k) (\<lambda>m. m * 3) (3 ^ j) = Some (3 ^ ((k + 1) div 2))"
proof (induction "(k + 1) div 2 - j" arbitrary: j)
  case 0
  then have j: "j = (k + 1) div 2" by simp
  have "\<not> ((3::nat) ^ j * 3 ^ j < 3 ^ k)"
    unfolding power_add [symmetric] using j by (simp add: not_less) 
  then show ?case
    by (subst while_option_unfold) (simp add: j)
next
  case (Suc d)
  then have lt: "j < (k + 1) div 2" by simp
  then have "(3::nat) ^ j * 3 ^ j < 3 ^ k"
    unfolding power_add [symmetric] by simp 
  moreover have "while_option (\<lambda>m::nat. m * m < 3 ^ k) (\<lambda>m. m * 3) (3 ^ Suc j) = Some (3 ^ ((k + 1) div 2))"
    using Suc.hyps(1)[of "Suc j"] Suc.hyps(2) lt by simp
  ultimately show ?case
    by (subst while_option_unfold) (simp add: mult.commute)
qed

lemma while_m: "while_option (\<lambda>m::nat. m * m < 3 ^ k) (\<lambda>m. m * 3) (Suc 0) = Some (3 ^ ((k + 1) div 2))"
  using while_m_aux[of 0 k] by simp

lemma inv_loop_aux:
  "i \<le> j \<Longrightarrow>
   while_option (\<lambda>(i, inv). i < 3 ^ j) (\<lambda>(i, inv). (i * 3, mul_assign inv INV3)) ((3::nat) ^ i, INV3 ^ i)
     = Some (3 ^ j, INV3 ^ j)"
proof (induction "j - i" arbitrary: i)
  case 0
  then show ?case by (subst while_option_unfold) simp
next
  case (Suc d)
  then have lt: "i < j" by simp
  have "while_option (\<lambda>(i, inv). i < 3 ^ j) (\<lambda>(i, inv). (i * 3, mul_assign inv INV3)) ((3::nat) ^ Suc i, INV3 ^ Suc i)
     = Some (3 ^ j, INV3 ^ j)"
    using Suc.hyps(1)[of "Suc i"] Suc.hyps(2) lt by simp
  then show ?case using lt
    by (subst while_option_unfold) (simp add: mult.commute)
qed

lemma inv_loop_pow3: "inv_loop (3 ^ j) = Some (INV3 ^ j)"
  using inv_loop_aux[of 0 j] by (simp add: inv_loop_def)

lemma INV3_pow: "INV3 ^ j * 3 ^ j = 1"
  by (simp add: power_mult_distrib [symmetric])

lemma pow3_div: "(3::nat) ^ k div 3 ^ ((k + 1) div 2) = 3 ^ (k div 2)"
proof -
  have "k = (k + 1) div 2 + k div 2" by arith
  then have "(3::nat) ^ k = 3 ^ ((k + 1) div 2) * 3 ^ (k div 2)"
    by (metis power_add)
  then show ?thesis by simp
qed

lemma mul_split_pow3:
  "mul_split (3 ^ k) = Some (3 ^ ((k + 1) div 2), 3 ^ (k div 2), INV3 ^ (k div 2))"
  using pow3_div[of k] by (simp add: mul_split_def while_m Let_def inv_loop_pow3)


text \<open>
  C3 (as amended): in the recursive step of \<open>mul\<close> (\<open>n = 3^k > 27\<close>) the split chooses
  \<open>m = 3^ceil(k/2)\<close> and \<open>r = n/m = 3^floor(k/2)\<close>, so that \<open>r \<le> m \<le> 3r\<close> and \<open>r\<close> is a
  power of 3, and the precomputed \<open>inv\<close> is \<open>INV3^floor(k/2)\<close>, the inverse of
  \<open>3^floor(k/2) = r\<close> in T.
\<close>

theorem mul_split_power_of_3:
  assumes "n = 3 ^ k" and "27 < n"
  shows "mul_split n = Some (3 ^ ((k + 1) div 2), 3 ^ (k div 2), INV3 ^ (k div 2))
         \<and> n div 3 ^ ((k + 1) div 2) = 3 ^ (k div 2)
         \<and> (3::nat) ^ (k div 2) \<le> 3 ^ ((k + 1) div 2)
         \<and> (3::nat) ^ ((k + 1) div 2) \<le> 3 * 3 ^ (k div 2)
         \<and> INV3 ^ (k div 2) * T_of 3 ^ (k div 2) = 1"
proof -
  have "(3::nat) ^ (k div 2) \<le> 3 ^ ((k + 1) div 2)"
    by (rule power_increasing) simp_all
  moreover have "(3::nat) ^ ((k + 1) div 2) \<le> 3 ^ Suc (k div 2)"
    by (rule power_increasing) simp_all
  moreover have "INV3 ^ (k div 2) * T_of 3 ^ (k div 2) = 1"
    by (simp add: power_mult_distrib [symmetric] INV3_times_3)
  ultimately show ?thesis
    using assms(1) pow3_div [of k] by (simp add: mul_split_pow3)
qed

theorem mul_split_power_of_3_witness:
  "(243::nat) = 3 ^ 5 \<and> (27::nat) < 243
   \<and> mul_split 243 = Some (27, 9, INV3 ^ 2) \<and> (243::nat) div 27 = 9
   \<and> INV3 ^ 2 * T_of 3 ^ 2 = 1"
  using mul_split_power_of_3 [of 243 5] by simp

text \<open>
  The claim as stated (\<open>m = 3^floor(k/2)\<close>, \<open>m \<le> r\<close>, \<open>inv = 3^(-ceil(k/2))\<close>) fails
  for odd \<open>k\<close>: at \<open>n = 3^5\<close> the split is \<open>m = 27\<close>, \<open>r = 9\<close>, \<open>inv = INV3^2\<close>.
\<close>

theorem mul_split_counterexample:
  "mul_split (3 ^ 5) = Some (27, 9, INV3 ^ 2)
   \<and> (27::nat) \<noteq> 3 ^ (5 div 2) \<and> \<not> ((27::nat) \<le> 9)
   \<and> INV3 ^ 2 * T_of 3 ^ ((5 + 1) div 2) \<noteq> 1"
proof -
  have "mul_split (3 ^ 5) = Some (27, 9, INV3 ^ 2)"
    using mul_split_pow3 [of 5] by simp
  moreover have "INV3 ^ 2 * T_of 3 ^ ((5 + 1) div 2) \<noteq> 1"
    by (simp add: INV3_def T_of_def times_T_def one_T_def power2_eq_square power3_eq_cube)
  ultimately show ?thesis by simp
qed

section \<open>Reading and writing the buffer\<close>

lemma rd_wr [simp]: "rd (wr x v s) y = (if y = x then v else rd s y)"
  by (simp add: rd_def wr_def)

lemma tmp_wr [simp]: "tmp (wr x v s) = tmp s"
  by (simp add: wr_def)

lemma fold_invariant:
  assumes "\<And>x s. x \<in> set xs \<Longrightarrow> P s \<Longrightarrow> P (f x s)" and "P s"
  shows "P (fold f xs s)"
  using assms by (induction xs arbitrary: s) simp_all

lemma rd_fill:
  "rd (fold (\<lambda>i s. wr (p + i) c s) [0..<n] s) x = (if p \<le> x \<and> x < p + n then c else rd s x)"
  by (induction n) auto

section \<open>The top-level CRT lift yields elements of R\<close>

lemma pureR_0: "pureR 0"
  by (simp add: pureR_def zero_T_def)

lemma pureR_add: "pureR u \<Longrightarrow> pureR v \<Longrightarrow> pureR (u + v)"
  by (simp add: pureR_def plus_T_def)

lemma pureR_lift_low: "pureR ((1 - OMEGA) * z + (1 - OMEGA2) * conjT z)"
  by (simp add: pureR_def plus_T_def minus_T_def times_T_def one_T_def OMEGA_def OMEGA2_def conjT_def)

lemma pureR_lift_high: "pureR ((OMEGA2 - OMEGA) * (z - conjT z))"
  by (simp add: pureR_def plus_T_def minus_T_def times_T_def one_T_def OMEGA_def OMEGA2_def conjT_def)

lemma pureR_INV3: "pureR u \<Longrightarrow> pureR (u * INV3)"
  by (simp add: pureR_def times_T_def INV3_def)

lemma pureR_T_of: "pureR u \<Longrightarrow> T_of (T_a u) = u"
  by (cases u) (simp add: pureR_def T_of_def)

lemma pure_cells_accumulate:
  "pure_cells to n s \<Longrightarrow> pureR v \<Longrightarrow> pure_cells to n (wr x (rd s x + v) s)"
  by (simp add: pure_cells_def pureR_add)

lemma pure_cells_raw_crt: "pure_cells to n (raw_crt pp n m r to s)"
proof -
  have zero: "pure_cells to n (fold (\<lambda>i s. wr (to + i) 0 s) [0..<n] s)"
    by (simp add: pure_cells_def rd_fill pureR_0)
  have step: "pure_cells to n
      (let s = wr (to + (i * m + j))
                      (add_assign (rd s (to + (i * m + j)))
                         ((1 - OMEGA) * rd s (pp + (i * m + j))
                            + (1 - OMEGA2) * conjT (rd s (pp + (i * m + j))))) s
            in if i * m + m + j < n then
                 wr (to + (i * m + m + j))
                   (add_assign (rd s (to + (i * m + m + j)))
                      ((OMEGA2 - OMEGA)
                         * (rd s (pp + (i * m + j)) - conjT (rd s (pp + (i * m + j)))))) s
               else
                 wr (to + (i * m + m + j - n))
                   (add_assign (rd s (to + (i * m + m + j - n)))
                      ((OMEGA2 - OMEGA)
                         * (rd s (pp + (i * m + j)) - conjT (rd s (pp + (i * m + j)))))) s)"
    if "pure_cells to n s" for i j s
  proof -
    have 1: "pure_cells to n (wr (to + (i * m + j))
                      (rd s (to + (i * m + j)) +
                         ((1 - OMEGA) * rd s (pp + (i * m + j))
                            + (1 - OMEGA2) * conjT (rd s (pp + (i * m + j))))) s)"
      by (intro pure_cells_accumulate pureR_lift_low that)
    show ?thesis
      unfolding Let_def add_assign_eq
      by (simp only: split: if_split) (intro conjI impI pure_cells_accumulate pureR_lift_high 1)
  qed
  show ?thesis
    unfolding raw_crt_def Let_def
    apply (rule fold_invariant[where P = "pure_cells to n"])
     apply (rule fold_invariant[where P = "pure_cells to n"])
      apply (rule step[unfolded Let_def])
      apply assumption+
    apply (rule zero)
    done
qed

lemma raw_lift_pure:
  assumes "raw_lift p q n = Some s"
  shows "pure_cells (2 * n) n s"
proof -
  from assms obtain pp m r s0 where "s = raw_crt pp n m r (2 * n) s0"
    by (auto simp: raw_lift_def Let_def split: Option.bind_splits prod.splits)
  then show ?thesis by (simp add: pure_cells_raw_crt)
qed

text \<open>
  C5: in \<open>multiply_cyclic_raw\<close>, after the final CRT lift, for every \<open>i < n\<close> the element
  \<open>to[i] * INV3\<close> is an element of R (its \<open>b\<close> field is zero), so that \<open>target[i]\<close>, its
  \<open>a\<close> field, determines it.  (\<open>to\<close> is at address \<open>2 * n\<close>; the property holds for whatever
  the buffer \<open>pp\<close> contains, in particular for inputs embedded from R.)
\<close>

theorem raw_lift_result_in_R:
  assumes "raw_lift p q n = Some s" and "i < n"
  shows "T_b (rd s (2 * n + i) * INV3) = 0
         \<and> rd s (2 * n + i) * INV3 = T_of (T_a (rd s (2 * n + i) * INV3))"
proof -
  have "pureR (rd s (2 * n + i) * INV3)"
    using raw_lift_pure[OF assms(1)] assms(2) by (simp add: pure_cells_def pureR_INV3)
  then show ?thesis by (simp add: pureR_T_of) (simp add: pureR_def)
qed

theorem raw_lift_result_in_R_witness:
  "\<exists>s. raw_lift [2] [3] 1 = Some s \<and> (0::nat) < 1 \<and> T_b (rd s (2 * 1 + 0) * INV3) = 0"
proof -
  have "\<exists>s. raw_lift [2] [3] 1 = Some s"
    by (simp add: raw_lift_def raw_split_def inv_loop_def while_option_unfold
        fftdif.simps fftdit.simps mul.simps Let_def)
  then obtain s where s: "raw_lift [2] [3] 1 = Some s" ..
  show ?thesis
    using raw_lift_result_in_R [OF s, of 0] s by auto
qed

section \<open>Powers of omega and the extension of a block\<close>

lemma OMEGA_pow3 [simp]: "OMEGA ^ 3 = 1"
  by (simp add: power3_eq_cube)

lemma OMEGA_pow_mod: "OMEGA ^ n = OMEGA ^ (n mod 3)"
proof -
  have "OMEGA ^ n = OMEGA ^ (3 * (n div 3) + n mod 3)" by simp
  also have "\<dots> = (OMEGA ^ 3) ^ (n div 3) * OMEGA ^ (n mod 3)"
    by (simp only: power_add power_mult)
  finally show ?thesis by simp
qed

lemma nat_mod3_add: "nat ((a + b) mod 3) = (nat (a mod 3) + nat (b mod 3)) mod 3"
proof -
  have "int ((nat (a mod 3) + nat (b mod 3)) mod 3) = (a mod 3 + b mod 3) mod 3"
    by (simp only: zmod_int of_nat_add) simp
  also have "\<dots> = (a + b) mod 3" by (simp only: mod_add_eq)
  finally show ?thesis by linarith
qed

lemma wpow_add: "wpow (a + b) = wpow a * wpow b"
proof -
  have "wpow (a + b) = OMEGA ^ ((nat (a mod 3) + nat (b mod 3)) mod 3)"
    by (simp only: wpow_def nat_mod3_add)
  also have "\<dots> = OMEGA ^ (nat (a mod 3) + nat (b mod 3))"
    by (rule OMEGA_pow_mod [symmetric])
  finally show ?thesis by (simp add: wpow_def power_add)
qed

lemma wpow_0 [simp]: "wpow 0 = 1" and wpow_1 [simp]: "wpow 1 = OMEGA"
  and wpow_2 [simp]: "wpow 2 = OMEGA2" and wpow_3 [simp]: "wpow 3 = 1"
  and wpow_m1 [simp]: "wpow (- 1) = OMEGA2" and wpow_m2 [simp]: "wpow (- 2) = OMEGA"
  and wpow_m3 [simp]: "wpow (- 3) = 1"
  by (simp_all add: wpow_def power2_eq_square)

lemma wpow_mod: "wpow (a mod 3) = wpow a"
  by (simp add: wpow_def)

lemma wpow_3k [simp]: "wpow (3 * k) = 1" "wpow (k * 3) = 1"
  by (simp_all add: wpow_def)

lemma wpow_minus: "wpow (- a) * wpow a = 1"
  using wpow_add [of "- a" a] by simp

lemma wpow_diff: "wpow (a - b) * wpow b = wpow a"
  using wpow_add [of "a - b" b] by simp

lemma conjT_power: "conjT (u ^ n) = conjT u ^ n"
  by (induction n) (simp_all add: conjT_mult)

lemma wpow_double: "wpow (2 * a) = wpow (- a)"
proof -
  have "wpow (2 * a) = wpow (- a) * wpow (3 * a)"
    using wpow_add [of "- a" "3 * a"] by simp
  then show ?thesis by simp
qed

lemma conjT_wpow: "conjT (wpow a) = wpow (- a)"
proof -
  have "conjT (wpow a) = OMEGA2 ^ nat (a mod 3)"
    by (simp add: wpow_def conjT_power)
  also have "\<dots> = (OMEGA ^ 2) ^ nat (a mod 3)"
    by (simp add: power2_eq_square)
  also have "\<dots> = OMEGA ^ (nat (a mod 3) + nat (a mod 3))"
    by (simp add: power_mult [symmetric] mult_2)
  also have "\<dots> = wpow (a mod 3) * wpow (a mod 3)"
    by (simp add: wpow_def power_add)
  also have "\<dots> = wpow (2 * a)"
    by (simp add: wpow_mod wpow_add [symmetric])
  finally show ?thesis by (simp add: wpow_double)
qed

lemma ext_base: "0 \<le> j \<Longrightarrow> j < int m \<Longrightarrow> ext e m f j = f (nat j)"
  by (simp add: ext_def)

lemma ext_nat [simp]: "j < m \<Longrightarrow> ext e m f (int j) = f j"
  by (simp add: ext_def)

lemma ext_period: "0 < m \<Longrightarrow> ext e m f (j + int m * d) = wpow (- e * d) * ext e m f j"
proof -
  assume "0 < m"
  then have "(j + int m * d) div int m = d + j div int m"
    and "(j + int m * d) mod int m = j mod int m"
    by simp_all
  moreover have "wpow (- e * (d + j div int m)) = wpow (- e * d) * wpow (- e * (j div int m))"
    by (simp only: distrib_left wpow_add)
  ultimately show ?thesis
    by (simp add: ext_def)
qed

lemma ext_cong: "(\<And>j. j < m \<Longrightarrow> f j = g j) \<Longrightarrow> 0 < m \<Longrightarrow> ext e m f i = ext e m g i"
  by (simp add: ext_def nat_less_iff)

lemma ext_decomp: "0 < m \<Longrightarrow> ext e m f i = wpow (- e * (i div int m)) * ext e m f (i mod int m)"
  by (simp add: ext_def)

lemma ext_ext:
  assumes "0 < m"
  shows "ext e m (\<lambda>j. ext e m f (int j - t)) i = ext e m f (i - t)"
proof -
  have "ext e m f (i - t) = ext e m f ((i mod int m - t) + int m * (i div int m))"
    by (simp add: algebra_simps)
  also have "\<dots> = wpow (- e * (i div int m)) * ext e m f (i mod int m - t)"
    by (rule ext_period [OF assms])
  finally show ?thesis
    using assms by (simp add: ext_def [of e m "\<lambda>j. ext e m f (int j - t)"])
qed

lemma ext_add: "ext e m (\<lambda>j. f j + g j) i = ext e m f i + ext e m g i"
  by (simp add: ext_def algebra_simps)

lemma ext_diff: "ext e m (\<lambda>j. f j - g j) i = ext e m f i - ext e m g i"
  by (simp add: ext_def algebra_simps)

lemma ext_scale: "ext e m (\<lambda>j. c * f j) i = c * ext e m f i"
  by (simp add: ext_def algebra_simps)

lemma ext_sum: "ext e m (\<lambda>j. \<Sum>a\<in>A. F a j) i = (\<Sum>a\<in>A. ext e m (F a) i)"
  by (simp add: ext_def sum_distrib_left)

lemma conjT_ext: "conjT (ext e m f i) = ext (- e) m (\<lambda>j. conjT (f j)) i"
  by (simp add: ext_def conjT_mult conjT_wpow)

section \<open>Multiplication by a power of x\<close>

lemma shiftx_shiftx: "0 < m \<Longrightarrow> shiftx m s (shiftx m t f) j = shiftx m (s + t) f j"
  unfolding shiftx_def by (subst ext_ext) (simp_all add: algebra_simps)

lemma shiftx_0 [simp]: "j < m \<Longrightarrow> shiftx m 0 f j = f j"
  by (simp add: shiftx_def)

lemma shiftx_period: "0 < m \<Longrightarrow> shiftx m (t + int m * d) f j = wpow d * shiftx m t f j"
  using ext_period [of m 1 f "int j - t" "- d"] by (simp add: shiftx_def algebra_simps)

lemma shiftx_3m: "0 < m \<Longrightarrow> shiftx m (t + 3 * int m * d) f j = shiftx m t f j"
  using shiftx_period [of m t "3 * d" f j] by (simp add: algebra_simps)

lemma shiftx_mod:
  assumes "0 < m"
  shows "shiftx m (t mod (3 * int m)) f j = shiftx m t f j"
proof -
  have e: "t mod (3 * int m) + 3 * int m * (t div (3 * int m)) = t"
    by simp
  show ?thesis
    using shiftx_3m [OF assms, of "t mod (3 * int m)" "t div (3 * int m)" f j]
    unfolding e by simp
qed

lemma shiftx_cong: "(\<And>j. j < m \<Longrightarrow> f j = g j) \<Longrightarrow> 0 < m \<Longrightarrow> shiftx m t f j = shiftx m t g j"
  unfolding shiftx_def by (rule ext_cong)

lemma shiftx_add: "shiftx m t (\<lambda>j. f j + g j) i = shiftx m t f i + shiftx m t g i"
  by (simp add: shiftx_def ext_add)

lemma shiftx_scale: "shiftx m t (\<lambda>j. c * f j) i = c * shiftx m t f i"
  by (simp add: shiftx_def ext_scale)

lemma shiftx_sum: "shiftx m t (\<lambda>j. \<Sum>a\<in>A. F a j) i = (\<Sum>a\<in>A. shiftx m t (F a) i)"
  by (simp add: shiftx_def ext_sum)

lemma ext_shiftx: "0 < m \<Longrightarrow> ext 1 m (shiftx m t f) i = ext 1 m f (i - t)"
  unfolding shiftx_def by (rule ext_ext)

section \<open>The effect of twiddle\<close>

lemma tmp_fold: "(\<And>x s. tmp (f x s) = tmp s) \<Longrightarrow> tmp (fold f xs s) = tmp s"
  by (induction xs arbitrary: s) simp_all

lemma rd_map_loop:
  assumes "\<And>j. a \<le> j \<Longrightarrow> j < b \<Longrightarrow> h j < to + a \<or> to + b \<le> h j"
  shows "rd (fold (\<lambda>j s. wr (to + j) (g (rd s (h j))) s) [a..<b] s) x
         = (if to + a \<le> x \<and> x < to + b then g (rd s (h (x - to))) else rd s x)"
  using assms
proof (induction b arbitrary: x)
  case 0
  then show ?case by auto
next
  case (Suc b)
  show ?case
  proof (cases "a \<le> b")
    case False
    then show ?thesis by auto
  next
    case True
    have src: "h j < to + a \<or> to + b \<le> h j" if "a \<le> j" "j < b" for j
      using Suc.prems [of j] that by auto
    have hb: "h b < to + a \<or> to + Suc b \<le> h b"
      using Suc.prems [of b] True by simp
    have x: "x = to + b \<Longrightarrow> x - to = b" by simp
    show ?thesis
      using True hb by (auto simp: Suc.IH [OF src] x)
  qed
qed

lemma int_div_mod_unique:
  fixes m d r :: int
  assumes "0 \<le> r" "r < m"
  shows "(d * m + r) div m = d" "(d * m + r) mod m = r"
  using assms by simp_all

lemma ext_neg:
  assumes "(k - 1) * int m < t - int j" "t - int j \<le> k * int m" "0 < m"
  shows "ext 1 m f (int j - t) = wpow k * f (nat (int j - t + k * int m))"
proof -
  define r where "r = int j - t + k * int m"
  have r: "0 \<le> r" "r < int m" using assms by (simp_all add: r_def algebra_simps)
  have "int j - t = (- k) * int m + r" by (simp add: r_def)
  then have "(int j - t) div int m = - k" "(int j - t) mod int m = r"
    using int_div_mod_unique [OF r, of "- k"] by simp_all
  then show ?thesis by (simp add: ext_def r_def)
qed

lemma twiddle_tmp [simp]: "tmp (twiddle p m t to s) = tmp s"
  by (simp add: twiddle_def tmp_fold split: prod.splits)

lemma twiddle_cases:
  "t = 0 \<or> t = 3 * m \<Longrightarrow> twiddle p m t to s = fold (\<lambda>j s. wr (to + j) (rd s (p + j)) s) [0..<m] s"
  "0 < t \<Longrightarrow> t < m \<Longrightarrow> twiddle p m t to s = rot_loops p m t 1 to s"
  "m \<le> t \<Longrightarrow> t < 2 * m \<Longrightarrow> twiddle p m t to s = rot_loops p m (t - m) OMEGA to s"
  "2 * m \<le> t \<Longrightarrow> t \<noteq> 3 * m \<Longrightarrow> twiddle p m t to s = rot_loops p m (t - 2 * m) OMEGA2 to s"
  by (auto simp add: twiddle_def rot_loops_def)

lemma rot_loops_rd:
  assumes tt: "tt \<le> m" and disj: "p + m \<le> to \<or> to + m \<le> p"
  shows "rd (rot_loops p m tt c to s) x
         = (if to \<le> x \<and> x < to + m then
              (if x - to < tt then rd s (p + (m - tt + (x - to))) * OMEGA * c
               else rd s (p + (x - to - tt)) * c)
            else rd s x)"
proof -
  define s1 where "s1 = fold (\<lambda>j s. wr (to + j) (rd s (p + (m - tt + j)) * OMEGA * c) s) [0..<tt] s"
  have s1: "rd s1 y = (if to \<le> y \<and> y < to + tt then rd s (p + (m - tt + (y - to))) * OMEGA * c else rd s y)" for y
    unfolding s1_def
    by (subst rd_map_loop [where h = "\<lambda>j. p + (m - tt + j)" and g = "\<lambda>u. u * OMEGA * c"])
       (use tt disj in auto)
  have "rd (fold (\<lambda>j s. wr (to + j) (rd s (p + (j - tt)) * c) s) [tt..<m] s1) x
        = (if to + tt \<le> x \<and> x < to + m then rd s1 (p + (x - to - tt)) * c else rd s1 x)"
    by (subst rd_map_loop [where h = "\<lambda>j. p + (j - tt)" and g = "\<lambda>u. u * c"])
       (use tt disj in auto)
  then show ?thesis
    unfolding rot_loops_def s1_def [symmetric] using tt disj by (auto simp: s1)
qed

lemma copy_loop_rd:
  assumes disj: "p + m \<le> to \<or> to + m \<le> p"
  shows "rd (fold (\<lambda>j s. wr (to + j) (rd s (p + j)) s) [0..<m] s) x
         = (if to \<le> x \<and> x < to + m then rd s (p + (x - to)) else rd s x)"
  by (subst rd_map_loop [where h = "\<lambda>j. p + j" and g = "\<lambda>u. u"]) (use disj in auto)

lemma twiddle_rd:
  assumes t: "t \<le> 3 * m" and disj: "p + m \<le> to \<or> to + m \<le> p"
  shows "rd (twiddle p m t to s) x
         = (if to \<le> x \<and> x < to + m then shiftx m (int t) (blk s p) (x - to) else rd s x)"
proof (cases "to \<le> x \<and> x < to + m")
  case False
  consider "t = 0 \<or> t = 3 * m" | "0 < t" "t < m" | "m \<le> t" "t < 2 * m" | "2 * m \<le> t" "t < 3 * m"
    using t by linarith
  then show ?thesis
    using False disj by cases (auto simp add: twiddle_cases copy_loop_rd rot_loops_rd)
next
  case True
  then obtain j where j: "x = to + j" "j < m"
    by (metis le_Suc_ex nat_add_left_cancel_less)
  then have m: "0 < m" by simp
  have copy: "rd (fold (\<lambda>j s. wr (to + j) (rd s (p + j)) s) [0..<m] s) (to + j) = rd s (p + j)"
    using j disj by (simp add: copy_loop_rd)
  have rot: "rd (rot_loops p m tt c to s) (to + j)
           = (if j < tt then rd s (p + (m - tt + j)) * OMEGA * c else rd s (p + (j - tt)) * c)"
    if tt: "tt \<le> m" for tt c
    using j disj tt by (simp add: rot_loops_rd)
  have f: "blk s p (nat (int j - int t + k * int m)) = rd s (p + nat (int j - int t + k * int m))" for k
    by (simp add: blk_def)
  consider "t = 0" | "t = 3 * m" | "0 < t" "t < m" | "m \<le> t" "t < 2 * m" | "2 * m \<le> t" "t < 3 * m"
    using t by linarith
  then show ?thesis
  proof cases
    case 1
    then show ?thesis using j True by (simp add: twiddle_cases copy blk_def)
  next
    case 2
    have "ext 1 m (blk s p) (int j - int t) = wpow 3 * blk s p (nat (int j - int t + 3 * int m))"
      by (rule ext_neg) (use 2 j in simp_all)
    then show ?thesis using j True 2 by (simp add: twiddle_cases copy shiftx_def blk_def)
  next
    case 3
    have lo: "ext 1 m (blk s p) (int j - int t) = wpow 1 * blk s p (nat (int j - int t + 1 * int m))"
      if "j < t"
      by (rule ext_neg) (use 3 j that in simp_all)
    have hi: "ext 1 m (blk s p) (int j - int t) = wpow 0 * blk s p (nat (int j - int t + 0 * int m))"
      if "\<not> j < t"
      by (rule ext_neg) (use 3 j that in simp_all)
    have "nat (int j - int t + int m) = m - t + j" if "j < t" using that 3 by linarith
    moreover have "nat (int j - int t) = j - t" if "\<not> j < t" using that by linarith
    ultimately show ?thesis
      using j True 3 by (simp add: twiddle_cases rot shiftx_def lo hi blk_def mult.commute)
  next
    case 4
    have lo: "ext 1 m (blk s p) (int j - int t) = wpow 2 * blk s p (nat (int j - int t + 2 * int m))"
      if "j < t - m"
      by (rule ext_neg) (use 4 j that in \<open>simp_all add: algebra_simps\<close>)
    have hi: "ext 1 m (blk s p) (int j - int t) = wpow 1 * blk s p (nat (int j - int t + 1 * int m))"
      if "\<not> j < t - m"
      by (rule ext_neg) (use 4 j that in \<open>simp_all add: algebra_simps\<close>)
    have "nat (int j - int t + 2 * int m) = m - (t - m) + j" if "j < t - m" using that 4 by linarith
    moreover have "nat (int j - int t + int m) = j - (t - m)" if "\<not> j < t - m" using that 4 by linarith
    ultimately show ?thesis
      using j True 4 by (simp add: twiddle_cases rot shiftx_def lo hi blk_def mult.commute mult.assoc)
  next
    case 5
    have lo: "ext 1 m (blk s p) (int j - int t) = wpow 3 * blk s p (nat (int j - int t + 3 * int m))"
      if "j < t - 2 * m"
      by (rule ext_neg) (use 5 j that in \<open>simp_all add: algebra_simps\<close>)
    have hi: "ext 1 m (blk s p) (int j - int t) = wpow 2 * blk s p (nat (int j - int t + 2 * int m))"
      if "\<not> j < t - 2 * m"
      by (rule ext_neg) (use 5 j that in \<open>simp_all add: algebra_simps\<close>)
    have "nat (int j - int t + 3 * int m) = m - (t - 2 * m) + j" if "j < t - 2 * m" using that 5 by linarith
    moreover have "nat (int j - int t + 2 * int m) = j - (t - 2 * m)" if "\<not> j < t - 2 * m" using that 5 by linarith
    ultimately show ?thesis
      using j True 5 by (simp add: twiddle_cases rot shiftx_def lo hi blk_def mult.commute mult.assoc)
  qed
qed

lemma twiddle_blk:
  assumes "t \<le> 3 * m" and "p + m \<le> to \<or> to + m \<le> p" and "j < m"
  shows "blk (twiddle p m t to s) to j = shiftx m (int t) (blk s p) j"
  using assms by (simp add: blk_def twiddle_rd)

lemma cells_eq_iff: "cells s p k = cells s' p' k \<longleftrightarrow> (\<forall>j<k. blk s p j = blk s' p' j)"
  by (auto simp: cells_def blk_def list_eq_iff_nth_eq)

lemma wpow_nat: "wpow (int d) = OMEGA ^ d"
proof -
  have "nat (int d mod 3) = d mod 3" by (simp add: nat_mod_distrib)
  then show ?thesis unfolding wpow_def using OMEGA_pow_mod [of d] by simp
qed

lemma twiddle_forward:
  assumes t: "t \<le> 3 * m" and disj: "p + m \<le> to \<or> to + m \<le> p" and i: "i < m"
  shows "rd (twiddle p m t to s) (to + (i + t) mod m) = OMEGA ^ ((i + t) div m) * rd s (p + i)"
proof -
  have m: "0 < m" using i by simp
  let ?j = "(i + t) mod m" and ?d = "(i + t) div m"
  have j: "?j < m" using m by simp
  have "int (i + t) = int ?d * int m + int ?j"
    by (simp only: of_nat_mult [symmetric] of_nat_add [symmetric] div_mult_mod_eq)
  then have e: "int ?j - int t = int i + int m * (- int ?d)" by (simp add: algebra_simps)
  have "rd (twiddle p m t to s) (to + ?j) = shiftx m (int t) (blk s p) ?j"
    using t disj j by (simp add: twiddle_rd)
  also have "\<dots> = ext 1 m (blk s p) (int i + int m * (- int ?d))"
    unfolding shiftx_def e by (rule refl)
  also have "\<dots> = wpow (- 1 * (- int ?d)) * ext 1 m (blk s p) (int i)"
    by (rule ext_period [OF m])
  also have "\<dots> = OMEGA ^ ?d * rd s (p + i)"
    using i by (simp add: wpow_nat blk_def)
  finally show ?thesis .
qed

text \<open>
  C7: \<open>twiddle\<close> realizes the action of the cyclic group generated by \<open>x\<close> modulo
  \<open>x^m - omega\<close>.  The destination holds the coefficients of \<open>x^t * src\<close> reduced modulo
  \<open>x^m - omega\<close>: since \<open>x^t * x^i = omega^((i + t) div m) * x^((i + t) mod m)\<close>, coefficient
  \<open>i\<close> of the source arrives at position \<open>(i + t) mod m\<close>, multiplied by
  \<open>omega^((i + t) div m)\<close>.  For every \<open>m\<close>, every block of \<open>m\<close> elements and exponents
  \<open>s\<close>, \<open>t\<close> in \<open>[0, 3m]\<close>, twiddling by 0 and by \<open>3m\<close> returns the block unchanged, and
  twiddling by \<open>s\<close> and then by \<open>t\<close> equals one twiddle by \<open>(s + t) mod 3m\<close>.  Source and
  destination blocks do not overlap, as the routine requires.
\<close>

theorem twiddle_group_action:
  assumes "s \<le> 3 * m" and "t \<le> 3 * m"
    and "p0 + m \<le> p1 \<or> p1 + m \<le> p0"
    and "p1 + m \<le> p2 \<or> p2 + m \<le> p1"
    and "p0 + m \<le> p2 \<or> p2 + m \<le> p0"
  shows "(\<forall>i<m. rd (twiddle p0 m t p2 \<sigma>) (p2 + (i + t) mod m)
                   = OMEGA ^ ((i + t) div m) * rd \<sigma> (p0 + i))
         \<and> cells (twiddle p0 m 0 p2 \<sigma>) p2 m = cells \<sigma> p0 m
         \<and> cells (twiddle p0 m (3 * m) p2 \<sigma>) p2 m = cells \<sigma> p0 m
         \<and> cells (twiddle p1 m t p2 (twiddle p0 m s p1 \<sigma>)) p2 m
             = cells (twiddle p0 m ((s + t) mod (3 * m)) p2 \<sigma>) p2 m"
proof (cases "m = 0")
  case True
  then show ?thesis by (simp add: cells_def)
next
  case False
  then have m: "0 < m" by simp
  have act: "rd (twiddle p0 m t p2 \<sigma>) (p2 + (i + t) mod m)
               = OMEGA ^ ((i + t) div m) * rd \<sigma> (p0 + i)" if "i < m" for i
    using assms(2,5) that by (rule twiddle_forward)
  have zero: "blk (twiddle p0 m 0 p2 \<sigma>) p2 j = blk \<sigma> p0 j" if "j < m" for j
    using that assms(5) by (simp add: twiddle_blk)
  have full: "blk (twiddle p0 m (3 * m) p2 \<sigma>) p2 j = blk \<sigma> p0 j" if "j < m" for j
  proof -
    have "shiftx m (0 + 3 * int m * 1) (blk \<sigma> p0) j = shiftx m 0 (blk \<sigma> p0) j"
      by (rule shiftx_3m [OF m])
    then show ?thesis using that assms(5) by (simp add: twiddle_blk)
  qed
  have comp: "blk (twiddle p1 m t p2 (twiddle p0 m s p1 \<sigma>)) p2 j
              = blk (twiddle p0 m ((s + t) mod (3 * m)) p2 \<sigma>) p2 j" if j: "j < m" for j
  proof -
    have "blk (twiddle p1 m t p2 (twiddle p0 m s p1 \<sigma>)) p2 j
          = shiftx m (int t) (blk (twiddle p0 m s p1 \<sigma>) p1) j"
      using assms(2,4) j by (rule twiddle_blk)
    also have "\<dots> = shiftx m (int t) (shiftx m (int s) (blk \<sigma> p0)) j"
      by (rule shiftx_cong) (use assms(1,3) m in \<open>simp_all add: twiddle_blk\<close>)
    also have "\<dots> = shiftx m (int t + int s) (blk \<sigma> p0) j"
      by (rule shiftx_shiftx [OF m])
    also have "\<dots> = shiftx m ((int t + int s) mod (3 * int m)) (blk \<sigma> p0) j"
      by (rule shiftx_mod [OF m, symmetric])
    also have "(int t + int s) mod (3 * int m) = int ((s + t) mod (3 * m))"
      by (simp add: zmod_int add.commute)
    also have "shiftx m (int ((s + t) mod (3 * m))) (blk \<sigma> p0) j
               = blk (twiddle p0 m ((s + t) mod (3 * m)) p2 \<sigma>) p2 j"
      using m assms(5) j by (simp add: twiddle_blk)
    finally show ?thesis .
  qed
  show ?thesis
    unfolding cells_eq_iff using act zero full comp by blast
qed

theorem twiddle_group_action_witness:
  "(3::nat) \<le> 3 * 2 \<and> (5::nat) \<le> 3 * 2
   \<and> rd (twiddle 0 2 5 4 \<lparr>tmp = 0, mem = (\<lambda>i. T (of_nat i) 1)\<rparr>) (4 + (1 + 5) mod 2)
       = OMEGA ^ ((1 + 5) div 2) * rd \<lparr>tmp = 0, mem = (\<lambda>i. T (of_nat i) 1)\<rparr> (0 + 1)
   \<and> rd (twiddle 0 2 5 4 \<lparr>tmp = 0, mem = (\<lambda>i. T (of_nat i) 1)\<rparr>) (4 + (0 + 5) mod 2)
       = OMEGA ^ ((0 + 5) div 2) * rd \<lparr>tmp = 0, mem = (\<lambda>i. T (of_nat i) 1)\<rparr> (0 + 0)
   \<and> cells (twiddle 0 2 0 4 \<lparr>tmp = 0, mem = (\<lambda>i. T (of_nat i) 1)\<rparr>) 4 2
       = cells \<lparr>tmp = 0, mem = (\<lambda>i. T (of_nat i) 1)\<rparr> 0 2
   \<and> cells (twiddle 2 2 5 4 (twiddle 0 2 3 2 \<lparr>tmp = 0, mem = (\<lambda>i. T (of_nat i) 1)\<rparr>)) 4 2
       = cells (twiddle 0 2 ((3 + 5) mod (3 * 2)) 4 \<lparr>tmp = 0, mem = (\<lambda>i. T (of_nat i) 1)\<rparr>) 4 2"
  using twiddle_group_action [of 3 2 5 0 2 4 "\<lparr>tmp = 0, mem = (\<lambda>i. T (of_nat i) 1)\<rparr>"]
    twiddle_group_action [of 3 2 5 0 2 4 "\<lparr>tmp = 0, mem = (\<lambda>i. T (of_nat i) 1)\<rparr>",
      THEN conjunct1, rule_format, of 0]
    twiddle_group_action [of 3 2 5 0 2 4 "\<lparr>tmp = 0, mem = (\<lambda>i. T (of_nat i) 1)\<rparr>",
      THEN conjunct1, rule_format, of 1]
  by simp
section \<open>The inputs of multiply are not modified\<close>








section \<open>Loops with independent iterations\<close>

text \<open>
  A loop \<open>for (j = a; j < b; ++j) B j\<close> in which iteration \<open>j\<close> writes only cells of
  \<open>W j\<close>, and its results on \<open>V j\<close> depend only on the cells of \<open>D j\<close>, which no earlier
  iteration writes: every cell of \<open>V j\<close> that no later iteration writes ends up as if
  iteration \<open>j\<close> had run alone on the initial state.
\<close>

lemma fold_indep:
  fixes B :: "nat \<Rightarrow> conv64 \<Rightarrow> conv64"
  assumes frame: "\<And>j s x. a \<le> j \<Longrightarrow> j < b \<Longrightarrow> tmp s = tp \<Longrightarrow> x \<notin> W j \<Longrightarrow> rd (B j s) x = rd s x"
    and tmpc: "\<And>j s. tmp (B j s) = tmp s"
    and det: "\<And>j s s' x. a \<le> j \<Longrightarrow> j < b \<Longrightarrow> tmp s = tp \<Longrightarrow> tmp s' = tp \<Longrightarrow>
                (\<forall>y\<in>D j. rd s' y = rd s y) \<Longrightarrow> x \<in> V j \<Longrightarrow> rd (B j s') x = rd (B j s) x"
    and indep: "\<And>j j'. a \<le> j' \<Longrightarrow> j' < j \<Longrightarrow> j < b \<Longrightarrow> D j \<inter> W j' = {}"
    and tp: "tmp s = tp"
  shows "a \<le> j \<Longrightarrow> j < b \<Longrightarrow> x \<in> V j \<Longrightarrow> (\<forall>j'. j < j' \<and> j' < b \<longrightarrow> x \<notin> W j')
           \<Longrightarrow> rd (fold B [a..<b] s) x = rd (B j s) x"
    and "(\<forall>j. a \<le> j \<and> j < b \<longrightarrow> x \<notin> W j) \<Longrightarrow> rd (fold B [a..<b] s) x = rd s x"
    and "tmp (fold B [a..<b] s) = tmp s"
proof -
  show t: "tmp (fold B [a..<b] s) = tmp s" for b
    by (rule tmp_fold) (rule tmpc)
  have main: "c \<le> b \<Longrightarrow>
      (\<forall>x. (\<forall>j. a \<le> j \<and> j < c \<longrightarrow> x \<notin> W j) \<longrightarrow> rd (fold B [a..<c] s) x = rd s x) \<and>
      (\<forall>j x. a \<le> j \<and> j < c \<and> x \<in> V j \<and> (\<forall>j'. j < j' \<and> j' < c \<longrightarrow> x \<notin> W j')
          \<longrightarrow> rd (fold B [a..<c] s) x = rd (B j s) x)" for c
  proof (induction c)
    case 0
    then show ?case by simp
  next
    case (Suc c)
    then have IH2: "\<And>x. (\<forall>j. a \<le> j \<and> j < c \<longrightarrow> x \<notin> W j) \<Longrightarrow> rd (fold B [a..<c] s) x = rd s x"
      and IH1: "\<And>j x. a \<le> j \<Longrightarrow> j < c \<Longrightarrow> x \<in> V j \<Longrightarrow> (\<forall>j'. j < j' \<and> j' < c \<longrightarrow> x \<notin> W j')
          \<Longrightarrow> rd (fold B [a..<c] s) x = rd (B j s) x"
      and cb: "c < b"
      by simp_all
    show ?case
    proof (cases "a \<le> c")
      case False
      then show ?thesis by auto
    next
      case True
      define sc where "sc = fold B [a..<c] s"
      have fold: "fold B [a..<Suc c] s = B c sc"
        using True by (simp add: sc_def)
      have tsc: "tmp sc = tp" unfolding sc_def using t tp by simp
      have 2: "rd (B c sc) x = rd s x" if "\<forall>j. a \<le> j \<and> j < Suc c \<longrightarrow> x \<notin> W j" for x
      proof -
        have "rd (B c sc) x = rd sc x"
          using that True cb tsc by (intro frame) auto
        also have "\<dots> = rd s x"
          unfolding sc_def using that by (intro IH2) auto
        finally show ?thesis .
      qed
      have 1: "rd (B c sc) x = rd (B j s) x"
        if "a \<le> j" "j < Suc c" "x \<in> V j" "\<forall>j'. j < j' \<and> j' < Suc c \<longrightarrow> x \<notin> W j'" for j x
      proof (cases "j = c")
        case False
        with that have jc: "j < c" by simp
        have "rd (B c sc) x = rd sc x"
          using that True cb tsc jc by (intro frame) auto
        also have "\<dots> = rd (B j s) x"
          unfolding sc_def using that jc by (intro IH1) auto
        finally show ?thesis .
      next
        case jc: True
        have "rd sc y = rd s y" if "y \<in> D c" for y
          unfolding sc_def
        proof (rule IH2, intro allI impI)
          fix j' assume "a \<le> j' \<and> j' < c"
          then have "D c \<inter> W j' = {}" using cb by (intro indep) auto
          with that show "y \<notin> W j'" by auto
        qed
        then show ?thesis
          unfolding jc using that True cb tsc tp jc by (intro det) auto
      qed
      show ?thesis
        unfolding fold using 1 2 by blast
    qed
  qed
  show "a \<le> j \<Longrightarrow> j < b \<Longrightarrow> x \<in> V j \<Longrightarrow> (\<forall>j'. j < j' \<and> j' < b \<longrightarrow> x \<notin> W j')
           \<Longrightarrow> rd (fold B [a..<b] s) x = rd (B j s) x"
    using main [of b] by blast
  show "(\<forall>j. a \<le> j \<and> j < b \<longrightarrow> x \<notin> W j) \<Longrightarrow> rd (fold B [a..<b] s) x = rd s x"
    using main [of b] by blast
qed

section \<open>One level of the forward transform\<close>

lemma butterfly_tmp [simp]: "tmp (fftdif_butterfly p m pos1 pos2 i j s) = tmp s"
  by (simp add: fftdif_butterfly_def Let_def)

lemma fftdif_inner:
  assumes tp: "tmp s = tp"
    and top: "p + pos2 + i * m + m \<le> tp"
    and p1: "m \<le> pos1" and p2: "pos1 + m \<le> pos2"
  defines "s1 \<equiv> fold (fftdif_butterfly p m pos1 pos2 i) [0..<m] s"
  shows "j < m \<Longrightarrow> rd s1 (tp + j) = rd s (p + (i * m + j)) + rd s (p + (pos1 + i * m + j)) + rd s (p + (pos2 + i * m + j))"
    and "j < m \<Longrightarrow> rd s1 (tp + (m + j)) = rd s (p + (i * m + j)) + OMEGA * rd s (p + (pos1 + i * m + j)) + OMEGA2 * rd s (p + (pos2 + i * m + j))"
    and "j < m \<Longrightarrow> rd s1 (tp + (2 * m + j)) = rd s (p + (i * m + j)) + OMEGA2 * rd s (p + (pos1 + i * m + j)) + OMEGA * rd s (p + (pos2 + i * m + j))"
    and "j < m \<Longrightarrow> rd s1 (p + (i * m + j)) = rd s (p + (i * m + j)) + rd s (p + (pos1 + i * m + j)) + rd s (p + (pos2 + i * m + j))"
    and "x < tp \<Longrightarrow> \<not> (p + i * m \<le> x \<and> x < p + i * m + m) \<Longrightarrow> rd s1 x = rd s x"
    and "tmp s1 = tmp s"
proof -
  define W where "W j = {tp + j, tp + (m + j), tp + (2 * m + j), p + (i * m + j)}" for j
  define D where "D j = {p + (i * m + j), p + (pos1 + i * m + j), p + (pos2 + i * m + j)}" for j
  note defs = fftdif_butterfly_def Let_def W_def D_def
  have frame: "rd (fftdif_butterfly p m pos1 pos2 i j s) x = rd s x"
    if "tmp s = tp" "x \<notin> W j" for j s x
    using that by (simp add: defs)
  have det: "rd (fftdif_butterfly p m pos1 pos2 i j s') x = rd (fftdif_butterfly p m pos1 pos2 i j s) x"
    if "j < m" "tmp s = tp" "tmp s' = tp" "\<forall>y\<in>D j. rd s' y = rd s y" "x \<in> W j" for j s s' x
    using that top by (auto simp add: defs)
  have indep: "D j \<inter> W j' = {}" if "j' < j" "j < m" for j j'
    using that top p1 p2 by (auto simp add: defs)
  note L = fold_indep [of 0 m tp W "fftdif_butterfly p m pos1 pos2 i" D W s, folded s1_def,
      OF frame butterfly_tmp det indep tp]
  have one: "rd s1 x = rd (fftdif_butterfly p m pos1 pos2 i j s) x" if "j < m" "x \<in> W j"
      "\<forall>j'. j < j' \<and> j' < m \<longrightarrow> x \<notin> W j'" for j x
    using that by (intro L(1)) auto
  have later: "\<forall>j'. j < j' \<and> j' < m \<longrightarrow> x \<notin> W j'" if "j < m" "x \<in> W j" for j x
    using that top by (auto simp add: W_def)
  show "rd s1 (tp + j) = rd s (p + (i * m + j)) + rd s (p + (pos1 + i * m + j)) + rd s (p + (pos2 + i * m + j))" if "j < m"
    by (subst one [OF that _ later [OF that]]) (use that tp top p1 p2 in \<open>simp_all add: defs\<close>)
  show "rd s1 (tp + (m + j)) = rd s (p + (i * m + j)) + OMEGA * rd s (p + (pos1 + i * m + j)) + OMEGA2 * rd s (p + (pos2 + i * m + j))" if "j < m"
    by (subst one [OF that _ later [OF that]]) (use that tp top p1 p2 in \<open>simp_all add: defs\<close>)
  show "rd s1 (tp + (2 * m + j)) = rd s (p + (i * m + j)) + OMEGA2 * rd s (p + (pos1 + i * m + j)) + OMEGA * rd s (p + (pos2 + i * m + j))" if "j < m"
    by (subst one [OF that _ later [OF that]]) (use that tp top p1 p2 in \<open>simp_all add: defs\<close>)
  show "rd s1 (p + (i * m + j)) = rd s (p + (i * m + j)) + rd s (p + (pos1 + i * m + j)) + rd s (p + (pos2 + i * m + j))" if "j < m"
    by (subst one [OF that _ later [OF that]]) (use that tp top p1 p2 in \<open>simp_all add: defs\<close>)
  show "rd s1 x = rd s x" if "x < tp" "\<not> (p + i * m \<le> x \<and> x < p + i * m + m)"
    by (rule L(2)) (use that in \<open>auto simp add: W_def\<close>)
  show "tmp s1 = tmp s" by (rule L(3))
qed

lemma blk_bound: "i < rr \<Longrightarrow> i * m + m \<le> m * rr" for i rr m :: nat
  using mult_le_mono1 [of "Suc i" rr m] by (simp add: mult.commute)

lemma blk_order: "i < i' \<Longrightarrow> i * m + m \<le> i' * m" for i i' m :: nat
  using mult_le_mono1 [of "Suc i" i' m] by simp

lemma twiddle_exp_bound:
  fixes i rr m :: nat
  assumes "i < rr"
  shows "3 * i * m div (3 * rr) \<le> 3 * m" "6 * i * m div (3 * rr) \<le> 3 * m"
proof -
  have b: "6 * i * m div (3 * rr) = 2 * i * m div rr"
    using div_mult_mult1 [of 3 "2 * i * m" rr] by (simp add: mult.assoc)
  have "2 * i * m div rr < 2 * m + 1"
  proof -
    have "2 * i * m < (2 * m + 1) * rr"
      using assms mult_le_mono1 [of "Suc i" rr "2 * m"] by (simp add: algebra_simps)
    then show ?thesis using assms
      by (simp add: div_less_iff_less_mult)
  qed
  then show "6 * i * m div (3 * rr) \<le> 3 * m" using b by simp
  have "3 * i * m div (3 * rr) = i * m div rr"
    using div_mult_mult1 [of 3 "i * m" rr] by (simp add: mult.assoc)
  moreover have "i * m div rr < m + 1"
  proof -
    have "i * m < (m + 1) * rr"
      using assms mult_le_mono1 [of "Suc i" rr "m"] by (simp add: algebra_simps)
    then show ?thesis using assms
      by (simp add: div_less_iff_less_mult)
  qed
  ultimately show "3 * i * m div (3 * rr) \<le> 3 * m" by simp
qed

lemma fftdif_body_tmp [simp]: "tmp (fftdif_body p m r pos1 pos2 i s) = tmp s"
  by (simp add: fftdif_body_def Let_def tmp_fold)

lemma fftdif_body_rd:
  assumes tp: "tmp s = tp" and i: "i < rr" and r: "r = 3 * rr"
    and top: "p + 3 * M \<le> tp" and M: "M = m * rr"
  defines "s' \<equiv> fftdif_body p m r M (2 * M) i s"
  defines "f0 \<equiv> blk s (p + i * m)" and "f1 \<equiv> blk s (p + (M + i * m))"
    and "f2 \<equiv> blk s (p + (2 * M + i * m))"
  shows "j < m \<Longrightarrow> rd s' (p + (i * m + j)) = bfly 1 1 f0 f1 f2 j"
    and "j < m \<Longrightarrow> rd s' (p + (M + i * m + j)) = shiftx m (int (3 * i * m div r)) (bfly OMEGA OMEGA2 f0 f1 f2) j"
    and "j < m \<Longrightarrow> rd s' (p + (2 * M + i * m + j))
          = shiftx m (int (6 * i * m div r)) (bfly OMEGA2 OMEGA f0 f1 f2) j"
    and "x < tp \<Longrightarrow> \<not> (p + i * m \<le> x \<and> x < p + i * m + m)
          \<Longrightarrow> \<not> (p + (M + i * m) \<le> x \<and> x < p + (M + i * m) + m)
          \<Longrightarrow> \<not> (p + (2 * M + i * m) \<le> x \<and> x < p + (2 * M + i * m) + m) \<Longrightarrow> rd s' x = rd s x"
proof -
  have bnd: "i * m + m \<le> M" unfolding M using i by (rule blk_bound)
  define s1 where "s1 = fold (fftdif_butterfly p m M (2 * M) i) [0..<m] s"
  define s2 where "s2 = twiddle (tp + m) m (3 * i * m div r) (p + (M + i * m)) s1"
  have top': "p + 2 * M + i * m + m \<le> tp" using top bnd by simp
  have mM: "m \<le> M" using bnd by simp
  have MM: "M + m \<le> 2 * M" using bnd by simp
  note I = fftdif_inner [OF tp top' mM MM, folded s1_def]
  have t1: "tmp s1 = tp" using I(6) tp by simp
  have t2: "tmp s2 = tp" using t1 by (simp add: s2_def)
  have s': "s' = twiddle (tp + 2 * m) m (6 * i * m div r) (p + (2 * M + i * m)) s2"
    by (simp add: s'_def fftdif_body_def Let_def s1_def [symmetric] t1 s2_def [symmetric] t2)
  have e1: "3 * i * m div r \<le> 3 * m"
    unfolding r by (rule twiddle_exp_bound(1) [OF i])
  have e2: "6 * i * m div r \<le> 3 * m"
    unfolding r by (rule twiddle_exp_bound(2) [OF i])
  have rd2: "rd s2 x = (if p + (M + i * m) \<le> x \<and> x < p + (M + i * m) + m
      then shiftx m (int (3 * i * m div r)) (blk s1 (tp + m)) (x - (p + (M + i * m))) else rd s1 x)" for x
    unfolding s2_def by (rule twiddle_rd [OF e1]) (use top' in simp)
  have rd3: "rd s' x = (if p + (2 * M + i * m) \<le> x \<and> x < p + (2 * M + i * m) + m
      then shiftx m (int (6 * i * m div r)) (blk s2 (tp + 2 * m)) (x - (p + (2 * M + i * m))) else rd s2 x)" for x
    unfolding s' by (rule twiddle_rd [OF e2]) (use top' in simp)
  have B: "blk s1 (tp + m) j = bfly OMEGA OMEGA2 f0 f1 f2 j" if "j < m" for j
    using I(2) [OF that] by (simp add: blk_def bfly_def f0_def f1_def f2_def add.assoc)
  have C: "blk s2 (tp + 2 * m) j = bfly OMEGA2 OMEGA f0 f1 f2 j" if "j < m" for j
    using I(3) [OF that] top' that
    by (simp add: blk_def rd2 bfly_def f0_def f1_def f2_def add.assoc)
  show "rd s' (p + (i * m + j)) = bfly 1 1 f0 f1 f2 j" if "j < m"
    using I(4) [OF that] that bnd by (simp add: rd3 rd2 bfly_def blk_def f0_def f1_def f2_def add.assoc)
  show "rd s' (p + (M + i * m + j)) = shiftx m (int (3 * i * m div r)) (bfly OMEGA OMEGA2 f0 f1 f2) j"
    if "j < m"
  proof -
    have "rd s' (p + (M + i * m + j)) = shiftx m (int (3 * i * m div r)) (blk s1 (tp + m)) j"
      using that bnd by (simp add: rd3 rd2)
    also have "\<dots> = shiftx m (int (3 * i * m div r)) (bfly OMEGA OMEGA2 f0 f1 f2) j"
      by (rule shiftx_cong) (use that B in auto)
    finally show ?thesis .
  qed
  show "rd s' (p + (2 * M + i * m + j)) = shiftx m (int (6 * i * m div r)) (bfly OMEGA2 OMEGA f0 f1 f2) j"
    if "j < m"
  proof -
    have "rd s' (p + (2 * M + i * m + j)) = shiftx m (int (6 * i * m div r)) (blk s2 (tp + 2 * m)) j"
      using that by (simp add: rd3)
    also have "\<dots> = shiftx m (int (6 * i * m div r)) (bfly OMEGA2 OMEGA f0 f1 f2) j"
      by (rule shiftx_cong) (use that C in auto)
    finally show ?thesis .
  qed
  show "rd s' x = rd s x" if "x < tp" "\<not> (p + i * m \<le> x \<and> x < p + i * m + m)"
    "\<not> (p + (M + i * m) \<le> x \<and> x < p + (M + i * m) + m)"
    "\<not> (p + (2 * M + i * m) \<le> x \<and> x < p + (2 * M + i * m) + m)"
    using that I(5) [of x] by (auto simp add: rd3 rd2)
qed


lemma fftdif_stage_fold:
  "fftdif_stage p m r s = fold (fftdif_body p m r (m * (r div 3)) (2 * m * (r div 3))) [0..<r div 3] s"
  unfolding fftdif_stage_def fftdif_body_def Let_def by (rule refl)

lemma interval_nat: "a \<le> x \<Longrightarrow> x < a + m \<Longrightarrow> \<exists>j<m. x = a + j" for a x m :: nat
  by (metis le_Suc_ex nat_add_left_cancel_less)

lemma fftdif_stage_rd:
  assumes tp: "tmp s = tp" and r: "r = 3 * rr" and top: "p + 3 * M \<le> tp" and M: "M = m * rr"
  defines "s' \<equiv> fftdif_stage p m r s"
  shows "i < rr \<Longrightarrow> j < m \<Longrightarrow> rd s' (p + (i * m + j))
          = bfly 1 1 (blk s (p + i * m)) (blk s (p + (M + i * m))) (blk s (p + (2 * M + i * m))) j"
    and "i < rr \<Longrightarrow> j < m \<Longrightarrow> rd s' (p + (M + i * m + j))
          = shiftx m (int (3 * i * m div r))
              (bfly OMEGA OMEGA2 (blk s (p + i * m)) (blk s (p + (M + i * m))) (blk s (p + (2 * M + i * m)))) j"
    and "i < rr \<Longrightarrow> j < m \<Longrightarrow> rd s' (p + (2 * M + i * m + j))
          = shiftx m (int (6 * i * m div r))
              (bfly OMEGA2 OMEGA (blk s (p + i * m)) (blk s (p + (M + i * m))) (blk s (p + (2 * M + i * m)))) j"
    and "x < tp \<Longrightarrow> x < p \<or> p + 3 * M \<le> x \<Longrightarrow> rd s' x = rd s x"
    and "tmp s' = tmp s"
proof -
  let ?B = "fftdif_body p m r M (2 * M)"
  define b where "b c i = {p + (c * M + i * m) ..< p + (c * M + i * m) + m}" for c i
  define V where "V i = b 0 i \<union> b 1 i \<union> b 2 i" for i
  define W where "W i = {x. tp \<le> x} \<union> V i" for i
  have r3: "r div 3 = rr" using r by simp
  have s': "s' = fold ?B [0..<rr] s"
    unfolding s'_def fftdif_stage_fold M r3 by (simp only: mult.assoc)
  have bnd: "i * m + m \<le> M" if "i < rr" for i
    unfolding M using that by (rule blk_bound)
  note R = fftdif_body_rd [OF _ _ r top M]
  have bI: "x \<in> b c i" if "j < m" "x = p + (c * M + i * m + j)" for c i j x
    using that by (simp add: b_def)
  have bE: "\<exists>j<m. x = p + (c * M + i * m + j)" if "x \<in> b c i" for c i x
    using interval_nat [of "p + (c * M + i * m)" x m] that by (simp add: b_def add.assoc)
  have frame: "rd (?B i s) x = rd s x" if "0 \<le> i" "i < rr" "tmp s = tp" "x \<notin> W i" for i s x
  proof (rule R(4) [OF that(3) that(2)])
    show "x < tp" using that(4) by (simp add: W_def)
    show "\<not> (p + i * m \<le> x \<and> x < p + i * m + m)"
      using that(4) by (simp add: W_def V_def b_def)
    show "\<not> (p + (M + i * m) \<le> x \<and> x < p + (M + i * m) + m)"
      using that(4) by (simp add: W_def V_def b_def)
    show "\<not> (p + (2 * M + i * m) \<le> x \<and> x < p + (2 * M + i * m) + m)"
      using that(4) by (simp add: W_def V_def b_def)
  qed
  have det: "rd (?B i s2) x = rd (?B i s1) x"
    if "0 \<le> i" and i: "i < rr" and t: "tmp s1 = tp" "tmp s2 = tp"
      and ag: "\<forall>y\<in>V i. rd s2 y = rd s1 y" and x: "x \<in> V i"
    for i s1 s2 x
  proof -
    have e: "blk s2 (p + (c * M + i * m)) j = blk s1 (p + (c * M + i * m)) j"
      if "j < m" "c = 0 \<or> c = 1 \<or> c = 2" for j c
    proof -
      have "p + (c * M + i * m + j) \<in> V i"
        using that bI [OF that(1) refl, of c i] by (auto simp: V_def)
      then show ?thesis using ag by (simp add: blk_def add.assoc)
    qed
    have bf: "bfly c1 c2 (blk s2 (p + i * m)) (blk s2 (p + (M + i * m))) (blk s2 (p + (2 * M + i * m))) j
            = bfly c1 c2 (blk s1 (p + i * m)) (blk s1 (p + (M + i * m))) (blk s1 (p + (2 * M + i * m))) j"
      if "j < m" for j c1 c2
      using e [OF that, of 0] e [OF that, of 1] e [OF that, of 2] by (simp add: bfly_def)
    from x have "x \<in> b 0 i \<or> x \<in> b 1 i \<or> x \<in> b 2 i" by (simp add: V_def)
    then consider (0) "x \<in> b 0 i" | (1) "x \<in> b 1 i" | (2) "x \<in> b 2 i" by blast
    then show ?thesis
    proof cases
      case 0
      then obtain j where j: "j < m" "x = p + (i * m + j)" using bE [of x 0 i] by auto
      show ?thesis unfolding j(2) R(1) [OF t(1) i j(1)] R(1) [OF t(2) i j(1)] by (rule bf [OF j(1)])
    next
      case 1
      then obtain j where j: "j < m" "x = p + (M + i * m + j)" using bE [of x 1 i] by auto
      have m: "0 < m" using j by simp
      show ?thesis unfolding j(2) R(2) [OF t(1) i j(1)] R(2) [OF t(2) i j(1)]
        by (rule shiftx_cong [OF bf m])
    next
      case 2
      then obtain j where j: "j < m" "x = p + (2 * M + i * m + j)" using bE [of x 2 i] by auto
      have m: "0 < m" using j by simp
      show ?thesis unfolding j(2) R(3) [OF t(1) i j(1)] R(3) [OF t(2) i j(1)]
        by (rule shiftx_cong [OF bf m])
    qed
  qed
  have disj: "V i \<inter> W i' = {}" if "i' < rr" "i < rr" "i \<noteq> i'" for i i'
  proof -
    have "i * m + m \<le> i' * m \<or> i' * m + m \<le> i * m"
      using that(3) blk_order [of i i' m] blk_order [of i' i m] by (cases "i < i'") auto
    then have "x \<notin> W i'" if "x \<in> V i" for x
      using that bnd [OF \<open>i' < rr\<close>] bnd [OF \<open>i < rr\<close>] top
      unfolding W_def V_def b_def by simp arith
    then show ?thesis by auto
  qed
  have indep: "V i \<inter> W i' = {}" if "0 \<le> i'" "i' < i" "i < rr" for i i'
    using disj [of i' i] that by simp
  note L = fold_indep [where a = 0 and b = rr and tp = tp and W = W and B = "?B" and D = V and V = V
      and s = s, OF frame fftdif_body_tmp det indep tp, folded s']
  have L1: "rd s' x = rd (?B i s) x" if "i < rr" "x \<in> V i" for i x
  proof (rule L(1))
    show "\<forall>j'. i < j' \<and> j' < rr \<longrightarrow> x \<notin> W j'"
    proof (intro allI impI)
      fix j' assume "i < j' \<and> j' < rr"
      then have "V i \<inter> W j' = {}" using that(1) by (intro disj) auto
      then show "x \<notin> W j'" using that(2) by auto
    qed
  qed (use that in simp_all)
  have L2: "rd s' x = rd s x" if "\<forall>i. i < rr \<longrightarrow> x \<notin> W i" for x
    by (rule L(2)) (use that in auto)
  show "tmp s' = tmp s"
    unfolding s' by (rule tmp_fold) (rule fftdif_body_tmp)
  show "rd s' (p + (i * m + j))
          = bfly 1 1 (blk s (p + i * m)) (blk s (p + (M + i * m))) (blk s (p + (2 * M + i * m))) j"
    if "i < rr" "j < m"
  proof -
    have "p + (i * m + j) \<in> V i" using bI [OF that(2) refl, of 0 i] by (simp add: V_def)
    then show ?thesis by (simp only: L1 [OF that(1)] R(1) [OF tp that])
  qed
  show "rd s' (p + (M + i * m + j))
          = shiftx m (int (3 * i * m div r))
              (bfly OMEGA OMEGA2 (blk s (p + i * m)) (blk s (p + (M + i * m))) (blk s (p + (2 * M + i * m)))) j"
    if "i < rr" "j < m"
  proof -
    have "p + (M + i * m + j) \<in> V i" using bI [OF that(2) refl, of 1 i] by (simp add: V_def)
    then show ?thesis by (simp only: L1 [OF that(1)] R(2) [OF tp that])
  qed
  show "rd s' (p + (2 * M + i * m + j))
          = shiftx m (int (6 * i * m div r))
              (bfly OMEGA2 OMEGA (blk s (p + i * m)) (blk s (p + (M + i * m))) (blk s (p + (2 * M + i * m)))) j"
    if "i < rr" "j < m"
  proof -
    have "p + (2 * M + i * m + j) \<in> V i" using bI [OF that(2) refl, of 2 i] by (simp add: V_def)
    then show ?thesis by (simp only: L1 [OF that(1)] R(3) [OF tp that])
  qed
  show "rd s' x = rd s x" if "x < tp" "x < p \<or> p + 3 * M \<le> x"
  proof (rule L2, intro allI impI)
    fix i assume "i < rr"
    then show "x \<notin> W i" using that bnd [of i] by (auto simp: W_def V_def b_def)
  qed
qed

section \<open>One level of the inverse transform\<close>

lemma dit_butterfly_tmp [simp]: "tmp (fftdit_butterfly p m pos1 pos2 i j s) = tmp s"
  by (simp add: fftdit_butterfly_def Let_def)

lemma fftdit_inner:
  assumes tp: "tmp s = tp"
    and top: "p + pos2 + i * m + m \<le> tp"
    and p1: "m \<le> pos1" and p2: "pos1 + m \<le> pos2"
  defines "s1 \<equiv> fold (fftdit_butterfly p m pos1 pos2 i) [0..<m] s"
  shows "j < m \<Longrightarrow> rd s1 (p + (i * m + j)) = rd s (p + (i * m + j)) + rd s (tp + (m + j)) + rd s (tp + (2 * m + j))"
    and "j < m \<Longrightarrow> rd s1 (p + (i * m + pos1 + j)) = rd s (p + (i * m + j)) + OMEGA2 * rd s (tp + (m + j)) + OMEGA * rd s (tp + (2 * m + j))"
    and "j < m \<Longrightarrow> rd s1 (p + (i * m + pos2 + j)) = rd s (p + (i * m + j)) + OMEGA * rd s (tp + (m + j)) + OMEGA2 * rd s (tp + (2 * m + j))"
    and "x < tp \<Longrightarrow> \<not> (p + i * m \<le> x \<and> x < p + i * m + m)
          \<Longrightarrow> \<not> (p + (i * m + pos1) \<le> x \<and> x < p + (i * m + pos1) + m)
          \<Longrightarrow> \<not> (p + (i * m + pos2) \<le> x \<and> x < p + (i * m + pos2) + m) \<Longrightarrow> rd s1 x = rd s x"
    and "tmp s1 = tmp s"
proof -
  define W where "W j = {tp + j, p + (i * m + j), p + (i * m + pos1 + j), p + (i * m + pos2 + j)}" for j
  define D where "D j = {tp + (m + j), tp + (2 * m + j), p + (i * m + j)}" for j
  note defs = fftdit_butterfly_def Let_def W_def D_def
  have frame: "rd (fftdit_butterfly p m pos1 pos2 i j s) x = rd s x"
    if "tmp s = tp" "x \<notin> W j" for j s x
    using that by (simp add: defs)
  have det: "rd (fftdit_butterfly p m pos1 pos2 i j s') x = rd (fftdit_butterfly p m pos1 pos2 i j s) x"
    if "j < m" "tmp s = tp" "tmp s' = tp" "\<forall>y\<in>D j. rd s' y = rd s y" "x \<in> W j" for j s s' x
    using that top p1 p2 by (auto simp add: defs)
  have indep: "D j \<inter> W j' = {}" if "j' < j" "j < m" for j j'
    using that top p1 p2 by (auto simp add: defs)
  note L = fold_indep [of 0 m tp W "fftdit_butterfly p m pos1 pos2 i" D W s, folded s1_def,
      OF frame dit_butterfly_tmp det indep tp]
  have one: "rd s1 x = rd (fftdit_butterfly p m pos1 pos2 i j s) x" if "j < m" "x \<in> W j"
      "\<forall>j'. j < j' \<and> j' < m \<longrightarrow> x \<notin> W j'" for j x
    using that by (intro L(1)) auto
  have later: "\<forall>j'. j < j' \<and> j' < m \<longrightarrow> x \<notin> W j'" if "j < m" "x \<in> W j" for j x
    using that top p1 p2 by (auto simp add: W_def)
  show "rd s1 (p + (i * m + j)) = rd s (p + (i * m + j)) + rd s (tp + (m + j)) + rd s (tp + (2 * m + j))" if "j < m"
    by (subst one [OF that _ later [OF that]]) (use that tp top p1 p2 in \<open>simp_all add: defs\<close>)
  show "rd s1 (p + (i * m + pos1 + j)) = rd s (p + (i * m + j)) + OMEGA2 * rd s (tp + (m + j)) + OMEGA * rd s (tp + (2 * m + j))" if "j < m"
    by (subst one [OF that _ later [OF that]]) (use that tp top p1 p2 in \<open>simp_all add: defs\<close>)
  show "rd s1 (p + (i * m + pos2 + j)) = rd s (p + (i * m + j)) + OMEGA * rd s (tp + (m + j)) + OMEGA2 * rd s (tp + (2 * m + j))" if "j < m"
    by (subst one [OF that _ later [OF that]]) (use that tp top p1 p2 in \<open>simp_all add: defs\<close>)
  show "rd s1 x = rd s x" if "x < tp" "\<not> (p + i * m \<le> x \<and> x < p + i * m + m)"
    "\<not> (p + (i * m + pos1) \<le> x \<and> x < p + (i * m + pos1) + m)"
    "\<not> (p + (i * m + pos2) \<le> x \<and> x < p + (i * m + pos2) + m)"
  proof -
    have "x \<notin> W j" if "j < m" for j
      using that \<open>x < tp\<close> \<open>\<not> (p + i * m \<le> x \<and> x < p + i * m + m)\<close>
        \<open>\<not> (p + (i * m + pos1) \<le> x \<and> x < p + (i * m + pos1) + m)\<close>
        \<open>\<not> (p + (i * m + pos2) \<le> x \<and> x < p + (i * m + pos2) + m)\<close>
      unfolding W_def by simp arith
    then show ?thesis by (intro L(2)) auto
  qed
  show "tmp s1 = tmp s" unfolding s1_def by (rule tmp_fold) simp
qed

lemma fftdit_body_tmp [simp]: "tmp (fftdit_body p m r pos1 pos2 i s) = tmp s"
  by (simp add: fftdit_body_def Let_def tmp_fold)

lemma fftdit_body_rd:
  assumes tp: "tmp s = tp" and i: "i < rr" and r: "r = 3 * rr"
    and top: "p + 3 * M \<le> tp" and M: "M = m * rr"
  defines "s' \<equiv> fftdit_body p m r M (2 * M) i s"
  defines "g0 \<equiv> blk s (p + i * m)"
    and "g1 \<equiv> shiftx m (int (3 * m - 3 * i * m div r)) (blk s (p + (M + i * m)))"
    and "g2 \<equiv> shiftx m (int (3 * m - 6 * i * m div r)) (blk s (p + (2 * M + i * m)))"
  shows "j < m \<Longrightarrow> rd s' (p + (i * m + j)) = bfly 1 1 g0 g1 g2 j"
    and "j < m \<Longrightarrow> rd s' (p + (M + i * m + j)) = bfly OMEGA2 OMEGA g0 g1 g2 j"
    and "j < m \<Longrightarrow> rd s' (p + (2 * M + i * m + j)) = bfly OMEGA OMEGA2 g0 g1 g2 j"
    and "x < tp \<Longrightarrow> \<not> (p + i * m \<le> x \<and> x < p + i * m + m)
          \<Longrightarrow> \<not> (p + (M + i * m) \<le> x \<and> x < p + (M + i * m) + m)
          \<Longrightarrow> \<not> (p + (2 * M + i * m) \<le> x \<and> x < p + (2 * M + i * m) + m) \<Longrightarrow> rd s' x = rd s x"
proof -
  have bnd: "i * m + m \<le> M" unfolding M using i by (rule blk_bound)
  define s1 where "s1 = twiddle (p + (M + i * m)) m (3 * m - 3 * i * m div r) (tp + m) s"
  define s2 where "s2 = twiddle (p + (2 * M + i * m)) m (3 * m - 6 * i * m div r) (tp + 2 * m) s1"
  have top': "p + 2 * M + i * m + m \<le> tp" using top bnd by simp
  have mM: "m \<le> M" using bnd by simp
  have MM: "M + m \<le> 2 * M" using bnd by simp
  have t1: "tmp s1 = tp" using tp by (simp add: s1_def)
  have t2: "tmp s2 = tp" using t1 by (simp add: s2_def)
  note I = fftdit_inner [OF t2 top' mM MM]
  have s': "s' = fold (fftdit_butterfly p m M (2 * M) i) [0..<m] s2"
    by (simp add: s'_def fftdit_body_def Let_def tp s1_def [symmetric] t1 s2_def [symmetric])
  have rd1: "rd s1 x = (if tp + m \<le> x \<and> x < tp + m + m
      then shiftx m (int (3 * m - 3 * i * m div r)) (blk s (p + (M + i * m))) (x - (tp + m)) else rd s x)" for x
    unfolding s1_def by (rule twiddle_rd) (use top' in simp_all)
  have rd2: "rd s2 x = (if tp + 2 * m \<le> x \<and> x < tp + 2 * m + m
      then shiftx m (int (3 * m - 6 * i * m div r)) (blk s1 (p + (2 * M + i * m))) (x - (tp + 2 * m)) else rd s1 x)" for x
    unfolding s2_def by (rule twiddle_rd) (use top' in simp_all)
  have c2: "shiftx m t (blk s1 (p + (2 * M + i * m))) j = shiftx m t (blk s (p + (2 * M + i * m))) j"
    if "j < m" for j t
    by (rule shiftx_cong) (use that top' in \<open>simp_all add: blk_def rd1\<close>)
  have v0: "rd s2 (p + (i * m + j)) = g0 j" if "j < m" for j
    using that top' by (simp add: rd2 rd1 g0_def blk_def add.assoc)
  have v1: "rd s2 (tp + (m + j)) = g1 j" if "j < m" for j
    using that by (simp add: rd2 rd1 g1_def)
  have v2: "rd s2 (tp + (2 * m + j)) = g2 j" if "j < m" for j
    using that by (simp add: rd2 g2_def c2)
  show "rd s' (p + (i * m + j)) = bfly 1 1 g0 g1 g2 j" if "j < m"
    unfolding s' I(1) [OF that] using that by (simp add: v0 v1 v2 bfly_def)
  show "rd s' (p + (M + i * m + j)) = bfly OMEGA2 OMEGA g0 g1 g2 j" if "j < m"
  proof -
    have a: "p + (M + i * m + j) = p + (i * m + M + j)" by simp
    show ?thesis
      unfolding a I(2) [OF that, folded s'] v0 [OF that] v1 [OF that] v2 [OF that] bfly_def
      by (rule refl)
  qed
  show "rd s' (p + (2 * M + i * m + j)) = bfly OMEGA OMEGA2 g0 g1 g2 j" if "j < m"
  proof -
    have a: "p + (2 * M + i * m + j) = p + (i * m + 2 * M + j)" by simp
    show ?thesis
      unfolding a I(3) [OF that, folded s'] v0 [OF that] v1 [OF that] v2 [OF that] bfly_def
      by (rule refl)
  qed
  show "rd s' x = rd s x" if "x < tp" "\<not> (p + i * m \<le> x \<and> x < p + i * m + m)"
    "\<not> (p + (M + i * m) \<le> x \<and> x < p + (M + i * m) + m)"
    "\<not> (p + (2 * M + i * m) \<le> x \<and> x < p + (2 * M + i * m) + m)"
    unfolding s' using that I(4) [of x] by (auto simp add: rd2 rd1 add.commute)
qed

section \<open>Loops over the blocks of several regions\<close>

text \<open>
  Iteration \<open>i\<close> writes the \<open>i\<close>-th blocks of the regions at \<open>bases\<close> (and scratch cells
  from \<open>tp\<close> on), reading only these blocks and cells of \<open>E\<close>, which the loop leaves alone.
\<close>

lemma block_loop:
  fixes B :: "nat \<Rightarrow> conv64 \<Rightarrow> conv64"
  assumes sep: "\<And>c c'. c \<in> bases \<Longrightarrow> c' \<in> bases \<Longrightarrow> c \<noteq> c' \<Longrightarrow> c + m * rr \<le> c' \<or> c' + m * rr \<le> c"
    and below: "\<And>c. c \<in> bases \<Longrightarrow> c + m * rr \<le> tp"
    and E: "\<And>x. x \<in> E \<Longrightarrow> x < tp \<and> (\<forall>c\<in>bases. \<not> (c \<le> x \<and> x < c + m * rr))"
    and tmpc: "\<And>i s. tmp (B i s) = tmp s"
    and frame: "\<And>i s x. i < rr \<Longrightarrow> tmp s = tp \<Longrightarrow> x < tp \<Longrightarrow> x \<notin> blocks bases m i
                  \<Longrightarrow> rd (B i s) x = rd s x"
    and det: "\<And>i s1 s2 x. i < rr \<Longrightarrow> tmp s1 = tp \<Longrightarrow> tmp s2 = tp \<Longrightarrow>
                (\<forall>y\<in>blocks bases m i \<union> E. rd s2 y = rd s1 y) \<Longrightarrow> x \<in> blocks bases m i
                  \<Longrightarrow> rd (B i s2) x = rd (B i s1) x"
    and tp: "tmp s = tp"
  shows "i < rr \<Longrightarrow> x \<in> blocks bases m i \<Longrightarrow> rd (fold B [0..<rr] s) x = rd (B i s) x"
    and "x < tp \<Longrightarrow> (\<forall>c\<in>bases. \<not> (c \<le> x \<and> x < c + m * rr)) \<Longrightarrow> rd (fold B [0..<rr] s) x = rd s x"
    and "tmp (fold B [0..<rr] s) = tmp s"
proof -
  define W where "W i = {x. tp \<le> x} \<union> blocks bases m i" for i
  define D where "D i = blocks bases m i \<union> E" for i
  have bnd: "i * m + m \<le> m * rr" if "i < rr" for i
    using that by (rule blk_bound)
  have inside: "x < tp \<and> (\<exists>c\<in>bases. c \<le> x \<and> x < c + m * rr)" if "x \<in> blocks bases m i" "i < rr" for x i
  proof -
    from that(1) obtain c where c: "c \<in> bases" "c + i * m \<le> x" "x < c + i * m + m"
      by (auto simp: blocks_def)
    then show ?thesis using bnd [OF that(2)] below [OF c(1)] by (intro conjI bexI [of _ c]) auto
  qed
  have bb: "x \<notin> blocks bases m i'" if "x \<in> blocks bases m i" "i < rr" "i' < rr" "i \<noteq> i'" for x i i'
  proof
    assume "x \<in> blocks bases m i'"
    then obtain c' where c': "c' \<in> bases" "c' + i' * m \<le> x" "x < c' + i' * m + m"
      by (auto simp: blocks_def)
    from that(1) obtain c where c: "c \<in> bases" "c + i * m \<le> x" "x < c + i * m + m"
      by (auto simp: blocks_def)
    have o: "i * m + m \<le> i' * m \<or> i' * m + m \<le> i * m"
      using that(4) blk_order [of i i' m] blk_order [of i' i m] by (cases "i < i'") auto
    show False
    proof (cases "c = c'")
      case True
      then show False using c c' o by auto
    next
      case False
      then show False
        using sep [OF c(1) c'(1) False] c c' bnd [OF that(2)] bnd [OF that(3)] by auto
    qed
  qed
  have fr: "rd (B i s) x = rd s x" if "0 \<le> i" "i < rr" "tmp s = tp" "x \<notin> W i" for i s x
    using that by (intro frame) (auto simp: W_def)
  have dt: "rd (B i s2) x = rd (B i s1) x"
    if "0 \<le> i" "i < rr" "tmp s1 = tp" "tmp s2 = tp" "\<forall>y\<in>D i. rd s2 y = rd s1 y" "x \<in> blocks bases m i"
    for i s1 s2 x
    using that by (intro det) (auto simp: D_def)
  have ind: "D i \<inter> W i' = {}" if "0 \<le> i'" "i' < i" "i < rr" for i i'
  proof -
    have "x \<notin> W i'" if x: "x \<in> D i" for x
    proof (cases "x \<in> E")
      case True
      then show ?thesis
        using E [OF True] inside [of x i'] \<open>i' < i\<close> \<open>i < rr\<close> by (auto simp: W_def)
    next
      case False
      then have xb: "x \<in> blocks bases m i" using x by (simp add: D_def)
      then show ?thesis
        using inside [OF xb] bb [OF xb, of i'] \<open>i' < i\<close> \<open>i < rr\<close> by (auto simp: W_def)
    qed
    then show ?thesis by auto
  qed
  note L = fold_indep [where a = 0 and b = rr and tp = tp and W = W and B = B and D = D
      and V = "blocks bases m" and s = s, OF fr tmpc dt ind tp]
  show "rd (fold B [0..<rr] s) x = rd (B i s) x" if "i < rr" "x \<in> blocks bases m i"
  proof (rule L(1))
    show "\<forall>j'. i < j' \<and> j' < rr \<longrightarrow> x \<notin> W j'"
      using inside [OF that(2,1)] bb [OF that(2,1)] by (auto simp: W_def)
  qed (use that in auto)
  show "rd (fold B [0..<rr] s) x = rd s x" if "x < tp" "\<forall>c\<in>bases. \<not> (c \<le> x \<and> x < c + m * rr)"
  proof (rule L(2))
    show "\<forall>j. 0 \<le> j \<and> j < rr \<longrightarrow> x \<notin> W j"
      using that inside [of x] by (auto simp: W_def)
  qed auto
  show "tmp (fold B [0..<rr] s) = tmp s"
    by (rule tmp_fold) (rule tmpc)
qed

lemma blocksI: "c \<in> bases \<Longrightarrow> j < m \<Longrightarrow> c + i * m + j \<in> blocks bases m i"
  unfolding blocks_def by (auto intro!: bexI [of _ c])

lemma blocksE:
  assumes "x \<in> blocks bases m i"
  obtains c j where "c \<in> bases" "j < m" "x = c + i * m + j"
proof -
  from assms obtain c where c: "c \<in> bases" "c + i * m \<le> x" "x < c + i * m + m"
    by (auto simp: blocks_def)
  then obtain j where "j < m" "x = c + i * m + j"
    using interval_nat [of "c + i * m" x m] by auto
  with c(1) show ?thesis by (rule that)
qed

lemma fftdit_stage_fold:
  "fftdit_stage p m r s = fold (fftdit_body p m r (m * (r div 3)) (2 * m * (r div 3))) [0..<r div 3] s"
  unfolding fftdit_stage_def fftdit_body_def Let_def by (rule refl)

lemma fftdit_stage_rd:
  assumes tp: "tmp s = tp" and r: "r = 3 * rr" and top: "p + 3 * M \<le> tp" and M: "M = m * rr"
  defines "s' \<equiv> fftdit_stage p m r s"
  defines "g1 \<equiv> \<lambda>i. shiftx m (int (3 * m - 3 * i * m div r)) (blk s (p + (M + i * m)))"
    and "g2 \<equiv> \<lambda>i. shiftx m (int (3 * m - 6 * i * m div r)) (blk s (p + (2 * M + i * m)))"
  shows "i < rr \<Longrightarrow> j < m \<Longrightarrow> rd s' (p + (i * m + j)) = bfly 1 1 (blk s (p + i * m)) (g1 i) (g2 i) j"
    and "i < rr \<Longrightarrow> j < m \<Longrightarrow> rd s' (p + (M + i * m + j)) = bfly OMEGA2 OMEGA (blk s (p + i * m)) (g1 i) (g2 i) j"
    and "i < rr \<Longrightarrow> j < m \<Longrightarrow> rd s' (p + (2 * M + i * m + j)) = bfly OMEGA OMEGA2 (blk s (p + i * m)) (g1 i) (g2 i) j"
    and "x < tp \<Longrightarrow> x < p \<or> p + 3 * M \<le> x \<Longrightarrow> rd s' x = rd s x"
    and "tmp s' = tmp s"
proof -
  let ?B = "fftdit_body p m r M (2 * M)"
  let ?bases = "{p, p + M, p + 2 * M}"
  have r3: "r div 3 = rr" using r by simp
  have s': "s' = fold ?B [0..<rr] s"
    unfolding s'_def fftdit_stage_fold M r3 by (simp only: mult.assoc)
  note R = fftdit_body_rd [OF _ _ r top M]
  have frame: "rd (?B i s) x = rd s x" if "i < rr" "tmp s = tp" "x < tp" "x \<notin> blocks ?bases m i" for i s x
    using that(4) by (intro R(4) [OF that(2) that(1) that(3)]) (auto simp: blocks_def)
  have det: "rd (?B i s2) x = rd (?B i s1) x"
    if i: "i < rr" and t: "tmp s1 = tp" "tmp s2 = tp"
      and ag: "\<forall>y\<in>blocks ?bases m i \<union> {}. rd s2 y = rd s1 y" and x: "x \<in> blocks ?bases m i"
    for i s1 s2 x
  proof -
    have e: "blk s2 (c + i * m) j = blk s1 (c + i * m) j" if "j < m" "c \<in> ?bases" for j c
      using ag blocksI [OF that(2,1), of i] by (simp add: blk_def)
    have e0: "blk s2 (p + i * m) j = blk s1 (p + i * m) j" if "j < m" for j
      using e [OF that, of p] by simp
    have e1: "blk s2 (p + (M + i * m)) j = blk s1 (p + (M + i * m)) j" if "j < m" for j
      using e [OF that, of "p + M"] by (simp add: add.assoc)
    have e2: "blk s2 (p + (2 * M + i * m)) j = blk s1 (p + (2 * M + i * m)) j" if "j < m" for j
      using e [OF that, of "p + 2 * M"] by (simp add: add.assoc)
    have bf: "bfly c1 c2 (blk s2 (p + i * m))
                (shiftx m t1 (blk s2 (p + (M + i * m)))) (shiftx m t2 (blk s2 (p + (2 * M + i * m)))) j
            = bfly c1 c2 (blk s1 (p + i * m))
                (shiftx m t1 (blk s1 (p + (M + i * m)))) (shiftx m t2 (blk s1 (p + (2 * M + i * m)))) j"
      if "j < m" for j c1 c2 t1 t2
    proof -
      have m: "0 < m" using that by simp
      have c1: "shiftx m t1 (blk s2 (p + (M + i * m))) j = shiftx m t1 (blk s1 (p + (M + i * m))) j"
        by (rule shiftx_cong) (use e1 m in auto)
      have c2: "shiftx m t2 (blk s2 (p + (2 * M + i * m))) j = shiftx m t2 (blk s1 (p + (2 * M + i * m))) j"
        by (rule shiftx_cong) (use e2 m in auto)
      show ?thesis
        unfolding bfly_def e0 [OF that] c1 c2 by (rule refl)
    qed
    from x obtain c j where c: "c \<in> ?bases" "j < m" "x = c + i * m + j" by (rule blocksE)
    from c(1) consider "c = p" | "c = p + M" | "c = p + 2 * M" by auto
    then show ?thesis
    proof cases
      case 1
      then have x: "x = p + (i * m + j)" using c by simp
      show ?thesis unfolding x R(1) [OF t(1) i c(2)] R(1) [OF t(2) i c(2)] by (rule bf [OF c(2)])
    next
      case 2
      then have x: "x = p + (M + i * m + j)" using c by simp
      show ?thesis unfolding x R(2) [OF t(1) i c(2)] R(2) [OF t(2) i c(2)] by (rule bf [OF c(2)])
    next
      case 3
      then have x: "x = p + (2 * M + i * m + j)" using c by simp
      show ?thesis unfolding x R(3) [OF t(1) i c(2)] R(3) [OF t(2) i c(2)] by (rule bf [OF c(2)])
    qed
  qed
  have sep: "c + m * rr \<le> c' \<or> c' + m * rr \<le> c" if "c \<in> ?bases" "c' \<in> ?bases" "c \<noteq> c'" for c c'
    using that unfolding M [symmetric] by auto
  have below: "c + m * rr \<le> tp" if "c \<in> ?bases" for c
    using that top unfolding M [symmetric] by auto
  note L = block_loop [where bases = "?bases" and m = m and rr = rr and tp = tp and E = "{}" and B = "?B"
      and s = s, OF sep below _ fftdit_body_tmp frame det tp, folded s']
  have L1: "rd s' (c + i * m + j) = rd (?B i s) (c + i * m + j)" if "c \<in> ?bases" "i < rr" "j < m" for c i j
    by (rule L(1)) (use that blocksI [OF that(1,3), of i] in auto)
  show "rd s' (p + (i * m + j)) = bfly 1 1 (blk s (p + i * m)) (g1 i) (g2 i) j" if "i < rr" "j < m"
    using L1 [of p, OF _ that] R(1) [OF tp that] by (simp add: add.assoc g1_def g2_def)
  show "rd s' (p + (M + i * m + j)) = bfly OMEGA2 OMEGA (blk s (p + i * m)) (g1 i) (g2 i) j" if "i < rr" "j < m"
    using L1 [of "p + M", OF _ that] R(2) [OF tp that] by (simp add: add.assoc g1_def g2_def)
  show "rd s' (p + (2 * M + i * m + j)) = bfly OMEGA OMEGA2 (blk s (p + i * m)) (g1 i) (g2 i) j" if "i < rr" "j < m"
    using L1 [of "p + 2 * M", OF _ that] R(3) [OF tp that] by (simp add: add.assoc g1_def g2_def)
  show "rd s' x = rd s x" if "x < tp" "x < p \<or> p + 3 * M \<le> x"
    by (rule L(2)) (use that in \<open>auto simp flip: M\<close>)
  show "tmp s' = tmp s"
    unfolding s' by (rule tmp_fold) (rule fftdit_body_tmp)
qed

section \<open>The transforms return and respect their frame\<close>

lemma frame_ok_refl: "frame_ok tp p n s s"
  by (simp add: frame_ok_def)

lemma frame_ok_trans:
  assumes "frame_ok tp p n s s1" and "frame_ok tp p2 n2 s1 s2" and "p \<le> p2" and "p2 + n2 \<le> p + n"
  shows "frame_ok tp p n s s2"
  unfolding frame_ok_def
proof (intro conjI allI impI)
  show "tmp s2 = tmp s" using assms(1,2) by (simp add: frame_ok_def)
  fix x assume x: "x < tp \<and> (x < p \<or> p + n \<le> x)"
  then have "x < tp \<and> (x < p2 \<or> p2 + n2 \<le> x)" using assms(3,4) by auto
  then have "rd s2 x = rd s1 x" using assms(2) by (simp add: frame_ok_def)
  also have "\<dots> = rd s x" using assms(1) x by (simp add: frame_ok_def)
  finally show "rd s2 x = rd s x" .
qed

lemma fftdif_stage_frame:
  assumes "tmp s = tp" and "r = 3 * rr" and "p + m * r \<le> tp"
  shows "frame_ok tp p (m * r) s (fftdif_stage p m r s)"
  unfolding frame_ok_def
  using fftdif_stage_rd(4,5) [OF assms(1,2) _ refl, of p m] assms(2,3) by (simp add: mult.assoc mult.left_commute)

lemma fftdit_stage_frame:
  assumes "tmp s = tp" and "r = 3 * rr" and "p + m * r \<le> tp"
  shows "frame_ok tp p (m * r) s (fftdit_stage p m r s)"
  unfolding frame_ok_def
  using fftdit_stage_rd(4,5) [OF assms(1,2) _ refl, of p m] assms(2,3) by (simp add: mult.assoc mult.left_commute)

lemma fftdif_unfold:
  "0 < rr \<Longrightarrow> fftdif p m (3 * rr) s =
      Option.bind (fftdif p m rr (fftdif_stage p m (3 * rr) s)) (\<lambda>s.
      Option.bind (fftdif (p + m * rr) m rr s) (\<lambda>s. fftdif (p + 2 * m * rr) m rr s))"
  by (subst fftdif.simps) (simp add: Let_def)

lemma fftdit_unfold:
  "0 < rr \<Longrightarrow> fftdit p m (3 * rr) s =
      Option.bind (fftdit p m rr s) (\<lambda>s.
      Option.bind (fftdit (p + m * rr) m rr s) (\<lambda>s.
      Option.bind (fftdit (p + 2 * m * rr) m rr s) (\<lambda>s. Some (fftdit_stage p m (3 * rr) s))))"
  by (subst fftdit.simps) (simp add: Let_def)

lemma fftdif_frame:
  assumes "tmp s = tp" and "p + m * 3 ^ e \<le> tp"
  shows "\<exists>s'. fftdif p m (3 ^ e) s = Some s' \<and> frame_ok tp p (m * 3 ^ e) s s'"
  using assms
proof (induction e arbitrary: p s)
  case 0
  show ?case by (simp add: fftdif.simps frame_ok_refl)
next
  case (Suc e)
  let ?rr = "3 ^ e :: nat" and ?M = "m * 3 ^ e"
  define s0 where "s0 = fftdif_stage p m (3 * ?rr) s"
  have top: "p + m * (3 * ?rr) \<le> tp" using Suc.prems(2) by simp
  have f0: "frame_ok tp p (m * (3 * ?rr)) s s0"
    unfolding s0_def by (rule fftdif_stage_frame [OF Suc.prems(1) refl top])
  then have t0: "tmp s0 = tp" using Suc.prems(1) by (simp add: frame_ok_def)
  obtain s1 where s1: "fftdif p m ?rr s0 = Some s1" "frame_ok tp p ?M s0 s1"
    using Suc.IH [OF t0, of p] top by auto
  then have t1: "tmp s1 = tp" using t0 by (simp add: frame_ok_def)
  obtain s2 where s2: "fftdif (p + ?M) m ?rr s1 = Some s2" "frame_ok tp (p + ?M) ?M s1 s2"
    using Suc.IH [OF t1, of "p + ?M"] top by auto
  then have t2: "tmp s2 = tp" using t1 by (simp add: frame_ok_def)
  obtain s3 where s3: "fftdif (p + 2 * ?M) m ?rr s2 = Some s3" "frame_ok tp (p + 2 * ?M) ?M s2 s3"
    using Suc.IH [OF t2, of "p + 2 * ?M"] top by auto
  have "fftdif p m (3 ^ Suc e) s = Some s3"
    using s1(1) s2(1) s3(1) by (simp add: fftdif_unfold s0_def [symmetric] mult.assoc)
  moreover have "frame_ok tp p (m * 3 ^ Suc e) s s3"
  proof -
    have "frame_ok tp p (m * (3 * ?rr)) s s1"
      by (rule frame_ok_trans [OF f0 s1(2)]) simp_all
    then have "frame_ok tp p (m * (3 * ?rr)) s s2"
      by (rule frame_ok_trans [OF _ s2(2)]) simp_all
    then have "frame_ok tp p (m * (3 * ?rr)) s s3"
      by (rule frame_ok_trans [OF _ s3(2)]) simp_all
    then show ?thesis by simp
  qed
  ultimately show ?case by blast
qed

lemma fftdit_frame:
  assumes "tmp s = tp" and "p + m * 3 ^ e \<le> tp"
  shows "\<exists>s'. fftdit p m (3 ^ e) s = Some s' \<and> frame_ok tp p (m * 3 ^ e) s s'"
  using assms
proof (induction e arbitrary: p s)
  case 0
  show ?case by (simp add: fftdit.simps frame_ok_refl)
next
  case (Suc e)
  let ?rr = "3 ^ e :: nat" and ?M = "m * 3 ^ e"
  have top: "p + m * (3 * ?rr) \<le> tp" using Suc.prems(2) by simp
  note t0 = Suc.prems(1)
  obtain s1 where s1: "fftdit p m ?rr s = Some s1" "frame_ok tp p ?M s s1"
    using Suc.IH [OF t0, of p] top by auto
  then have t1: "tmp s1 = tp" using t0 by (simp add: frame_ok_def)
  obtain s2 where s2: "fftdit (p + ?M) m ?rr s1 = Some s2" "frame_ok tp (p + ?M) ?M s1 s2"
    using Suc.IH [OF t1, of "p + ?M"] top by auto
  then have t2: "tmp s2 = tp" using t1 by (simp add: frame_ok_def)
  obtain s3 where s3: "fftdit (p + 2 * ?M) m ?rr s2 = Some s3" "frame_ok tp (p + 2 * ?M) ?M s2 s3"
    using Suc.IH [OF t2, of "p + 2 * ?M"] top by auto
  then have t3: "tmp s3 = tp" using t2 by (simp add: frame_ok_def)
  have f4: "frame_ok tp p (m * (3 * ?rr)) s3 (fftdit_stage p m (3 * ?rr) s3)"
    by (rule fftdit_stage_frame [OF t3 refl top])
  have "fftdit p m (3 ^ Suc e) s = Some (fftdit_stage p m (3 * ?rr) s3)"
    using s1(1) s2(1) s3(1) by (simp add: fftdit_unfold mult.assoc)
  moreover have "frame_ok tp p (m * 3 ^ Suc e) s (fftdit_stage p m (3 * ?rr) s3)"
  proof -
    have "frame_ok tp p (m * (3 * ?rr)) s s" by (rule frame_ok_refl)
    then have "frame_ok tp p (m * (3 * ?rr)) s s1"
      by (rule frame_ok_trans [OF _ s1(2)]) simp_all
    then have "frame_ok tp p (m * (3 * ?rr)) s s2"
      by (rule frame_ok_trans [OF _ s2(2)]) simp_all
    then have "frame_ok tp p (m * (3 * ?rr)) s s3"
      by (rule frame_ok_trans [OF _ s3(2)]) simp_all
    then have "frame_ok tp p (m * (3 * ?rr)) s (fftdit_stage p m (3 * ?rr) s3)"
      by (rule frame_ok_trans [OF _ f4]) simp_all
    then show ?thesis by simp
  qed
  ultimately show ?case by blast
qed

section \<open>The inverse transform undoes the forward transform\<close>

lemma bfly_inv:
  fixes a b c :: T
  shows "(a + b + c) + (a + OMEGA * b + OMEGA2 * c) + (a + OMEGA2 * b + OMEGA * c) = 3 * a"
    and "(a + b + c) + OMEGA2 * (a + OMEGA * b + OMEGA2 * c) + OMEGA * (a + OMEGA2 * b + OMEGA * c) = 3 * b"
    and "(a + b + c) + OMEGA * (a + OMEGA * b + OMEGA2 * c) + OMEGA2 * (a + OMEGA2 * b + OMEGA * c) = 3 * c"
proof -
  have 3: "(3::T) = 1 + 1 + 1" by simp
  have w: "OMEGA2 = - 1 - OMEGA" by (rule OMEGA2_eq)
  show "(a + b + c) + (a + OMEGA * b + OMEGA2 * c) + (a + OMEGA2 * b + OMEGA * c) = 3 * a"
    unfolding 3 w by (simp add: algebra_simps)
  have 1: "OMEGA2 * (a + OMEGA * b + OMEGA2 * c) = OMEGA2 * a + b + OMEGA * c"
    by (simp add: distrib_left)
  have 2: "OMEGA * (a + OMEGA2 * b + OMEGA * c) = OMEGA * a + b + OMEGA2 * c"
    by (simp add: distrib_left)
  show "(a + b + c) + OMEGA2 * (a + OMEGA * b + OMEGA2 * c) + OMEGA * (a + OMEGA2 * b + OMEGA * c) = 3 * b"
    unfolding 1 2 unfolding 3 w by (simp add: algebra_simps)
  have 4: "OMEGA * (a + OMEGA * b + OMEGA2 * c) = OMEGA * a + OMEGA2 * b + c"
    by (simp add: distrib_left)
  have 5: "OMEGA2 * (a + OMEGA2 * b + OMEGA * c) = OMEGA2 * a + OMEGA * b + c"
    by (simp add: distrib_left)
  show "(a + b + c) + OMEGA * (a + OMEGA * b + OMEGA2 * c) + OMEGA2 * (a + OMEGA2 * b + OMEGA * c) = 3 * c"
    unfolding 4 5 unfolding 3 w by (simp add: algebra_simps)
qed

lemma region_decomp:
  fixes p x m rr :: nat
  assumes "p \<le> x" and "x < p + 3 * (m * rr)"
  obtains c i j where "c < 3" "i < rr" "j < m" "x = p + (c * (m * rr) + i * m + j)"
proof -
  define y where "y = x - p"
  have y: "y < 3 * (m * rr)" "x = p + y" using assms by (simp_all add: y_def)
  then have pos: "0 < m" "0 < rr" by (auto intro: Nat.gr0I)
  define c where "c = y div (m * rr)"
  define z where "z = y mod (m * rr)"
  have c: "c < 3" unfolding c_def using y(1) pos by (simp add: div_less_iff_less_mult mult.commute)
  have z: "z < m * rr" unfolding z_def using pos by simp
  have yz: "y = c * (m * rr) + z" unfolding c_def z_def by (rule div_mult_mod_eq [symmetric])
  have i: "z div m < rr" using z pos by (simp add: div_less_iff_less_mult mult.commute)
  have j: "z mod m < m" using pos by simp
  have "x = p + (c * (m * rr) + (z div m) * m + z mod m)"
    using y(2) yz by (simp add: add.assoc)
  with c i j show ?thesis by (rule that)
qed

lemma dit_dif:
  assumes "tmp s = tp" and "p + m * 3 ^ e \<le> tp" and "fftdif p m (3 ^ e) s = Some s1"
    and "tmp s2 = tp" and "\<forall>x. p \<le> x \<and> x < p + m * 3 ^ e \<longrightarrow> rd s2 x = rd s1 x"
  shows "\<exists>s3. fftdit p m (3 ^ e) s2 = Some s3 \<and> frame_ok tp p (m * 3 ^ e) s2 s3
            \<and> (\<forall>x. p \<le> x \<and> x < p + m * 3 ^ e \<longrightarrow> rd s3 x = of_nat (3 ^ e) * rd s x)"
  using assms
proof (induction e arbitrary: p s s1 s2)
  case 0
  then show ?case by (simp add: fftdif.simps fftdit.simps frame_ok_refl)
next
  case (Suc e)
  let ?rr = "3 ^ e :: nat"
  define M where "M = m * ?rr"
  define r where "r = 3 * ?rr"
  have rpos: "0 < ?rr" by simp
  have top: "p + 3 * M \<le> tp" using Suc.prems(2) by (simp add: M_def)
  have top': "p + m * r \<le> tp" using Suc.prems(2) by (simp add: r_def)
  note tp = Suc.prems(1)
  \<comment> \<open>the forward run\<close>
  define sA where "sA = fftdif_stage p m r s"
  have fA: "frame_ok tp p (m * r) s sA"
    unfolding sA_def by (rule fftdif_stage_frame [OF tp _ top']) (simp add: r_def)
  have tA: "tmp sA = tp" using fA tp by (simp add: frame_ok_def)
  obtain sB where sB: "fftdif p m ?rr sA = Some sB" "frame_ok tp p M sA sB"
    using fftdif_frame [OF tA, of p m e] top by (auto simp: M_def)
  have tB: "tmp sB = tp" using sB(2) tA by (simp add: frame_ok_def)
  obtain sC where sC: "fftdif (p + M) m ?rr sB = Some sC" "frame_ok tp (p + M) M sB sC"
    using fftdif_frame [OF tB, of "p + M" m e] top by (auto simp: M_def)
  have tC: "tmp sC = tp" using sC(2) tB by (simp add: frame_ok_def)
  obtain sD where sD: "fftdif (p + 2 * M) m ?rr sC = Some sD" "frame_ok tp (p + 2 * M) M sC sD"
    using fftdif_frame [OF tC, of "p + 2 * M" m e] top by (auto simp: M_def)
  have "fftdif p m (3 ^ Suc e) s = Some sD"
    using sB(1) sC(1) sD(1)
    by (simp add: fftdif_unfold sA_def [symmetric, unfolded r_def] M_def mult.assoc)
  then have s1: "s1 = sD" using Suc.prems(3) by simp
  have ag: "rd s2 x = rd sD x" if "p \<le> x" "x < p + 3 * M" for x
    using Suc.prems(5) that by (simp add: M_def s1)
  \<comment> \<open>the three inverse transforms of size \<open>3^e\<close>\<close>
  have a0: "\<forall>x. p \<le> x \<and> x < p + m * ?rr \<longrightarrow> rd s2 x = rd sB x"
    using ag sC(2) sD(2) top by (simp add: frame_ok_def M_def)
  obtain u1 where u1: "fftdit p m ?rr s2 = Some u1" "frame_ok tp p M s2 u1"
      "\<forall>x. p \<le> x \<and> x < p + M \<longrightarrow> rd u1 x = of_nat ?rr * rd sA x"
    using Suc.IH [OF tA _ sB(1) Suc.prems(4) a0] top by (auto simp: M_def)
  have t1: "tmp u1 = tp" using u1(2) Suc.prems(4) by (simp add: frame_ok_def)
  have a1: "\<forall>x. p + M \<le> x \<and> x < p + M + m * ?rr \<longrightarrow> rd u1 x = rd sC x"
    using ag u1(2) sD(2) top by (simp add: frame_ok_def M_def)
  obtain u2 where u2: "fftdit (p + M) m ?rr u1 = Some u2" "frame_ok tp (p + M) M u1 u2"
      "\<forall>x. p + M \<le> x \<and> x < p + M + M \<longrightarrow> rd u2 x = of_nat ?rr * rd sB x"
    using Suc.IH [OF tB _ sC(1) t1 a1] top by (auto simp: M_def)
  have t2: "tmp u2 = tp" using u2(2) t1 by (simp add: frame_ok_def)
  have a2: "\<forall>x. p + 2 * M \<le> x \<and> x < p + 2 * M + m * ?rr \<longrightarrow> rd u2 x = rd sD x"
    using ag u1(2) u2(2) top by (simp add: frame_ok_def M_def)
  obtain u3 where u3: "fftdit (p + 2 * M) m ?rr u2 = Some u3" "frame_ok tp (p + 2 * M) M u2 u3"
      "\<forall>x. p + 2 * M \<le> x \<and> x < p + 2 * M + M \<longrightarrow> rd u3 x = of_nat ?rr * rd sC x"
    using Suc.IH [OF tC _ sD(1) t2 a2] top by (auto simp: M_def)
  have t3: "tmp u3 = tp" using u3(2) t2 by (simp add: frame_ok_def)
  have u3A: "rd u3 x = of_nat ?rr * rd sA x" if "p \<le> x" "x < p + 3 * M" for x
  proof -
    consider "x < p + M" | "p + M \<le> x" "x < p + 2 * M" | "p + 2 * M \<le> x" by linarith
    then show ?thesis
    proof cases
      case 1
      then show ?thesis using that u1(3) u2(2) u3(2) top by (simp add: frame_ok_def)
    next
      case 2
      then show ?thesis using that u2(3) u3(2) sB(2) top by (simp add: frame_ok_def)
    next
      case 3
      then show ?thesis using that u3(3) sB(2) sC(2) top by (simp add: frame_ok_def)
    qed
  qed
  define s3 where "s3 = fftdit_stage p m r u3"
  have run: "fftdit p m (3 ^ Suc e) s2 = Some s3"
    using u1(1) u2(1) u3(1)
    by (simp add: fftdit_unfold s3_def r_def M_def mult.assoc)
  have f3: "frame_ok tp p (m * r) u3 s3"
    unfolding s3_def by (rule fftdit_stage_frame [OF t3 _ top']) (simp add: r_def)
  have frame: "frame_ok tp p (m * 3 ^ Suc e) s2 s3"
  proof -
    have "frame_ok tp p (m * r) s2 s2" by (rule frame_ok_refl)
    then have "frame_ok tp p (m * r) s2 u1"
      by (rule frame_ok_trans [OF _ u1(2)]) (simp_all add: r_def M_def)
    then have "frame_ok tp p (m * r) s2 u2"
      by (rule frame_ok_trans [OF _ u2(2)]) (simp_all add: r_def M_def)
    then have "frame_ok tp p (m * r) s2 u3"
      by (rule frame_ok_trans [OF _ u3(2)]) (simp_all add: r_def M_def)
    then have "frame_ok tp p (m * r) s2 s3"
      by (rule frame_ok_trans [OF _ f3]) simp_all
    then show ?thesis by (simp add: r_def)
  qed
  \<comment> \<open>the last level\<close>
  note F = fftdif_stage_rd [OF tp _ top M_def, of r, folded sA_def, OF r_def]
  note G = fftdit_stage_rd [OF t3 _ top M_def, of r, folded s3_def, OF r_def]
  have blocks: "rd s3 (p + (c * M + i * m + j)) = of_nat (3 ^ Suc e) * rd s (p + (c * M + i * m + j))"
    if c: "c < 3" and i: "i < ?rr" and j: "j < m" for c i j
  proof -
    have m: "0 < m" using j by simp
    have bnd: "i * m + m \<le> M" unfolding M_def using i by (rule blk_bound)
    let ?P0 = "blk s (p + i * m)" and ?P1 = "blk s (p + (M + i * m))" and ?P2 = "blk s (p + (2 * M + i * m))"
    let ?t1 = "3 * i * m div r" and ?t2 = "6 * i * m div r"
    have e1: "?t1 \<le> 3 * m" unfolding r_def by (rule twiddle_exp_bound(1) [OF i])
    have e2: "?t2 \<le> 3 * m" unfolding r_def by (rule twiddle_exp_bound(2) [OF i])
    define A where "A = bfly 1 1 ?P0 ?P1 ?P2 j"
    define B where "B = bfly OMEGA OMEGA2 ?P0 ?P1 ?P2 j"
    define C where "C = bfly OMEGA2 OMEGA ?P0 ?P1 ?P2 j"
    have g0: "blk u3 (p + i * m) j = of_nat ?rr * A"
      unfolding A_def
      using u3A [of "p + (i * m + j)"] F(1) [OF i j] bnd j by (simp add: blk_def add.assoc)
    have inv: "shiftx m (int (3 * m - t)) (blk u3 (p + (c' * M + i * m))) j = of_nat ?rr * f j"
      if t: "t \<le> 3 * m" and c': "c' < 3"
        and f: "\<And>j. j < m \<Longrightarrow> rd sA (p + (c' * M + i * m + j)) = shiftx m (int t) f j" for t c' f
    proof -
      have "shiftx m (int (3 * m - t)) (blk u3 (p + (c' * M + i * m))) j
            = shiftx m (int (3 * m - t)) (\<lambda>j. of_nat ?rr * shiftx m (int t) f j) j"
      proof (rule shiftx_cong [OF _ m])
        fix j' assume j': "j' < m"
        have "c' * M + i * m + j' < 3 * M"
        proof -
          have "c' * M \<le> 2 * M" using c' by simp
          then show ?thesis using bnd j' by linarith
        qed
        then show "blk u3 (p + (c' * M + i * m)) j' = of_nat ?rr * shiftx m (int t) f j'"
          using u3A [of "p + (c' * M + i * m + j')"] f [OF j'] by (simp add: blk_def add.assoc)
      qed
      also have "\<dots> = of_nat ?rr * shiftx m (int (3 * m - t)) (shiftx m (int t) f) j"
        by (rule shiftx_scale)
      also have "shiftx m (int (3 * m - t)) (shiftx m (int t) f) j = shiftx m (0 + 3 * int m * 1) f j"
        using t by (simp add: shiftx_shiftx [OF m] of_nat_diff)
      also have "\<dots> = f j"
        unfolding shiftx_3m [OF m] using j by simp
      finally show ?thesis .
    qed
    have g1: "shiftx m (int (3 * m - ?t1)) (blk u3 (p + (M + i * m))) j = of_nat ?rr * B"
      unfolding B_def using inv [OF e1, of 1] F(2) [OF i] by simp
    have g2: "shiftx m (int (3 * m - ?t2)) (blk u3 (p + (2 * M + i * m))) j = of_nat ?rr * C"
      unfolding C_def using inv [OF e2, of 2] F(3) [OF i] by simp
    have r3: "(of_nat (3 ^ Suc e) :: T) = of_nat ?rr * 3" by simp
    have P: "rd s (p + (i * m + j)) = ?P0 j" "rd s (p + (M + i * m + j)) = ?P1 j"
      "rd s (p + (2 * M + i * m + j)) = ?P2 j"
      by (simp_all add: blk_def add.assoc)
    from c consider "c = 0" | "c = 1" | "c = 2" by linarith
    then show ?thesis
    proof cases
      case 1
      have "rd s3 (p + (i * m + j)) = of_nat ?rr * A + 1 * (of_nat ?rr * B) + 1 * (of_nat ?rr * C)"
        using G(1) [OF i j] by (simp add: bfly_def g0 g1 g2)
      also have "\<dots> = of_nat ?rr * (A + B + C)" by (simp add: algebra_simps)
      also have "A + B + C = 3 * ?P0 j"
        unfolding A_def B_def C_def bfly_def using bfly_inv(1) [of "?P0 j" "?P1 j" "?P2 j"] by simp
      finally show ?thesis unfolding 1 r3 by (simp add: P mult.assoc)
    next
      case 2
      have "rd s3 (p + (M + i * m + j)) = of_nat ?rr * A + OMEGA2 * (of_nat ?rr * B) + OMEGA * (of_nat ?rr * C)"
        using G(2) [OF i j] by (simp add: bfly_def g0 g1 g2)
      also have "\<dots> = of_nat ?rr * (A + OMEGA2 * B + OMEGA * C)" by (simp add: algebra_simps)
      also have "A + OMEGA2 * B + OMEGA * C = 3 * ?P1 j"
        unfolding A_def B_def C_def bfly_def using bfly_inv(2) [of "?P0 j" "?P1 j" "?P2 j"] by simp
      finally show ?thesis unfolding 2 r3 by (simp add: P mult.assoc)
    next
      case 3
      have "rd s3 (p + (2 * M + i * m + j)) = of_nat ?rr * A + OMEGA * (of_nat ?rr * B) + OMEGA2 * (of_nat ?rr * C)"
        using G(3) [OF i j] by (simp add: bfly_def g0 g1 g2)
      also have "\<dots> = of_nat ?rr * (A + OMEGA * B + OMEGA2 * C)" by (simp add: algebra_simps)
      also have "A + OMEGA * B + OMEGA2 * C = 3 * ?P2 j"
        unfolding A_def B_def C_def bfly_def using bfly_inv(3) [of "?P0 j" "?P1 j" "?P2 j"] by simp
      finally show ?thesis unfolding 3 r3 by (simp add: P mult.assoc)
    qed
  qed
  have "rd s3 x = of_nat (3 ^ Suc e) * rd s x" if "p \<le> x" "x < p + m * 3 ^ Suc e" for x
  proof -
    have "x < p + 3 * (m * ?rr)" using that by simp
    with that(1) obtain c i j where "c < 3" "i < ?rr" "j < m" "x = p + (c * (m * ?rr) + i * m + j)"
      by (rule region_decomp)
    then show ?thesis using blocks [of c i j] by (simp add: M_def)
  qed
  with run frame show ?case by blast
qed

text \<open>
  C4: for every \<open>m\<close>, every power of 3 \<open>r\<close> and every buffer of \<open>m * r\<close> elements at \<open>p\<close>,
  \<open>fftdif(p, m, r)\<close> followed by \<open>fftdit(p, m, r)\<close> returns and leaves \<open>r\<close> times the
  original buffer, element by element.  (This covers the powers of 3 \<open>m \<ge> 1\<close> with
  \<open>r \<le> 3m\<close>.)  The scratch area \<open>tmp\<close> lies behind the buffer, as in the layout of
  \<open>multiply_cyclic_raw\<close>.
\<close>

theorem fftdit_after_fftdif:
  assumes "r = 3 ^ e" and "p + m * r \<le> tmp s"
  shows "\<exists>s1 s2. fftdif p m r s = Some s1 \<and> fftdit p m r s1 = Some s2
           \<and> cells s2 p (m * r) = map (\<lambda>u. of_nat r * u) (cells s p (m * r))"
proof -
  obtain s1 where s1: "fftdif p m (3 ^ e) s = Some s1" "frame_ok (tmp s) p (m * 3 ^ e) s s1"
    using fftdif_frame [where s = s and p = p and m = m and e = e, OF refl] assms by auto
  then have t1: "tmp s1 = tmp s" by (simp add: frame_ok_def)
  obtain s2 where s2: "fftdit p m (3 ^ e) s1 = Some s2"
    "\<forall>x. p \<le> x \<and> x < p + m * 3 ^ e \<longrightarrow> rd s2 x = of_nat (3 ^ e) * rd s x"
    using dit_dif [where s = s and m = m, OF refl _ s1(1) t1] assms by auto
  have "cells s2 p (m * r) = map (\<lambda>u. of_nat r * u) (cells s p (m * r))"
    using s2(2) by (simp add: cells_def assms(1))
  with s1(1) s2(1) show ?thesis unfolding assms(1) by blast
qed

theorem fftdit_after_fftdif_witness:
  "(3::nat) = 3 ^ 1 \<and> (0::nat) + 1 * 3 \<le> tmp \<lparr>tmp = 3, mem = (\<lambda>i. T (of_nat i) 1)\<rparr>
   \<and> (\<exists>s1 s2. fftdif 0 1 3 \<lparr>tmp = 3, mem = (\<lambda>i. T (of_nat i) 1)\<rparr> = Some s1
        \<and> fftdit 0 1 3 s1 = Some s2
        \<and> cells s2 0 (1 * 3)
            = map (\<lambda>u. of_nat 3 * u) (cells \<lparr>tmp = 3, mem = (\<lambda>i. T (of_nat i) 1)\<rparr> 0 (1 * 3)))"
  using fftdit_after_fftdif [where r = 3 and e = 1 and p = 0 and m = 1
      and s = "\<lparr>tmp = 3, mem = (\<lambda>i. T (of_nat i) 1)\<rparr>"]
  by simp

section \<open>The forward transform in closed form\<close>

lemma sum_split3:
  fixes g :: "nat \<Rightarrow> 'a::comm_monoid_add"
  shows "(\<Sum>i<3 * n. g i) = (\<Sum>i<n. g i + g (i + n) + g (i + 2 * n))"
proof -
  have "(\<Sum>i<3 * n. g i) = sum g {0..<n} + sum g {n..<2 * n} + sum g {2 * n..<3 * n}"
    by (simp add: lessThan_atLeast0 sum.atLeastLessThan_concat)
  also have "sum g {n..<2 * n} = (\<Sum>i = 0..<n. g (i + n))"
    using sum.shift_bounds_nat_ivl [of g 0 n n] by (simp add: mult_2)
  also have "sum g {2 * n..<3 * n} = (\<Sum>i = 0..<n. g (i + 2 * n))"
    using sum.shift_bounds_nat_ivl [of g 0 "2 * n" n] by (simp add: add.commute)
  finally show ?thesis
    by (simp add: lessThan_atLeast0 sum.distrib)
qed

lemma shiftx_bfly:
  "shiftx m t (bfly c1 c2 f0 f1 f2) j = shiftx m t f0 j + c1 * shiftx m t f1 j + c2 * shiftx m t f2 j"
proof -
  have "bfly c1 c2 f0 f1 f2 = (\<lambda>j. f0 j + (c1 * f1 j + c2 * f2 j))"
    by (rule ext) (simp add: bfly_def add.assoc)
  then show ?thesis
    by (simp add: shiftx_add shiftx_scale add.assoc)
qed

lemma dft_cong:
  assumes "\<And>i j. i < 3 ^ e \<Longrightarrow> j < m \<Longrightarrow> F i j = G i j" and "0 < m"
  shows "dft m e F k j = dft m e G k j"
  unfolding dft_def
  by (rule sum.cong [OF refl], rule shiftx_cong) (use assms in auto)

lemma rho_split: "k0 < 3 ^ e \<Longrightarrow> rho (Suc e) (c * 3 ^ e + k0) = 3 * rho e k0 + c"
  by simp

lemma wpow_shift3 [simp]: "wpow (3 * a + b) = wpow b" "wpow (b + 3 * a) = wpow b"
  by (simp_all add: wpow_add)

lemma dif_step:
  assumes dvd: "3 ^ Suc e dvd 3 * m" and c: "c < 3" and k0: "k0 < 3 ^ e" and m: "0 < m"
  defines "v \<equiv> 3 * m div 3 ^ Suc e"
  shows "dft m e (\<lambda>i. shiftx m (int (c * v * i))
                        (bfly (wpow (int c)) (wpow (2 * int c)) (F i) (F (i + 3 ^ e)) (F (i + 2 * 3 ^ e)))) k0 j
         = dft m (Suc e) F (c * 3 ^ e + k0) j"
proof -
  let ?rr = "3 ^ e :: nat"
  have rrm: "?rr dvd m" using dvd by simp
  have v: "v = m div ?rr" unfolding v_def by simp
  have vrr: "v * ?rr = m" unfolding v using rrm by simp
  have v3: "3 * m div ?rr = 3 * v" unfolding v using rrm by (simp add: div_mult_swap)
  define \<rho> where "\<rho> = 3 * rho e k0 + c"
  have \<rho>: "rho (Suc e) (c * ?rr + k0) = \<rho>" unfolding \<rho>_def by (rule rho_split [OF k0])
  define E where "E i = int v * int i * int \<rho>" for i
  have w1: "wpow (int \<rho>) = wpow (int c)" by (simp add: \<rho>_def)
  have w2: "wpow (2 * int \<rho>) = wpow (2 * int c)"
  proof -
    have "2 * int \<rho> = 3 * (2 * int (rho e k0)) + 2 * int c" by (simp add: \<rho>_def)
    then show ?thesis by (simp only: wpow_shift3)
  qed
  have L: "shiftx m (int (3 * m div ?rr) * int i * int (rho e k0))
             (shiftx m (int (c * v * i)) (bfly (wpow (int c)) (wpow (2 * int c)) (F i) (F (i + ?rr)) (F (i + 2 * ?rr)))) j
           = shiftx m (E i) (F i) j + wpow (int c) * shiftx m (E i) (F (i + ?rr)) j
               + wpow (2 * int c) * shiftx m (E i) (F (i + 2 * ?rr)) j" for i
  proof -
    have "int (3 * m div ?rr) * int i * int (rho e k0) + int (c * v * i) = E i"
      unfolding v3 E_def \<rho>_def by (simp add: algebra_simps)
    then show ?thesis
      by (simp only: shiftx_shiftx [OF m] shiftx_bfly)
  qed
  have R1: "shiftx m (int v * int (i + ?rr) * int \<rho>) f j = wpow (int c) * shiftx m (E i) f j" for i f
  proof -
    have "int v * int (i + ?rr) * int \<rho> = E i + int m * int \<rho>"
      unfolding E_def vrr [symmetric] by (simp add: algebra_simps)
    then show ?thesis by (simp only: shiftx_period [OF m] w1)
  qed
  have R2: "shiftx m (int v * int (i + 2 * ?rr) * int \<rho>) f j = wpow (2 * int c) * shiftx m (E i) f j" for i f
  proof -
    have "int v * int (i + 2 * ?rr) * int \<rho> = E i + int m * (2 * int \<rho>)"
      unfolding E_def vrr [symmetric] by (simp add: algebra_simps)
    then show ?thesis by (simp only: shiftx_period [OF m] w2)
  qed
  have "dft m (Suc e) F (c * ?rr + k0) j
        = (\<Sum>i<3 * ?rr. shiftx m (int v * int i * int \<rho>) (F i) j)"
    unfolding dft_def \<rho> v_def by simp
  also have "\<dots> = (\<Sum>i<?rr. shiftx m (E i) (F i) j + wpow (int c) * shiftx m (E i) (F (i + ?rr)) j
               + wpow (2 * int c) * shiftx m (E i) (F (i + 2 * ?rr)) j)"
    unfolding sum_split3 R1 R2 by (simp add: E_def)
  also have "\<dots> = dft m e (\<lambda>i. shiftx m (int (c * v * i))
                        (bfly (wpow (int c)) (wpow (2 * int c)) (F i) (F (i + ?rr)) (F (i + 2 * ?rr)))) k0 j"
    unfolding dft_def L by (rule refl)
  finally show ?thesis by simp
qed


lemma fftdif_dft:
  assumes "tmp s = tp" and "p + m * 3 ^ e \<le> tp" and "3 ^ e dvd 3 * m"
    and "fftdif p m (3 ^ e) s = Some s1" and "k < 3 ^ e" and "j < m"
  shows "rd s1 (p + (k * m + j)) = dft m e (\<lambda>i. blk s (p + i * m)) k j"
  using assms
proof (induction e arbitrary: p s s1 k)
  case 0
  then show ?case by (simp add: fftdif.simps dft_def blk_def)
next
  case (Suc e)
  let ?rr = "3 ^ e :: nat"
  define M where "M = m * ?rr"
  define r where "r = 3 * ?rr"
  define v where "v = 3 * m div 3 ^ Suc e"
  note tp = Suc.prems(1) and j = Suc.prems(6)
  have m: "0 < m" using j by simp
  have dvd: "3 ^ Suc e dvd 3 * m" by (rule Suc.prems(3))
  then have dvd': "?rr dvd 3 * m" by (metis dvd_mult_right mult.commute power_Suc2 dvd_trans dvd_triv_left)
  have top: "p + 3 * M \<le> tp" using Suc.prems(2) by (simp add: M_def)
  have top': "p + m * r \<le> tp" using Suc.prems(2) by (simp add: r_def)
  define sA where "sA = fftdif_stage p m r s"
  have fA: "frame_ok tp p (m * r) s sA"
    unfolding sA_def by (rule fftdif_stage_frame [OF tp _ top']) (simp add: r_def)
  have tA: "tmp sA = tp" using fA tp by (simp add: frame_ok_def)
  obtain sB where sB: "fftdif p m ?rr sA = Some sB" "frame_ok tp p M sA sB"
    using fftdif_frame [OF tA, of p m e] top by (auto simp: M_def)
  have tB: "tmp sB = tp" using sB(2) tA by (simp add: frame_ok_def)
  obtain sC where sC: "fftdif (p + M) m ?rr sB = Some sC" "frame_ok tp (p + M) M sB sC"
    using fftdif_frame [OF tB, of "p + M" m e] top by (auto simp: M_def)
  have tC: "tmp sC = tp" using sC(2) tB by (simp add: frame_ok_def)
  obtain sD where sD: "fftdif (p + 2 * M) m ?rr sC = Some sD" "frame_ok tp (p + 2 * M) M sC sD"
    using fftdif_frame [OF tC, of "p + 2 * M" m e] top by (auto simp: M_def)
  have "fftdif p m (3 ^ Suc e) s = Some sD"
    using sB(1) sC(1) sD(1)
    by (simp add: fftdif_unfold sA_def [symmetric, unfolded r_def] M_def mult.assoc)
  then have s1: "s1 = sD" using Suc.prems(4) by simp
  note F = fftdif_stage_rd [OF tp _ top M_def, of r, folded sA_def, OF r_def]
  let ?P = "\<lambda>i. blk s (p + i * m)"
  let ?S = "\<lambda>c i. shiftx m (int (c * v * i))
                  (bfly (wpow (int c)) (wpow (2 * int c)) (?P i) (?P (i + ?rr)) (?P (i + 2 * ?rr)))"
  have P1: "?P (i + ?rr) = blk s (p + (M + i * m))" for i
    by (simp add: M_def algebra_simps)
  have P2: "?P (i + 2 * ?rr) = blk s (p + (2 * M + i * m))" for i
    by (simp add: M_def algebra_simps)
  have rdvd: "r dvd 3 * m" using dvd by (simp add: r_def)
  have vr: "v = 3 * m div r" by (simp add: v_def r_def)
  have t1: "3 * i * m div r = 1 * v * i" for i
  proof -
    have "3 * i * m div r = i * (3 * m) div r" by (simp add: ac_simps)
    also have "\<dots> = i * (3 * m div r)" by (rule div_mult_swap [OF rdvd, symmetric])
    finally show ?thesis by (simp add: vr)
  qed
  have t2: "6 * i * m div r = 2 * v * i" for i
  proof -
    have "6 * i * m div r = (2 * i) * (3 * m) div r" by (simp add: ac_simps)
    also have "\<dots> = (2 * i) * (3 * m div r)" by (rule div_mult_swap [OF rdvd, symmetric])
    finally show ?thesis by (simp add: vr)
  qed
  have w4: "wpow 4 = OMEGA"
    using wpow_shift3(1) [of 1 1] by simp
  have stage: "rd sA (p + (c * M + i * m + j')) = ?S c i j'" if "c < 3" "i < ?rr" "j' < m" for c i j'
  proof -
    from that(1) consider "c = 0" | "c = 1" | "c = 2" by linarith
    then show ?thesis
    proof cases
      case 1
      show ?thesis unfolding 1 using F(1) [OF that(2,3)] that(3) by (simp add: P1 P2)
    next
      case 2
      show ?thesis unfolding 2 using F(2) [OF that(2,3)] by (simp add: P1 P2 t1)
    next
      case 3
      show ?thesis unfolding 3 using F(3) [OF that(2,3)] by (simp add: P1 P2 t2 w4)
    qed
  qed
  have bnd: "i * m + m \<le> M" if "i < ?rr" for i
    unfolding M_def using that by (rule blk_bound)
  define c where "c = k div ?rr"
  define k0 where "k0 = k mod ?rr"
  have c: "c < 3" unfolding c_def using Suc.prems(5) by (simp add: div_less_iff_less_mult mult.commute)
  have k0: "k0 < ?rr" unfolding k0_def by simp
  have k: "k = c * ?rr + k0" unfolding c_def k0_def by (rule div_mult_mod_eq [symmetric])
  have addr: "p + (k * m + j) = p + c * M + (k0 * m + j)"
    unfolding k M_def by (simp add: algebra_simps)
  have dvde: "?rr dvd 3 * m" by (rule dvd')
  have main: "rd s1 (p + (k * m + j)) = dft m e (?S c) k0 j"
  proof -
    from c consider "c = 0" | "c = 1" | "c = 2" by linarith
    then show ?thesis
    proof cases
      case 1
      have "rd s1 (p + (k * m + j)) = rd sB (p + (k0 * m + j))"
        unfolding addr s1 1 using sC(2) sD(2) bnd [OF k0] j top by (simp add: frame_ok_def)
      also have "\<dots> = dft m e (\<lambda>i. blk sA (p + i * m)) k0 j"
        by (rule Suc.IH [OF tA _ dvde sB(1) k0 j]) (use top in \<open>simp add: M_def\<close>)
      also have "\<dots> = dft m e (?S 0) k0 j"
        by (rule dft_cong [OF _ m]) (use stage [of 0] in \<open>simp add: blk_def add.assoc\<close>)
      finally show ?thesis unfolding 1 .
    next
      case 2
      have "rd s1 (p + (k * m + j)) = rd sC (p + M + (k0 * m + j))"
        unfolding addr s1 2 using sD(2) bnd [OF k0] j top by (simp add: frame_ok_def)
      also have "\<dots> = dft m e (\<lambda>i. blk sB (p + M + i * m)) k0 j"
        by (rule Suc.IH [OF tB _ dvde sC(1) k0 j]) (use top in \<open>simp add: M_def\<close>)
      also have "\<dots> = dft m e (?S 1) k0 j"
      proof (rule dft_cong [OF _ m])
        fix i j' assume ij: "i < ?rr" "j' < m"
        have "blk sB (p + M + i * m) j' = rd sA (p + (1 * M + i * m + j'))"
          using sB(2) top bnd [OF ij(1)] ij(2) by (simp add: blk_def frame_ok_def add.assoc)
        then show "blk sB (p + M + i * m) j' = ?S 1 i j'"
          using stage [OF _ ij, of 1] by simp
      qed
      finally show ?thesis unfolding 2 .
    next
      case 3
      have "rd s1 (p + (k * m + j)) = rd sD (p + 2 * M + (k0 * m + j))"
        unfolding addr s1 3 by simp
      also have "\<dots> = dft m e (\<lambda>i. blk sC (p + 2 * M + i * m)) k0 j"
        by (rule Suc.IH [OF tC _ dvde sD(1) k0 j]) (use top in \<open>simp add: M_def\<close>)
      also have "\<dots> = dft m e (?S 2) k0 j"
      proof (rule dft_cong [OF _ m])
        fix i j' assume ij: "i < ?rr" "j' < m"
        have "blk sC (p + 2 * M + i * m) j' = rd sA (p + (2 * M + i * m + j'))"
          using sB(2) sC(2) top bnd [OF ij(1)] ij(2) by (simp add: blk_def frame_ok_def add.assoc)
        then show "blk sC (p + 2 * M + i * m) j' = ?S 2 i j'"
          using stage [OF _ ij, of 2] by simp
      qed
      finally show ?thesis unfolding 3 .
    qed
  qed
  also have "\<dots> = dft m (Suc e) ?P (c * ?rr + k0) j"
    unfolding v_def by (rule dif_step [OF dvd c k0 m])
  finally show ?case unfolding k .
qed

section \<open>Products of blocks\<close>

lemma sum_periodic_shift:
  fixes h :: "int \<Rightarrow> 'a::comm_monoid_add"
  assumes per: "\<And>x q. h (x + int m * q) = h x" and m: "0 < m"
  shows "(\<Sum>i<m. h (int i + d)) = (\<Sum>i<m. h (int i))"
proof -
  have mod: "h x = h (x mod int m)" for x
    using per [of "x mod int m" "x div int m"] by simp
  have "(\<Sum>i<m. h (int i + d)) = (\<Sum>i<m. h (int (nat ((int i + d) mod int m))))"
    using m by (subst mod) simp
  also have "\<dots> = (\<Sum>i<m. h (int i))"
  proof (rule sum.reindex_bij_witness [of _ "\<lambda>i. nat ((int i - d) mod int m)" "\<lambda>i. nat ((int i + d) mod int m)"])
    fix a assume a: "a \<in> {..<m}"
    show "nat ((int (nat ((int a + d) mod int m)) - d) mod int m) = a"
      using a m by (simp add: mod_diff_left_eq)
    show "nat ((int a + d) mod int m) \<in> {..<m}"
      using m by (simp add: nat_less_iff)
  next
    fix b assume b: "b \<in> {..<m}"
    show "nat ((int (nat ((int b - d) mod int m)) + d) mod int m) = b"
      using b m by (simp add: mod_add_left_eq)
    show "nat ((int b - d) mod int m) \<in> {..<m}"
      using m by (simp add: nat_less_iff)
  qed simp
  finally show ?thesis .
qed

lemma cmul_cong:
  assumes "\<And>j. j < m \<Longrightarrow> f j = f' j" and "\<And>j. j < m \<Longrightarrow> g j = g' j" and "0 < m"
  shows "cmul e m f g k = cmul e m f' g' k"
  unfolding cmul_def
  by (rule sum.cong [OF refl]) (use assms ext_cong [of m g g' e] in auto)

lemma cmul_sum_left: "cmul e m (\<lambda>j. \<Sum>a\<in>A. F a j) g k = (\<Sum>a\<in>A. cmul e m (F a) g k)"
  unfolding cmul_def by (simp add: sum_distrib_right) (rule sum.swap)

lemma cmul_sum_right: "cmul e m f (\<lambda>j. \<Sum>a\<in>A. G a j) k = (\<Sum>a\<in>A. cmul e m f (G a) k)"
  unfolding cmul_def by (simp add: ext_sum sum_distrib_left) (rule sum.swap)

lemma cmul_scale_left: "cmul e m (\<lambda>j. c * f j) g k = c * cmul e m f g k"
  unfolding cmul_def by (simp add: sum_distrib_left mult.assoc)

lemma cmul_scale_right: "cmul e m f (\<lambda>j. c * g j) k = c * cmul e m f g k"
  unfolding cmul_def by (simp add: ext_scale sum_distrib_left mult.left_commute)

lemma ext_cmul:
  assumes m: "0 < m"
  shows "ext e m (cmul e m f g) K = (\<Sum>i<m. f i * ext e m g (K - int i))"
proof -
  let ?d = "K div int m" and ?k = "K mod int m"
  have k: "0 \<le> ?k" "?k < int m" using m by simp_all
  have "ext e m g (K - int i) = wpow (- e * ?d) * ext e m g (?k - int i)" for i
  proof -
    have "K - int i = (?k - int i) + int m * ?d" by (simp add: algebra_simps)
    then show ?thesis by (simp only: ext_period [OF m])
  qed
  moreover have "ext e m (cmul e m f g) K = wpow (- e * ?d) * (\<Sum>i<m. f i * ext e m g (?k - int i))"
    using k by (simp add: ext_def [of e m "cmul e m f g"] cmul_def)
  ultimately show ?thesis
    by (simp add: sum_distrib_left mult.left_commute)
qed

lemma cmul_shiftx:
  assumes m: "0 < m"
  shows "cmul 1 m (shiftx m s f) (shiftx m t g) k = shiftx m (s + t) (cmul 1 m f g) k"
proof -
  define h where "h x = ext 1 m f x * ext 1 m g (int k - s - t - x)" for x
  have per: "h (x + int m * q) = h x" for x q
  proof -
    have eq: "int k - s - t - (x + int m * q) = (int k - s - t - x) + int m * (- q)" by simp
    have "ext 1 m g (int k - s - t - (x + int m * q)) = wpow q * ext 1 m g (int k - s - t - x)"
      unfolding eq ext_period [OF m] by simp
    moreover have "ext 1 m f (x + int m * q) = wpow (- q) * ext 1 m f x"
      using ext_period [OF m, of 1 f x q] by simp
    ultimately have "h (x + int m * q) = (wpow (- q) * wpow q) * h x"
      by (simp add: h_def mult_ac)
    then show ?thesis by (simp add: wpow_minus)
  qed
  have "cmul 1 m (shiftx m s f) (shiftx m t g) k = (\<Sum>i<m. h (int i + (- s)))"
    unfolding cmul_def h_def
    by (rule sum.cong [OF refl]) (simp add: ext_shiftx [OF m] shiftx_def algebra_simps)
  also have "\<dots> = (\<Sum>i<m. h (int i))"
    by (rule sum_periodic_shift [OF per m])
  also have "\<dots> = shiftx m (s + t) (cmul 1 m f g) k"
    unfolding shiftx_def ext_cmul [OF m] h_def
    by (rule sum.cong [OF refl]) (simp add: algebra_simps)
  finally show ?thesis .
qed


lemma dft_product:
  assumes dvd: "3 ^ e dvd 3 * m" and m: "0 < m"
  shows "cmul 1 m (dft m e F k) (dft m e G k) j = dft m e (yprod 0 m (3 ^ e) F G) k j"
proof -
  let ?r = "3 ^ e :: nat"
  define v where "v = 3 * m div ?r"
  define E where "E x = int v * x * int (rho e k)" for x
  have vr: "int v * int ?r = 3 * int m"
  proof -
    have "v * ?r = 3 * m" unfolding v_def using dvd by simp
    then have "int (v * ?r) = int (3 * m)" by (rule arg_cong)
    then show ?thesis by simp
  qed
  have dftF: "dft m e F k = (\<lambda>j. \<Sum>a<?r. shiftx m (E (int a)) (F a) j)" for F
    by (rule ext) (simp add: dft_def E_def v_def)
  have "cmul 1 m (dft m e F k) (dft m e G k) j
        = (\<Sum>a<?r. \<Sum>b<?r. cmul 1 m (shiftx m (E (int a)) (F a)) (shiftx m (E (int b)) (G b)) j)"
    unfolding dftF cmul_sum_left cmul_sum_right by (rule refl)
  also have "\<dots> = (\<Sum>a<?r. \<Sum>b<?r. shiftx m (E (int a) + E (int b)) (cmul 1 m (F a) (G b)) j)"
    unfolding cmul_shiftx [OF m] by (rule refl)
  also have "\<dots> = (\<Sum>a<?r. \<Sum>c<?r. shiftx m (E (int c)) (cmul 1 m (F a) (G (nat ((int c - int a) mod int ?r)))) j)"
  proof (rule sum.cong [OF refl])
    fix a
    define h where "h x = shiftx m (E x) (cmul 1 m (F a) (G (nat ((x - int a) mod int ?r)))) j" for x
    have per: "h (x + int ?r * q) = h x" for x q
    proof -
      have "E (x + int ?r * q) = E x + 3 * int m * (q * int (rho e k))"
        unfolding E_def using vr by (simp add: algebra_simps)
      moreover have "(x + int ?r * q - int a) mod int ?r = (x - int a) mod int ?r"
      proof -
        have "x + int ?r * q - int a = (x - int a) + int ?r * q" by simp
        then show ?thesis by (simp only: mod_mult_self2)
      qed
      ultimately show ?thesis
        unfolding h_def by (simp only: shiftx_3m [OF m])
    qed
    have "(\<Sum>c<?r. h (int c)) = (\<Sum>b<?r. h (int b + int a))"
      by (rule sum_periodic_shift [OF per, symmetric]) simp
    also have "\<dots> = (\<Sum>b<?r. shiftx m (E (int a) + E (int b)) (cmul 1 m (F a) (G b)) j)"
    proof (rule sum.cong [OF refl])
      fix b assume "b \<in> {..<?r}"
      then have "nat ((int b + int a - int a) mod int ?r) = b" by simp
      moreover have "E (int b + int a) = E (int a) + E (int b)"
        by (simp add: E_def algebra_simps)
      ultimately show "h (int b + int a) = shiftx m (E (int a) + E (int b)) (cmul 1 m (F a) (G b)) j"
        by (simp add: h_def)
    qed
    finally show "(\<Sum>b<?r. shiftx m (E (int a) + E (int b)) (cmul 1 m (F a) (G b)) j)
        = (\<Sum>c<?r. shiftx m (E (int c)) (cmul 1 m (F a) (G (nat ((int c - int a) mod int ?r)))) j)"
      by (simp add: h_def)
  qed
  also have "\<dots> = (\<Sum>c<?r. \<Sum>a<?r. shiftx m (E (int c)) (cmul 1 m (F a) (G (nat ((int c - int a) mod int ?r)))) j)"
    by (rule sum.swap)
  also have "\<dots> = dft m e (yprod 0 m ?r F G) k j"
  proof -
    have y: "yprod 0 m ?r F G c = (\<lambda>j. \<Sum>a<?r. cmul 1 m (F a) (G (nat ((int c - int a) mod int ?r))) j)" for c
      by (rule ext) (simp add: yprod_def)
    show ?thesis
      unfolding dftF y shiftx_sum by (rule refl)
  qed
  finally show ?thesis .
qed

section \<open>Multiplication through the transforms\<close>

lemma region_blocks:
  fixes p x m r :: nat
  assumes "p \<le> x" and "x < p + m * r"
  obtains k j where "k < r" "j < m" "x = p + (k * m + j)"
proof -
  define y where "y = x - p"
  have y: "y < m * r" "x = p + y" using assms by (simp_all add: y_def)
  then have m: "0 < m" by (auto intro: Nat.gr0I)
  have "y div m < r" using y(1) m by (simp add: div_less_iff_less_mult mult.commute)
  moreover have "y mod m < m" using m by simp
  moreover have "x = p + (y div m * m + y mod m)" using y(2) by simp
  ultimately show ?thesis by (rule that)
qed

lemma blk_index: "j < m \<Longrightarrow> (k * m + j) div m = k \<and> (k * m + j) mod m = j" for j k m :: nat
  by simp

lemma fft_multiply:
  assumes tp: "tmp s2 = tp" and top: "c + m * 3 ^ e \<le> tp" and dvd: "3 ^ e dvd 3 * m"
    and prod: "\<And>k j. k < 3 ^ e \<Longrightarrow> j < m \<Longrightarrow>
                 rd s2 (c + (k * m + j)) = cmul 1 m (dft m e P k) (dft m e Q k) j"
  shows "\<exists>s3. fftdit c m (3 ^ e) s2 = Some s3 \<and> frame_ok tp c (m * 3 ^ e) s2 s3
            \<and> (\<forall>k j. k < 3 ^ e \<and> j < m \<longrightarrow>
                  rd s3 (c + (k * m + j)) = of_nat (3 ^ e) * yprod 0 m (3 ^ e) P Q k j)"
proof (cases "m = 0")
  case True
  obtain s3 where "fftdit c m (3 ^ e) s2 = Some s3" "frame_ok tp c (m * 3 ^ e) s2 s3"
    using fftdit_frame [OF tp top] by auto
  then show ?thesis using True by auto
next
  case False
  then have m: "0 < m" by simp
  let ?r = "3 ^ e :: nat"
  let ?Y = "yprod 0 m ?r P Q"
  define sv where "sv = s2\<lparr>mem := (\<lambda>x. if c \<le> x \<and> x < c + m * ?r
                                       then ?Y ((x - c) div m) ((x - c) mod m) else mem s2 x)\<rparr>"
  have tv: "tmp sv = tp" using tp by (simp add: sv_def)
  have rdv: "rd sv (c + (k * m + j)) = ?Y k j" if "k < ?r" "j < m" for k j
  proof -
    have "k * m + j < m * ?r" using blk_bound [OF that(1), of m] that(2) by simp
    then show ?thesis using that by (simp add: sv_def rd_def)
  qed
  obtain s1 where s1: "fftdif c m ?r sv = Some s1"
    using fftdif_frame [OF tv top] by auto
  have agree: "\<forall>x. c \<le> x \<and> x < c + m * ?r \<longrightarrow> rd s2 x = rd s1 x"
  proof (intro allI impI)
    fix x assume "c \<le> x \<and> x < c + m * ?r"
    then obtain k j where kj: "k < ?r" "j < m" "x = c + (k * m + j)"
      using region_blocks [of c x m ?r] by auto
    have "rd s1 x = dft m e (\<lambda>i. blk sv (c + i * m)) k j"
      unfolding kj(3) by (rule fftdif_dft [OF tv top dvd s1 kj(1,2)])
    also have "\<dots> = dft m e ?Y k j"
      by (rule dft_cong [OF _ m]) (use rdv in \<open>simp add: blk_def add.assoc\<close>)
    also have "\<dots> = cmul 1 m (dft m e P k) (dft m e Q k) j"
      by (rule dft_product [OF dvd m, symmetric])
    also have "\<dots> = rd s2 x"
      unfolding kj(3) by (rule prod [OF kj(1,2), symmetric])
    finally show "rd s2 x = rd s1 x" by simp
  qed
  obtain s3 where s3: "fftdit c m ?r s2 = Some s3" "frame_ok tp c (m * ?r) s2 s3"
    "\<forall>x. c \<le> x \<and> x < c + m * ?r \<longrightarrow> rd s3 x = of_nat ?r * rd sv x"
    using dit_dif [OF tv top s1 tp agree] by auto
  have "rd s3 (c + (k * m + j)) = of_nat ?r * ?Y k j" if "k < ?r" "j < m" for k j
  proof -
    have "k * m + j < m * ?r" using blk_bound [OF that(1), of m] that(2) by simp
    then show ?thesis using s3(3) rdv [OF that] by simp
  qed
  with s3(1,2) show ?thesis by blast
qed

section \<open>The loops of the recursive step\<close>

lemma twiddle_rd_in:
  assumes "t \<le> 3 * m" and "p + m \<le> to \<or> to + m \<le> p" and "j < m"
  shows "rd (twiddle p m t to s) (to + j) = shiftx m (int t) (blk s p) j"
  using assms by (simp add: twiddle_rd)

lemma twiddle_rd_out:
  assumes "t \<le> 3 * m" and "p + m \<le> to \<or> to + m \<le> p" and "x < to \<or> to + m \<le> x"
  shows "rd (twiddle p m t to s) x = rd s x"
  using assms by (auto simp add: twiddle_rd)

lemma div_mult_bound: "i < r \<Longrightarrow> c * m div r * i \<le> c * m" for i r m c :: nat
proof -
  assume "i < r"
  then have "c * m div r * i \<le> c * m div r * r" by (intro mult_le_mono2) simp
  also have "\<dots> \<le> c * m" by (rule div_times_less_eq_dividend)
  finally show ?thesis .
qed

lemma mul_twiddle_in_body:
  fixes s :: conv64
  assumes i: "i < r" and n: "n = m * r" and p: "p + n \<le> to" and q: "q + n \<le> to"
  defines "s' \<equiv> twiddle (q + m * i) m (m div r * i) (to + (n + m * i))
                   (twiddle (p + m * i) m (m div r * i) (to + m * i) s)"
  shows "j < m \<Longrightarrow> rd s' (to + (i * m + j)) = shiftx m (int (m div r * i)) (blk s (p + i * m)) j"
    and "j < m \<Longrightarrow> rd s' (to + (n + i * m + j)) = shiftx m (int (m div r * i)) (blk s (q + i * m)) j"
    and "x \<notin> blocks {to, to + n} m i \<Longrightarrow> rd s' x = rd s x"
proof -
  have b: "i * m + m \<le> n" unfolding n using i by (rule blk_bound)
  have t: "m div r * i \<le> 3 * m" using div_mult_bound [OF i, of 1 m] by simp
  let ?s1 = "twiddle (p + m * i) m (m div r * i) (to + m * i) s"
  have d1: "p + m * i + m \<le> to + m * i \<or> to + m * i + m \<le> p + m * i" using p b by simp
  have d2: "q + m * i + m \<le> to + (n + m * i) \<or> to + (n + m * i) + m \<le> q + m * i" using q b by simp
  show "rd s' (to + (i * m + j)) = shiftx m (int (m div r * i)) (blk s (p + i * m)) j" if "j < m"
  proof -
    have "rd s' (to + (i * m + j)) = rd ?s1 (to + (i * m + j))"
      unfolding s'_def by (rule twiddle_rd_out [OF t d2]) (use that b in \<open>simp add: mult.commute\<close>)
    also have "\<dots> = rd ?s1 (to + m * i + j)" by (simp add: mult.commute add.assoc)
    also have "\<dots> = shiftx m (int (m div r * i)) (blk s (p + m * i)) j"
      by (rule twiddle_rd_in [OF t d1 that])
    finally show ?thesis by (simp add: mult.commute)
  qed
  show "rd s' (to + (n + i * m + j)) = shiftx m (int (m div r * i)) (blk s (q + i * m)) j" if "j < m"
  proof -
    have "rd s' (to + (n + i * m + j)) = rd s' (to + (n + m * i) + j)"
      by (simp add: mult.commute add.assoc)
    also have "\<dots> = shiftx m (int (m div r * i)) (blk ?s1 (q + m * i)) j"
      unfolding s'_def by (rule twiddle_rd_in [OF t d2 that])
    also have "\<dots> = shiftx m (int (m div r * i)) (blk s (q + i * m)) j"
    proof (rule shiftx_cong)
      show "0 < m" using that by simp
      fix j' assume "j' < m"
      have "rd ?s1 (q + m * i + j') = rd s (q + m * i + j')"
        by (rule twiddle_rd_out [OF t d1]) (use \<open>j' < m\<close> q b in \<open>simp add: mult.commute\<close>)
      then show "blk ?s1 (q + m * i) j' = blk s (q + i * m) j'" by (simp add: blk_def mult.commute)
    qed
    finally show ?thesis .
  qed
  show "rd s' x = rd s x" if "x \<notin> blocks {to, to + n} m i"
  proof -
    have x: "x < to + i * m \<or> to + i * m + m \<le> x" "x < to + n + i * m \<or> to + n + i * m + m \<le> x"
      using that by (auto simp: blocks_def)
    have "rd s' x = rd ?s1 x"
      unfolding s'_def by (rule twiddle_rd_out [OF t d2]) (use x in \<open>simp add: mult.commute add.assoc\<close>)
    also have "\<dots> = rd s x"
      by (rule twiddle_rd_out [OF t d1]) (use x in \<open>simp add: mult.commute add.assoc\<close>)
    finally show ?thesis .
  qed
qed


lemma mul_twiddle_in_rd:
  assumes tp: "tmp s = tp" and n: "n = m * r" and p: "p + n \<le> to" and q: "q + n \<le> to"
    and top: "to + 2 * n \<le> tp"
  defines "s' \<equiv> mul_twiddle_in p q n m r to s"
  shows "i < r \<Longrightarrow> j < m \<Longrightarrow>
           rd s' (to + (i * m + j)) = shiftx m (int (m div r * i)) (blk s (p + i * m)) j"
    and "i < r \<Longrightarrow> j < m \<Longrightarrow>
           rd s' (to + (n + i * m + j)) = shiftx m (int (m div r * i)) (blk s (q + i * m)) j"
    and "x < tp \<Longrightarrow> x < to \<or> to + 2 * n \<le> x \<Longrightarrow> rd s' x = rd s x"
    and "tmp s' = tmp s"
proof -
  let ?B = "\<lambda>i s. twiddle (q + m * i) m (m div r * i) (to + (n + m * i))
                   (twiddle (p + m * i) m (m div r * i) (to + m * i) s)"
  let ?bases = "{to, to + n}"
  let ?E = "{x. p \<le> x \<and> x < p + n} \<union> {x. q \<le> x \<and> x < q + n}"
  have s': "s' = fold ?B [0..<r] s"
    unfolding s'_def mul_twiddle_in_def Let_def by (rule refl)
  note R = mul_twiddle_in_body [OF _ n p q]
  have tmpc: "tmp (?B i s) = tmp s" for i s by simp
  have frame: "rd (?B i s) x = rd s x" if "i < r" "x \<notin> blocks ?bases m i" for i s x
    by (rule R(3) [OF that])
  have det: "rd (?B i s2) x = rd (?B i s1) x"
    if i: "i < r" and ag: "\<forall>y\<in>blocks ?bases m i \<union> ?E. rd s2 y = rd s1 y" and x: "x \<in> blocks ?bases m i"
    for i s1 s2 x
  proof -
    have b: "i * m + m \<le> n" unfolding n using i by (rule blk_bound)
    have e: "blk s2 (c + i * m) j = blk s1 (c + i * m) j" if "j < m" "c = p \<or> c = q" for j c
      using ag that b by (auto simp add: blk_def)
    from x obtain c j where c: "c \<in> ?bases" "j < m" "x = c + i * m + j" by (rule blocksE)
    have m: "0 < m" using c(2) by simp
    from c(1) consider "c = to" | "c = to + n" by auto
    then show ?thesis
    proof cases
      case 1
      then have x: "x = to + (i * m + j)" using c by simp
      show ?thesis unfolding x R(1) [OF i c(2)]
        by (rule shiftx_cong [OF _ m]) (rule e, simp_all)
    next
      case 2
      then have x: "x = to + (n + i * m + j)" using c by simp
      show ?thesis unfolding x R(2) [OF i c(2)]
        by (rule shiftx_cong [OF _ m]) (rule e, simp_all)
    qed
  qed
  have sep: "c + m * r \<le> c' \<or> c' + m * r \<le> c" if "c \<in> ?bases" "c' \<in> ?bases" "c \<noteq> c'" for c c'
    using that unfolding n [symmetric] by auto
  have below: "c + m * r \<le> tp" if "c \<in> ?bases" for c
    using that top unfolding n [symmetric] by auto
  have E: "x < tp \<and> (\<forall>c\<in>?bases. \<not> (c \<le> x \<and> x < c + m * r))" if "x \<in> ?E" for x
    using that p q top unfolding n [symmetric] by auto
  note L = block_loop [where bases = "?bases" and m = m and rr = r and tp = tp and E = "?E" and B = "?B"
      and s = s, OF sep below E tmpc frame det tp, folded s']
  have L1: "rd s' (c + i * m + j) = rd (?B i s) (c + i * m + j)" if "c \<in> ?bases" "i < r" "j < m" for c i j
    by (rule L(1)) (use that blocksI [OF that(1,3), of i] in auto)
  show "rd s' (to + (i * m + j)) = shiftx m (int (m div r * i)) (blk s (p + i * m)) j" if "i < r" "j < m"
    using L1 [of to, OF _ that] R(1) [OF that] by (simp add: add.assoc)
  show "rd s' (to + (n + i * m + j)) = shiftx m (int (m div r * i)) (blk s (q + i * m)) j" if "i < r" "j < m"
    using L1 [of "to + n", OF _ that] R(2) [OF that] by (simp add: add.assoc)
  show "rd s' x = rd s x" if "x < tp" "x < to \<or> to + 2 * n \<le> x"
    by (rule L(2)) (use that in \<open>auto simp flip: n\<close>)
  show "tmp s' = tmp s"
    unfolding s' by (rule tmp_fold) simp
qed


lemma twiddle_loop_rd:
  fixes t :: "nat \<Rightarrow> nat"
  assumes tp: "tmp s = tp" and tb: "\<And>i. i < r \<Longrightarrow> t i \<le> 3 * m"
    and disj: "src + m * r \<le> dst \<or> dst + m * r \<le> src"
    and below: "src + m * r \<le> tp" "dst + m * r \<le> tp"
  defines "s' \<equiv> fold (\<lambda>i s. twiddle (src + m * i) m (t i) (dst + m * i) s) [0..<r] s"
  shows "i < r \<Longrightarrow> j < m \<Longrightarrow> rd s' (dst + (i * m + j)) = shiftx m (int (t i)) (blk s (src + i * m)) j"
    and "x < tp \<Longrightarrow> x < dst \<or> dst + m * r \<le> x \<Longrightarrow> rd s' x = rd s x"
    and "tmp s' = tmp s"
proof -
  let ?B = "\<lambda>i s. twiddle (src + m * i) m (t i) (dst + m * i) s"
  let ?bases = "{dst}"
  let ?E = "{x. src \<le> x \<and> x < src + m * r}"
  have d: "src + m * i + m \<le> dst + m * i \<or> dst + m * i + m \<le> src + m * i" if "i < r" for i
    using disj blk_bound [OF that, of m] by auto
  have R1: "rd (?B i s) (dst + (i * m + j)) = shiftx m (int (t i)) (blk s (src + i * m)) j"
    if "i < r" "j < m" for i j s
    using twiddle_rd_in [OF tb [OF that(1)] d [OF that(1)] that(2), of s]
    by (simp add: mult.commute add.assoc)
  have frame: "rd (?B i s) x = rd s x" if "i < r" "x \<notin> blocks ?bases m i" for i s x
    by (rule twiddle_rd_out [OF tb [OF that(1)] d [OF that(1)]])
      (use that(2) in \<open>auto simp: blocks_def mult.commute\<close>)
  have det: "rd (?B i s2) x = rd (?B i s1) x"
    if i: "i < r" and ag: "\<forall>y\<in>blocks ?bases m i \<union> ?E. rd s2 y = rd s1 y" and x: "x \<in> blocks ?bases m i"
    for i s1 s2 x
  proof -
    have b: "i * m + m \<le> m * r" using i by (rule blk_bound)
    have e: "blk s2 (src + i * m) j = blk s1 (src + i * m) j" if "j < m" for j
      using ag that b by (auto simp add: blk_def)
    from x obtain c j where c: "c \<in> ?bases" "j < m" "x = c + i * m + j" by (rule blocksE)
    have m: "0 < m" using c(2) by simp
    have x: "x = dst + (i * m + j)" using c by simp
    show ?thesis unfolding x R1 [OF i c(2)]
      by (rule shiftx_cong [OF _ m]) (rule e)
  qed
  have sep: "c + m * r \<le> c' \<or> c' + m * r \<le> c" if "c \<in> ?bases" "c' \<in> ?bases" "c \<noteq> c'" for c c'
    using that by auto
  have below': "c + m * r \<le> tp" if "c \<in> ?bases" for c
    using that below by auto
  have E: "x < tp \<and> (\<forall>c\<in>?bases. \<not> (c \<le> x \<and> x < c + m * r))" if "x \<in> ?E" for x
    using that disj below by auto
  have tmpc: "tmp (?B i s) = tmp s" for i s by simp
  note L = block_loop [where bases = "?bases" and m = m and rr = r and tp = tp and E = "?E" and B = "?B"
      and s = s, OF sep below' E tmpc frame det tp, folded s'_def]
  have L1: "rd s' (dst + i * m + j) = rd (?B i s) (dst + i * m + j)" if "i < r" "j < m" for i j
    by (rule L(1)) (use that blocksI [of dst ?bases j m i] in auto)
  show "rd s' (dst + (i * m + j)) = shiftx m (int (t i)) (blk s (src + i * m)) j" if "i < r" "j < m"
    using L1 [OF that] R1 [OF that] by (simp add: add.assoc)
  show "rd s' x = rd s x" if "x < tp" "x < dst \<or> dst + m * r \<le> x"
    by (rule L(2)) (use that in auto)
  show "tmp s' = tmp s"
    unfolding s'_def by (rule tmp_fold) simp
qed

lemma shiftx_back:
  assumes "0 < m" and "t \<le> 3 * m"
  shows "shiftx m (int (3 * m - t)) f j = shiftx m (- int t) f j"
proof -
  have "shiftx m (int (3 * m - t)) f j = shiftx m (- int t + 3 * int m * 1) f j"
    using assms(2) by (simp add: of_nat_diff)
  also have "\<dots> = shiftx m (- int t) f j"
    by (rule shiftx_3m [OF assms(1)])
  finally show ?thesis .
qed

lemma mul_twiddle_out_rd:
  assumes tp: "tmp s = tp" and n: "n = m * r" and top: "to + 3 * n \<le> tp"
  defines "s' \<equiv> mul_twiddle_out n m r to s"
  shows "i < r \<Longrightarrow> j < m \<Longrightarrow>
           rd s' (to + (n + i * m + j)) = shiftx m (- int (m div r * i)) (blk s (to + (2 * n + i * m))) j"
    and "x < tp \<Longrightarrow> x < to + n \<or> to + 2 * n \<le> x \<Longrightarrow> rd s' x = rd s x"
    and "tmp s' = tmp s"
proof -
  have s': "s' = fold (\<lambda>i s. twiddle (to + 2 * n + m * i) m (3 * m - m div r * i) (to + n + m * i) s) [0..<r] s"
    unfolding s'_def mul_twiddle_out_def by (simp only: add.assoc)
  note L = twiddle_loop_rd [where src = "to + 2 * n" and dst = "to + n" and m = m and r = r
      and t = "\<lambda>i. 3 * m - m div r * i" and s = s and tp = tp, OF tp, folded s']
  have c: "to + 2 * n + m * r \<le> to + n \<or> to + n + m * r \<le> to + 2 * n" using n by simp
  have b: "to + 2 * n + m * r \<le> tp" "to + n + m * r \<le> tp" using n top by simp_all
  show "rd s' (to + (n + i * m + j)) = shiftx m (- int (m div r * i)) (blk s (to + (2 * n + i * m))) j"
    if "i < r" "j < m"
  proof -
    have "rd s' (to + n + (i * m + j)) = shiftx m (int (3 * m - m div r * i)) (blk s (to + 2 * n + i * m)) j"
      by (rule L(1) [OF _ c b that]) simp
    also have "\<dots> = shiftx m (- int (m div r * i)) (blk s (to + 2 * n + i * m)) j"
      by (rule shiftx_back) (use that div_mult_bound [OF that(1), of 1 m] in auto)
    finally show ?thesis by (simp add: add.assoc)
  qed
  show "rd s' x = rd s x" if "x < tp" "x < to + n \<or> to + 2 * n \<le> x"
    by (rule L(2) [OF _ c b that(1)]) (use that(2) n in auto)
  show "tmp s' = tmp s"
    by (rule L(3) [OF _ c b]) simp
qed

lemma mul_conj_twiddle_out_rd:
  assumes tp: "tmp s = tp" and n: "n = m * r" and top: "to + 3 * n \<le> tp" and q: "q + n \<le> to"
  defines "s' \<equiv> mul_conj_twiddle_out q n m r to s"
  shows "i < r \<Longrightarrow> j < m \<Longrightarrow>
           rd s' (q + (i * m + j)) = shiftx m (- int (2 * m div r * i)) (blk s (to + (2 * n + i * m))) j"
    and "x < tp \<Longrightarrow> x < q \<or> q + n \<le> x \<Longrightarrow> rd s' x = rd s x"
    and "tmp s' = tmp s"
proof -
  have s': "s' = fold (\<lambda>i s. twiddle (to + 2 * n + m * i) m (3 * m - 2 * m div r * i) (q + m * i) s) [0..<r] s"
    unfolding s'_def mul_conj_twiddle_out_def by (simp only: add.assoc)
  note L = twiddle_loop_rd [where src = "to + 2 * n" and dst = q and m = m and r = r
      and t = "\<lambda>i. 3 * m - 2 * m div r * i" and s = s and tp = tp, OF tp, folded s']
  have c: "to + 2 * n + m * r \<le> q \<or> q + m * r \<le> to + 2 * n" using n q by simp
  have b: "to + 2 * n + m * r \<le> tp" "q + m * r \<le> tp" using n top q by simp_all
  show "rd s' (q + (i * m + j)) = shiftx m (- int (2 * m div r * i)) (blk s (to + (2 * n + i * m))) j"
    if "i < r" "j < m"
  proof -
    have "rd s' (q + (i * m + j)) = shiftx m (int (3 * m - 2 * m div r * i)) (blk s (to + 2 * n + i * m)) j"
      by (rule L(1) [OF _ c b that]) simp
    also have "\<dots> = shiftx m (- int (2 * m div r * i)) (blk s (to + 2 * n + i * m)) j"
      by (rule shiftx_back) (use that div_mult_bound [OF that(1), of 2 m] in auto)
    finally show ?thesis by (simp add: add.assoc)
  qed
  show "rd s' x = rd s x" if "x < tp" "x < q \<or> q + n \<le> x"
    by (rule L(2) [OF _ c b that(1)]) (use that(2) n in auto)
  show "tmp s' = tmp s"
    by (rule L(3) [OF _ c b]) simp
qed

lemma conj_loop_rd:
  assumes "p + a + m \<le> q + a \<or> q + a + m \<le> p + a" and "k \<le> m"
  shows "rd (fold (\<lambda>j s. wr (q + (a + j)) (conjT (rd (wr (p + (a + j)) (conjT (rd s (p + (a + j)))) s) (q + (a + j))))
                           (wr (p + (a + j)) (conjT (rd s (p + (a + j)))) s)) [0..<k] s) x
         = (if (p + a \<le> x \<and> x < p + a + k) \<or> (q + a \<le> x \<and> x < q + a + k)
            then conjT (rd s x) else rd s x)"
  using assms(2)
proof (induction k arbitrary: x)
  case 0
  then show ?case by auto
next
  case (Suc k)
  let ?f = "\<lambda>j s. wr (q + (a + j)) (conjT (rd (wr (p + (a + j)) (conjT (rd s (p + (a + j)))) s) (q + (a + j))))
                           (wr (p + (a + j)) (conjT (rd s (p + (a + j)))) s)"
  define sk where "sk = fold ?f [0..<k] s"
  have IH: "rd sk x = (if (p + a \<le> x \<and> x < p + a + k) \<or> (q + a \<le> x \<and> x < q + a + k)
            then conjT (rd s x) else rd s x)" for x
    unfolding sk_def using Suc by simp
  have k: "k < m" using Suc by simp
  have "fold ?f [0..<Suc k] s = ?f k sk" by (simp add: sk_def)
  then show ?case
    using assms(1) k by (auto simp add: IH)
qed

lemma mul_conj_twiddle_in_body:
  fixes s :: conv64
  assumes i: "i < r" and n: "n = m * r" and p: "p + n \<le> to" and q: "q + n \<le> to"
    and pq: "p + n \<le> q \<or> q + n \<le> p"
  defines "sa \<equiv> fold (\<lambda>j s. let s = wr (p + (m * i + j)) (conjT (rd s (p + (m * i + j)))) s
                         in wr (q + (m * i + j)) (conjT (rd s (q + (m * i + j)))) s) [0..<m] s"
  defines "s' \<equiv> twiddle (q + m * i) m (2 * m div r * i) (p + m * i)
                   (twiddle (p + m * i) m (2 * m div r * i) (to + m * i) sa)"
  shows "j < m \<Longrightarrow> rd s' (to + (i * m + j))
            = shiftx m (int (2 * m div r * i)) (\<lambda>j. conjT (blk s (p + i * m) j)) j"
    and "j < m \<Longrightarrow> rd s' (p + (i * m + j))
            = shiftx m (int (2 * m div r * i)) (\<lambda>j. conjT (blk s (q + i * m) j)) j"
    and "j < m \<Longrightarrow> rd s' (q + (i * m + j)) = conjT (rd s (q + (i * m + j)))"
    and "x \<notin> blocks {p, q, to} m i \<Longrightarrow> rd s' x = rd s x"
proof -
  have b: "i * m + m \<le> n" unfolding n using i by (rule blk_bound)
  have t: "2 * m div r * i \<le> 3 * m" using div_mult_bound [OF i, of 2 m] by simp
  let ?t = "2 * m div r * i"
  let ?s1 = "twiddle (p + m * i) m ?t (to + m * i) sa"
  have d0: "p + m * i + m \<le> q + m * i \<or> q + m * i + m \<le> p + m * i" using pq b by auto
  have d1: "p + m * i + m \<le> to + m * i \<or> to + m * i + m \<le> p + m * i" using p b by simp
  have d2: "q + m * i + m \<le> p + m * i \<or> p + m * i + m \<le> q + m * i" using pq b by auto
  have sa: "rd sa x = (if (p + m * i \<le> x \<and> x < p + m * i + m) \<or> (q + m * i \<le> x \<and> x < q + m * i + m)
            then conjT (rd s x) else rd s x)" for x
    unfolding sa_def Let_def by (rule conj_loop_rd [OF d0 order_refl])
  have bp: "blk sa (p + m * i) j = conjT (blk s (p + i * m) j)" if "j < m" for j
    using that by (simp add: blk_def sa mult.commute)
  have bq: "blk sa (q + m * i) j = conjT (blk s (q + i * m) j)" if "j < m" for j
    using that by (simp add: blk_def sa mult.commute)
  have bq1: "blk ?s1 (q + m * i) j = conjT (blk s (q + i * m) j)" if "j < m" for j
  proof -
    have "rd ?s1 (q + m * i + j) = rd sa (q + m * i + j)"
      by (rule twiddle_rd_out [OF t d1]) (use that q b in \<open>simp add: mult.commute\<close>)
    then show ?thesis using bq [OF that] by (simp add: blk_def)
  qed
  show "rd s' (to + (i * m + j)) = shiftx m (int ?t) (\<lambda>j. conjT (blk s (p + i * m) j)) j" if "j < m"
  proof -
    have m: "0 < m" using that by simp
    have "rd s' (to + (i * m + j)) = rd ?s1 (to + (i * m + j))"
      unfolding s'_def by (rule twiddle_rd_out [OF t d2]) (use that p b in \<open>simp add: mult.commute\<close>)
    also have "\<dots> = rd ?s1 (to + m * i + j)" by (simp add: mult.commute add.assoc)
    also have "\<dots> = shiftx m (int ?t) (blk sa (p + m * i)) j"
      by (rule twiddle_rd_in [OF t d1 that])
    also have "\<dots> = shiftx m (int ?t) (\<lambda>j. conjT (blk s (p + i * m) j)) j"
      by (rule shiftx_cong [OF _ m]) (rule bp)
    finally show ?thesis .
  qed
  show "rd s' (p + (i * m + j)) = shiftx m (int ?t) (\<lambda>j. conjT (blk s (q + i * m) j)) j" if "j < m"
  proof -
    have m: "0 < m" using that by simp
    have "rd s' (p + (i * m + j)) = rd s' (p + m * i + j)" by (simp add: mult.commute add.assoc)
    also have "\<dots> = shiftx m (int ?t) (blk ?s1 (q + m * i)) j"
      unfolding s'_def by (rule twiddle_rd_in [OF t d2 that])
    also have "\<dots> = shiftx m (int ?t) (\<lambda>j. conjT (blk s (q + i * m) j)) j"
      by (rule shiftx_cong [OF _ m]) (rule bq1)
    finally show ?thesis .
  qed
  show "rd s' (q + (i * m + j)) = conjT (rd s (q + (i * m + j)))" if "j < m"
  proof -
    have "rd s' (q + (i * m + j)) = rd ?s1 (q + (i * m + j))"
      unfolding s'_def by (rule twiddle_rd_out [OF t d2]) (use that pq b in \<open>auto simp add: mult.commute\<close>)
    also have "\<dots> = rd sa (q + (i * m + j))"
      by (rule twiddle_rd_out [OF t d1]) (use that q b in \<open>simp add: mult.commute\<close>)
    also have "\<dots> = conjT (rd s (q + (i * m + j)))"
      using that by (simp add: sa mult.commute)
    finally show ?thesis .
  qed
  show "rd s' x = rd s x" if "x \<notin> blocks {p, q, to} m i"
  proof -
    have x: "x < to + i * m \<or> to + i * m + m \<le> x" "x < p + i * m \<or> p + i * m + m \<le> x"
      "x < q + i * m \<or> q + i * m + m \<le> x"
      using that by (auto simp: blocks_def)
    have "rd s' x = rd ?s1 x"
      unfolding s'_def by (rule twiddle_rd_out [OF t d2]) (use x in \<open>simp add: mult.commute add.assoc\<close>)
    also have "\<dots> = rd sa x"
      by (rule twiddle_rd_out [OF t d1]) (use x in \<open>simp add: mult.commute add.assoc\<close>)
    also have "\<dots> = rd s x"
      using x by (auto simp add: sa mult.commute)
    finally show ?thesis .
  qed
qed


lemma mul_conj_twiddle_in_rd:
  assumes tp: "tmp s = tp" and n: "n = m * r" and p: "p + n \<le> to" and q: "q + n \<le> to"
    and pq: "p + n \<le> q \<or> q + n \<le> p" and top: "to + n \<le> tp"
  defines "s' \<equiv> mul_conj_twiddle_in p q m r to s"
  shows "i < r \<Longrightarrow> j < m \<Longrightarrow> rd s' (to + (i * m + j))
            = shiftx m (int (2 * m div r * i)) (\<lambda>j. conjT (blk s (p + i * m) j)) j"
    and "i < r \<Longrightarrow> j < m \<Longrightarrow> rd s' (p + (i * m + j))
            = shiftx m (int (2 * m div r * i)) (\<lambda>j. conjT (blk s (q + i * m) j)) j"
    and "i < r \<Longrightarrow> j < m \<Longrightarrow> rd s' (q + (i * m + j)) = conjT (rd s (q + (i * m + j)))"
    and "x < tp \<Longrightarrow> x < p \<or> p + n \<le> x \<Longrightarrow> x < q \<or> q + n \<le> x \<Longrightarrow> x < to \<or> to + n \<le> x
           \<Longrightarrow> rd s' x = rd s x"
    and "tmp s' = tmp s"
proof -
  let ?B = "\<lambda>i s. twiddle (q + m * i) m (2 * m div r * i) (p + m * i)
                   (twiddle (p + m * i) m (2 * m div r * i) (to + m * i)
                      (fold (\<lambda>j s. let s = wr (p + (m * i + j)) (conjT (rd s (p + (m * i + j)))) s
                         in wr (q + (m * i + j)) (conjT (rd s (q + (m * i + j)))) s) [0..<m] s))"
  let ?bases = "{p, q, to}"
  have s': "s' = fold ?B [0..<r] s"
    unfolding s'_def mul_conj_twiddle_in_def Let_def by (rule refl)
  note R = mul_conj_twiddle_in_body [OF _ n p q pq]
  have tmpc: "tmp (?B i s) = tmp s" for i s
    by (simp add: tmp_fold Let_def)
  have frame: "rd (?B i s) x = rd s x" if "i < r" "x \<notin> blocks ?bases m i" for i s x
    by (rule R(4) [OF that])
  have det: "rd (?B i s2) x = rd (?B i s1) x"
    if i: "i < r" and ag: "\<forall>y\<in>blocks ?bases m i \<union> {}. rd s2 y = rd s1 y" and x: "x \<in> blocks ?bases m i"
    for i s1 s2 x
  proof -
    have e: "blk s2 (c + i * m) j = blk s1 (c + i * m) j" if "j < m" "c \<in> ?bases" for j c
      using ag blocksI [OF that(2,1), of i] by (simp add: blk_def)
    from x obtain c j where c: "c \<in> ?bases" "j < m" "x = c + i * m + j" by (rule blocksE)
    have m: "0 < m" using c(2) by simp
    have pqd: "p \<noteq> q" using pq n i m by auto
    have pto: "to \<noteq> p" "to \<noteq> q" using p q n i m by auto
    from c(1) consider "c = to" | "c = p" | "c = q" by auto
    then show ?thesis
    proof cases
      case 1
      then have x: "x = to + (i * m + j)" using c by simp
      show ?thesis unfolding x R(1) [OF i c(2)]
        by (rule shiftx_cong [OF _ m]) (simp add: e)
    next
      case 2
      then have x: "x = p + (i * m + j)" using c by simp
      show ?thesis unfolding x R(2) [OF i c(2)]
        by (rule shiftx_cong [OF _ m]) (simp add: e)
    next
      case 3
      then have x: "x = q + (i * m + j)" using c by simp
      show ?thesis unfolding x R(3) [OF i c(2)]
        using e [OF c(2), of q] by (simp add: blk_def add.assoc)
    qed
  qed
  have sep: "c + m * r \<le> c' \<or> c' + m * r \<le> c" if "c \<in> ?bases" "c' \<in> ?bases" "c \<noteq> c'" for c c'
    using that p q pq unfolding n [symmetric] by auto
  have below: "c + m * r \<le> tp" if "c \<in> ?bases" for c
    using that top p q unfolding n [symmetric] by auto
  have E: "x < tp \<and> (\<forall>c\<in>?bases. \<not> (c \<le> x \<and> x < c + m * r))" if "x \<in> {}" for x :: nat
    using that by simp
  note L = block_loop [where bases = "?bases" and m = m and rr = r and tp = tp and E = "{}" and B = "?B"
      and s = s, OF sep below E tmpc frame det tp, folded s']
  have L1: "rd s' (c + i * m + j) = rd (?B i s) (c + i * m + j)" if "c \<in> ?bases" "i < r" "j < m" for c i j
    by (rule L(1)) (use that blocksI [OF that(1,3), of i] in auto)
  show "rd s' (to + (i * m + j)) = shiftx m (int (2 * m div r * i)) (\<lambda>j. conjT (blk s (p + i * m) j)) j"
    if "i < r" "j < m"
    using L1 [of to, OF _ that] R(1) [OF that] by (simp add: add.assoc)
  show "rd s' (p + (i * m + j)) = shiftx m (int (2 * m div r * i)) (\<lambda>j. conjT (blk s (q + i * m) j)) j"
    if "i < r" "j < m"
    using L1 [of p, OF _ that] R(2) [OF that] by (simp add: add.assoc)
  show "rd s' (q + (i * m + j)) = conjT (rd s (q + (i * m + j)))" if "i < r" "j < m"
    using L1 [of q, OF _ that] R(3) [OF that] by (simp add: add.assoc)
  show "rd s' x = rd s x" if "x < tp" "x < p \<or> p + n \<le> x" "x < q \<or> q + n \<le> x" "x < to \<or> to + n \<le> x"
    by (rule L(2)) (use that in \<open>auto simp flip: n\<close>)
  show "tmp s' = tmp s"
    unfolding s' by (rule tmp_fold) (rule tmpc)
qed

lemma scale_cells_rd:
  "rd (scale_cells p n c s) x = (if p \<le> x \<and> x < p + n then rd s x * c else rd s x)"
  unfolding scale_cells_def mul_assign_eq
  by (induction n arbitrary: x) auto

lemma scale_cells_tmp [simp]: "tmp (scale_cells p n c s) = tmp s"
  unfolding scale_cells_def by (rule tmp_fold) simp

section \<open>Loops that accumulate\<close>

text \<open>
  A loop in which iteration \<open>i\<close> adds \<open>c i x\<close> to the cell \<open>x\<close>, for a contribution \<open>c i\<close>
  that vanishes outside a set \<open>D\<close> of cells and is computed from cells outside \<open>D\<close> only.
\<close>

lemma fold_accumulate:
  fixes B :: "nat \<Rightarrow> conv64 \<Rightarrow> conv64"
  assumes body: "\<And>i s' x. a \<le> i \<Longrightarrow> i < b \<Longrightarrow> (\<forall>y. y \<notin> D \<longrightarrow> rd s' y = rd s y)
                   \<Longrightarrow> rd (B i s') x = rd s' x + c i x"
    and out: "\<And>i x. a \<le> i \<Longrightarrow> i < b \<Longrightarrow> x \<notin> D \<Longrightarrow> c i x = 0"
  shows "rd (fold B [a..<b] s) x = rd s x + (\<Sum>i = a..<b. c i x)"
proof -
  have "k \<le> b \<Longrightarrow> (\<forall>x. rd (fold B [a..<k] s) x = rd s x + (\<Sum>i = a..<k. c i x))" for k
  proof (induction k)
    case 0
    then show ?case by simp
  next
    case (Suc k)
    then have IH: "\<And>x. rd (fold B [a..<k] s) x = rd s x + (\<Sum>i = a..<k. c i x)" and k: "k < b"
      by simp_all
    show ?case
    proof (cases "a \<le> k")
      case False
      then show ?thesis by simp
    next
      case True
      have same: "\<forall>y. y \<notin> D \<longrightarrow> rd (fold B [a..<k] s) y = rd s y"
        using out k by (simp add: IH)
      have "rd (fold B [a..<Suc k] s) x = rd s x + (\<Sum>i = a..<Suc k. c i x)" for x
        using True body [OF True k same, of x] by (simp add: IH add.assoc)
      then show ?thesis by simp
    qed
  qed
  then show ?thesis by simp
qed

lemma wr_accumulate:
  "rd (wr d (add_assign (rd s d) v) s) x = rd s x + (if x = d then v else 0)"
  by simp


section \<open>The base case of mul\<close>

lemma ext_wrap:
  assumes "k < n" "i < n"
  shows "ext 1 n g (int k - int i) = (if i \<le> k then g (k - i) else OMEGA * g (k + n - i))"
proof (cases "i \<le> k")
  case True
  then have "int k - int i = int (k - i)" by simp
  moreover have "k - i < n" using assms by simp
  ultimately show ?thesis using True by (simp del: of_nat_diff)
next
  case False
  have n: "0 < n" using assms by simp
  have e: "int k - int i = int (k + n - i) + int n * (- 1)" using False assms by simp
  have "ext 1 n g (int k - int i) = wpow (- 1 * (- 1)) * ext 1 n g (int (k + n - i))"
    unfolding e by (rule ext_period [OF n])
  also have "\<dots> = OMEGA * g (k + n - i)" using False assms by (simp del: of_nat_diff)
  finally show ?thesis using False by simp
qed

lemma mul_base_rd:
  fixes s :: conv64
  assumes p: "p + n \<le> to" and q: "q + n \<le> to"
  defines "s' \<equiv> mul_base p q n to s"
  shows "k < n \<Longrightarrow> rd s' (to + k) = cmul 1 n (blk s p) (blk s q) k"
    and "x < to \<or> to + n \<le> x \<Longrightarrow> rd s' x = rd s x"
proof -
  define D where "D = {x. to \<le> x \<and> x < to + n}"
  define s0 where "s0 = fold (\<lambda>i s. wr (to + i) 0 s) [0..<n] s"
  define c1 where "c1 i j x = (if x = to + (i + j) then rd s (p + i) * rd s (q + j) else 0)" for i j x
  define c2 where "c2 i j x = (if x = to + (i + j - n) then rd s (p + i) * rd s (q + j) * OMEGA else 0)"
    for i j x
  define c where "c i x = (\<Sum>j = 0..<n - i. c1 i j x) + (\<Sum>j = n - i..<n. c2 i j x)" for i x
  let ?B1 = "\<lambda>i j s. wr (to + (i + j)) (add_assign (rd s (to + (i + j))) (rd s (p + i) * rd s (q + j))) s"
  let ?B2 = "\<lambda>i j s. wr (to + (i + j - n))
                        (add_assign (rd s (to + (i + j - n))) (rd s (p + i) * rd s (q + j) * OMEGA)) s"
  let ?B = "\<lambda>i s. fold (?B2 i) [n - i..<n] (fold (?B1 i) [0..<n - i] s)"
  have s': "s' = fold ?B [0..<n] s0"
    unfolding s'_def mul_base_def s0_def Let_def by (rule refl)
  have s0: "rd s0 x = (if to \<le> x \<and> x < to + n then 0 else rd s x)" for x
    unfolding s0_def by (rule rd_fill)
  have pD: "p + i \<notin> D" "q + i \<notin> D" if "i < n" for i
    using that p q by (auto simp: D_def)
  have inner1: "rd (fold (?B1 i) [0..<n - i] t) x = rd t x + (\<Sum>j = 0..<n - i. c1 i j x)"
    if i: "i < n" and t: "\<forall>y. y \<notin> D \<longrightarrow> rd t y = rd s y" for i t x
  proof (rule fold_accumulate [where D = D])
    fix j t' x
    assume j: "0 \<le> j" "j < n - i" and t': "\<forall>y. y \<notin> D \<longrightarrow> rd t' y = rd t y"
    have "rd t' (p + i) = rd s (p + i)" "rd t' (q + j) = rd s (q + j)"
      using t t' pD [OF i] pD(2) [of j] j by simp_all
    then show "rd (?B1 i j t') x = rd t' x + c1 i j x"
      by (simp add: c1_def)
  next
    fix j x
    assume "0 \<le> j" "j < n - i" "x \<notin> D"
    then show "c1 i j x = 0" by (auto simp: c1_def D_def)
  qed
  have inner2: "rd (fold (?B2 i) [n - i..<n] t) x = rd t x + (\<Sum>j = n - i..<n. c2 i j x)"
    if i: "i < n" and t: "\<forall>y. y \<notin> D \<longrightarrow> rd t y = rd s y" for i t x
  proof (rule fold_accumulate [where D = D])
    fix j t' x
    assume j: "n - i \<le> j" "j < n" and t': "\<forall>y. y \<notin> D \<longrightarrow> rd t' y = rd t y"
    have "rd t' (p + i) = rd s (p + i)" "rd t' (q + j) = rd s (q + j)"
      using t t' pD [OF i] pD(2) [of j] j by simp_all
    then show "rd (?B2 i j t') x = rd t' x + c2 i j x"
      by (simp add: c2_def)
  next
    fix j x
    assume "n - i \<le> j" "j < n" "x \<notin> D"
    then show "c2 i j x = 0" using i by (auto simp: c2_def D_def)
  qed
  have c1out: "c1 i j x = 0" if "x \<notin> D" "j < n - i" for i j x
    using that by (auto simp: c1_def D_def)
  have c2out: "c2 i j x = 0" if "x \<notin> D" "n - i \<le> j" "j < n" "i < n" for i j x
    using that by (auto simp: c2_def D_def)
  have cout: "c i x = 0" if "x \<notin> D" "i < n" for i x
    unfolding c_def using c1out [OF that(1)] c2out [OF that(1) _ _ that(2)] by simp
  have outer: "rd s' x = rd s0 x + (\<Sum>i = 0..<n. c i x)" for x
    unfolding s'
  proof (rule fold_accumulate [where D = D])
    fix i t x
    assume i: "0 \<le> i" "i < n" and t: "\<forall>y. y \<notin> D \<longrightarrow> rd t y = rd s0 y"
    have ts: "\<forall>y. y \<notin> D \<longrightarrow> rd t y = rd s y"
      using t by (auto simp: s0 D_def)
    have t1: "\<forall>y. y \<notin> D \<longrightarrow> rd (fold (?B1 i) [0..<n - i] t) y = rd s y"
      unfolding inner1 [OF i(2) ts] using ts c1out by simp
    show "rd (?B i t) x = rd t x + c i x"
      unfolding inner2 [OF i(2) t1] inner1 [OF i(2) ts] c_def by (simp add: add.assoc)
  next
    fix i x
    assume "0 \<le> i" "i < n" "x \<notin> D"
    then show "c i x = 0" using cout by simp
  qed
  show "rd s' x = rd s x" if "x < to \<or> to + n \<le> x"
  proof -
    have "x \<notin> D" using that by (auto simp: D_def)
    then have "(\<Sum>i = 0..<n. c i x) = 0" using cout by simp
    then show ?thesis using that by (auto simp add: outer s0)
  qed
  show "rd s' (to + k) = cmul 1 n (blk s p) (blk s q) k" if k: "k < n"
  proof -
    have ci: "c i (to + k) = blk s p i * ext 1 n (blk s q) (int k - int i)" if i: "i < n" for i
    proof (cases "i \<le> k")
      case True
      have "(\<Sum>j = 0..<n - i. c1 i j (to + k))
          = (\<Sum>j = 0..<n - i. if j = k - i then rd s (p + i) * rd s (q + j) else 0)"
        by (rule sum.cong [OF refl]) (use True in \<open>auto simp: c1_def\<close>)
      also have "\<dots> = rd s (p + i) * rd s (q + (k - i))"
      proof -
        have "k - i < n - i" using True k by arith
        then show ?thesis by (simp add: sum.delta)
      qed
      finally have 1: "(\<Sum>j = 0..<n - i. c1 i j (to + k)) = rd s (p + i) * rd s (q + (k - i))" .
      have "(\<Sum>j = n - i..<n. c2 i j (to + k)) = (\<Sum>j = n - i..<n. 0)"
        by (rule sum.cong [OF refl]) (use True k i in \<open>auto simp: c2_def\<close>)
      then have 2: "(\<Sum>j = n - i..<n. c2 i j (to + k)) = 0" by simp
      show ?thesis
        unfolding c_def 1 2 ext_wrap [OF k i] using True by (simp add: blk_def)
    next
      case False
      have "(\<Sum>j = 0..<n - i. c1 i j (to + k)) = (\<Sum>j = 0..<n - i. 0)"
        by (rule sum.cong [OF refl]) (use False in \<open>auto simp: c1_def\<close>)
      then have 1: "(\<Sum>j = 0..<n - i. c1 i j (to + k)) = 0" by simp
      have "(\<Sum>j = n - i..<n. c2 i j (to + k))
          = (\<Sum>j = n - i..<n. if j = k + n - i then rd s (p + i) * rd s (q + j) * OMEGA else 0)"
        by (rule sum.cong [OF refl]) (use False i in \<open>auto simp: c2_def\<close>)
      also have "\<dots> = rd s (p + i) * rd s (q + (k + n - i)) * OMEGA"
      proof -
        have "n - i \<le> k + n - i" "k + n - i < n" using False k i by arith+
        then show ?thesis by (simp add: sum.delta)
      qed
      finally have 2: "(\<Sum>j = n - i..<n. c2 i j (to + k)) = rd s (p + i) * rd s (q + (k + n - i)) * OMEGA" .
      show ?thesis
        unfolding c_def 1 2 ext_wrap [OF k i] using False by (simp add: blk_def mult.assoc mult.commute)
    qed
    have "rd s' (to + k) = (\<Sum>i = 0..<n. c i (to + k))"
      using k by (simp add: outer s0)
    also have "\<dots> = (\<Sum>i = 0..<n. blk s p i * ext 1 n (blk s q) (int k - int i))"
      by (rule sum.cong [OF refl]) (simp add: ci)
    finally show ?thesis by (simp add: cmul_def atLeast0LessThan)
  qed
qed

lemma mul_base_tmp [simp]: "tmp (mul_base p q n to s) = tmp s"
  unfolding mul_base_def Let_def by (simp add: tmp_fold)

section \<open>Products in the variable y\<close>

lemma yprod_cong:
  assumes "\<And>a j. a < r \<Longrightarrow> j < m \<Longrightarrow> F a j = F' a j"
    and "\<And>a j. a < r \<Longrightarrow> j < m \<Longrightarrow> G a j = G' a j" and "0 < m" and "0 < r"
  shows "yprod ey m r F G c j = yprod ey m r F' G' c j"
  unfolding yprod_def
proof (rule sum.cong [OF refl])
  fix a assume "a \<in> {..<r}"
  then have a: "a < r" by simp
  have b: "nat ((int c - int a) mod int r) < r"
    using assms(4) by (simp add: nat_less_iff)
  have "cmul 1 m (F a) (G (nat ((int c - int a) mod int r))) j
      = cmul 1 m (F' a) (G' (nat ((int c - int a) mod int r))) j"
    by (rule cmul_cong) (use assms a b in auto)
  then show "wpow (- ey * ((int c - int a) div int r)) * cmul 1 m (F a) (G (nat ((int c - int a) mod int r))) j
      = wpow (- ey * ((int c - int a) div int r)) * cmul 1 m (F' a) (G' (nat ((int c - int a) mod int r))) j"
    by simp
qed

text \<open>
  Substituting \<open>x^t * y\<close> for \<open>y\<close>, where \<open>(x^t)^r = x^(ey * m) = omega^ey\<close>, turns a product
  modulo \<open>y^r - 1\<close> into one modulo \<open>y^r - omega^ey\<close>.
\<close>

lemma yprod_twist:
  fixes t :: nat
  assumes m: "0 < m" and r: "0 < r" and t: "int t * int r = ey * int m" and j: "j < m"
  shows "shiftx m (- int (t * c))
           (yprod 0 m r (\<lambda>a. shiftx m (int (t * a)) (F a)) (\<lambda>b. shiftx m (int (t * b)) (G b)) c) j
         = yprod ey m r F G c j"
proof -
  let ?d = "\<lambda>a. (int c - int a) div int r"
  let ?b = "\<lambda>a. nat ((int c - int a) mod int r)"
  let ?C = "\<lambda>a. cmul 1 m (F a) (G (?b a))"
  have y0: "yprod 0 m r (\<lambda>a. shiftx m (int (t * a)) (F a)) (\<lambda>b. shiftx m (int (t * b)) (G b)) c
          = (\<lambda>j. \<Sum>a<r. shiftx m (int (t * a) + int (t * ?b a)) (?C a) j)"
    unfolding yprod_def by (rule ext) (simp add: cmul_shiftx [OF m])
  have tm: "shiftx m (- int (t * c)) (shiftx m (int (t * a) + int (t * ?b a)) (?C a)) j
            = wpow (- ey * ?d a) * ?C a j" for a
  proof -
    have b: "int (?b a) = (int c - int a) mod int r" using r by simp
    have "int c - int a = int r * ?d a + int (?b a)" unfolding b by simp
    then have c: "int c = int a + int r * ?d a + int (?b a)" by simp
    have "- int (t * c) + (int (t * a) + int (t * ?b a))
        = - (int t * (int a + int r * ?d a + int (?b a))) + (int t * int a + int t * int (?b a))"
      by (simp only: of_nat_mult c [symmetric])
    also have "\<dots> = - (int t * int r) * ?d a"
      by (simp only: distrib_left mult.assoc) simp
    also have "\<dots> = 0 + int m * (- ey * ?d a)" unfolding t by simp
    finally have e: "- int (t * c) + (int (t * a) + int (t * ?b a)) = 0 + int m * (- ey * ?d a)" .
    have "shiftx m 0 (?C a) j = ?C a j" using j by (rule shiftx_0)
    then show ?thesis
      unfolding shiftx_shiftx [OF m] e shiftx_period [OF m] by (simp only:)
  qed
  show ?thesis
    unfolding y0 shiftx_sum tm yprod_def by (rule refl)
qed

section \<open>Recombination of the two products\<close>

lemma ext_wrap_gen:
  assumes "k < n" "i < n"
  shows "ext e n g (int k - int i) = (if i \<le> k then g (k - i) else wpow e * g (k + n - i))"
proof (cases "i \<le> k")
  case True
  then have "int k - int i = int (k - i)" by simp
  moreover have "k - i < n" using assms by simp
  ultimately show ?thesis using True by (simp del: of_nat_diff)
next
  case False
  have n: "0 < n" using assms by simp
  have e: "int k - int i = int (k + n - i) + int n * (- 1)" using False assms by simp
  have "ext e n g (int k - int i) = wpow (- e * (- 1)) * ext e n g (int (k + n - i))"
    unfolding e by (rule ext_period [OF n])
  also have "\<dots> = wpow e * g (k + n - i)" using False assms by (simp del: of_nat_diff)
  finally show ?thesis using False by simp
qed

lemma cmul_low_high:
  assumes "j < m"
  shows "cmul e m f g j = low_part m f g j + wpow e * high_part m f g j"
proof -
  have "cmul e m f g j = (\<Sum>i<m. (if i \<le> j then f i * g (j - i) else 0)
                              + wpow e * (if i \<le> j then 0 else f i * g (j + m - i)))"
    unfolding cmul_def
    by (rule sum.cong [OF refl]) (simp add: ext_wrap_gen [OF assms] mult.left_commute)
  then show ?thesis
    by (simp only: sum.distrib sum_distrib_left low_part_def high_part_def)
qed

lemma crt_coefficients:
  "(1 - OMEGA) * (l + OMEGA * h) + (1 - OMEGA2) * (l + OMEGA2 * h) = 3 * l"
  "(OMEGA2 - OMEGA) * ((l + OMEGA * h) - (l + OMEGA2 * h)) = 3 * h"
  "(1 - OMEGA2) * ((l + OMEGA * h) - (l + OMEGA2 * h)) = OMEGA * (3 * h)"
proof -
  obtain a b where l: "l = T a b" by (cases l)
  obtain c d where h: "h = T c d" by (cases h)
  have three: "(3::T) = 1 + 1 + 1" by simp
  show "(1 - OMEGA) * (l + OMEGA * h) + (1 - OMEGA2) * (l + OMEGA2 * h) = 3 * l"
    unfolding three l h
    by (simp add: OMEGA_def OMEGA2_def times_T_def plus_T_def minus_T_def one_T_def algebra_simps)
  show "(OMEGA2 - OMEGA) * ((l + OMEGA * h) - (l + OMEGA2 * h)) = 3 * h"
    unfolding three l h
    by (simp add: OMEGA_def OMEGA2_def times_T_def plus_T_def minus_T_def one_T_def algebra_simps)
  show "(1 - OMEGA2) * ((l + OMEGA * h) - (l + OMEGA2 * h)) = OMEGA * (3 * h)"
    unfolding three l h
    by (simp add: OMEGA_def OMEGA2_def times_T_def plus_T_def minus_T_def one_T_def algebra_simps)
qed


lemma yprod_low_high:
  assumes "j < m"
  shows "yprod ey m r F G c j = ylow ey m r F G (int c) j + OMEGA * yhigh ey m r F G (int c) j"
  unfolding yprod_def ylow_def yhigh_def cmul_low_high [OF assms]
  by (simp add: sum.distrib sum_distrib_left distrib_left mult.left_commute)

lemma conjT_low_part:
  "conjT (low_part m f g j) = low_part m (\<lambda>i. conjT (f i)) (\<lambda>i. conjT (g i)) j"
  unfolding low_part_def conjT_sum
  by (rule sum.cong [OF refl]) (simp add: conjT_mult)

lemma conjT_high_part:
  "conjT (high_part m f g j) = high_part m (\<lambda>i. conjT (f i)) (\<lambda>i. conjT (g i)) j"
  unfolding high_part_def conjT_sum
  by (rule sum.cong [OF refl]) (simp add: conjT_mult)

lemma conjT_yprod:
  assumes "j < m"
  shows "conjT (yprod ey m r F G c j)
         = ylow (- ey) m r (\<lambda>a i. conjT (F a i)) (\<lambda>a i. conjT (G a i)) (int c) j
           + OMEGA2 * yhigh (- ey) m r (\<lambda>a i. conjT (F a i)) (\<lambda>a i. conjT (G a i)) (int c) j"
  unfolding yprod_low_high [OF assms] conjT_add conjT_mult ylow_def yhigh_def conjT_sum
    conjT_wpow conjT_low_part conjT_high_part
  by simp

lemma ylow_minus2: "ylow (- 2) m r F G C j = ylow 1 m r F G C j"
  unfolding ylow_def
proof (rule sum.cong [OF refl])
  fix a
  have "wpow (- (- 2) * ((C - int a) div int r)) = wpow (- 1 * ((C - int a) div int r))"
    using wpow_double [of "(C - int a) div int r"] by simp
  then show "wpow (- (- 2) * ((C - int a) div int r)) * low_part m (F a) (G (nat ((C - int a) mod int r))) j
           = wpow (- 1 * ((C - int a) div int r)) * low_part m (F a) (G (nat ((C - int a) mod int r))) j"
    by simp
qed

lemma yhigh_minus2: "yhigh (- 2) m r F G C j = yhigh 1 m r F G C j"
  unfolding yhigh_def
proof (rule sum.cong [OF refl])
  fix a
  have "wpow (- (- 2) * ((C - int a) div int r)) = wpow (- 1 * ((C - int a) div int r))"
    using wpow_double [of "(C - int a) div int r"] by simp
  then show "wpow (- (- 2) * ((C - int a) div int r)) * high_part m (F a) (G (nat ((C - int a) mod int r))) j
           = wpow (- 1 * ((C - int a) div int r)) * high_part m (F a) (G (nat ((C - int a) mod int r))) j"
    by simp
qed

lemma yhigh_wrap:
  assumes r: "0 < r"
  shows "yhigh ey m r F G (C - int r) j = wpow ey * yhigh ey m r F G C j"
  unfolding yhigh_def sum_distrib_left
proof (rule sum.cong [OF refl])
  fix a
  have e: "C - int r - int a = (C - int a) + int r * (- 1)" by simp
  have d: "(C - int r - int a) div int r = (C - int a) div int r - 1"
    unfolding e using r by (simp only: div_mult_self2)
  have md: "(C - int r - int a) mod int r = (C - int a) mod int r"
    unfolding e by (simp only: mod_mult_self2)
  have "wpow (- ey * ((C - int a) div int r - 1)) = wpow ey * wpow (- ey * ((C - int a) div int r))"
    using wpow_add [of ey "- ey * ((C - int a) div int r)"] by (simp add: algebra_simps)
  then show "wpow (- ey * ((C - int r - int a) div int r))
             * high_part m (F a) (G (nat ((C - int r - int a) mod int r))) j
           = wpow ey * (wpow (- ey * ((C - int a) div int r))
             * high_part m (F a) (G (nat ((C - int a) mod int r))) j)"
    unfolding d md by (simp add: mult.assoc)
qed


lemma sum_blocks:
  fixes h :: "nat \<Rightarrow> 'a::comm_monoid_add"
  shows "(\<Sum>i<m * r. h i) = (\<Sum>a<r. \<Sum>i<m. h (a * m + i))"
proof (induction r)
  case 0
  then show ?case by simp
next
  case (Suc r)
  have "m * Suc r = m * r + m" by simp
  then have "(\<Sum>i<m * Suc r. h i) = sum h {0..<m * r} + sum h {m * r..<m * r + m}"
    by (simp only: lessThan_atLeast0) (simp add: sum.atLeastLessThan_concat)
  also have "sum h {m * r..<m * r + m} = (\<Sum>i = 0..<m. h (i + m * r))"
    using sum.shift_bounds_nat_ivl [of h 0 "m * r" m] by (simp add: add.commute)
  finally show ?case
    using Suc by (simp add: lessThan_atLeast0 add.commute mult.commute)
qed

lemma ext_block:
  assumes m: "0 < m" and r: "0 < r" and J: "J < m"
  shows "ext ey (m * r) g (C * int m + int J)
         = wpow (- ey * (C div int r)) * g (nat (C mod int r) * m + J)"
proof -
  define b where "b = nat (C mod int r)"
  have b: "b < r" "int b = C mod int r" using r by (simp_all add: b_def nat_less_iff)
  have bound: "b * m + J < m * r" using blk_bound [OF b(1), of m] J by simp
  have "C = (C div int r) * int r + int b" unfolding b(2) by simp
  then have "C * int m + int J = ((C div int r) * int r + int b) * int m + int J" by simp
  also have "\<dots> = (C div int r) * int (m * r) + int (b * m + J)"
    by (simp add: algebra_simps)
  finally have e: "C * int m + int J = (C div int r) * int (m * r) + int (b * m + J)" .
  have 0: "0 \<le> int (b * m + J)" "int (b * m + J) < int (m * r)"
    using bound by (simp_all only: of_nat_0_le_iff of_nat_less_iff)
  have n: "nat (int (b * m + J)) = b * m + J" by (rule nat_int)
  show ?thesis
    unfolding ext_def e int_div_mod_unique [OF 0] b_def [symmetric] n by simp
qed

lemma cmul_blocks:
  assumes m: "0 < m" and r: "0 < r" and c: "c < r" and j: "j < m"
  shows "cmul ey (m * r) f g (c * m + j)
         = ylow ey m r (\<lambda>a i. f (a * m + i)) (\<lambda>b i. g (b * m + i)) (int c) j
           + yhigh ey m r (\<lambda>a i. f (a * m + i)) (\<lambda>b i. g (b * m + i)) (int c - 1) j"
proof -
  let ?d1 = "\<lambda>a. (int c - int a) div int r" and ?b1 = "\<lambda>a. nat ((int c - int a) mod int r)"
  let ?d2 = "\<lambda>a. (int c - 1 - int a) div int r" and ?b2 = "\<lambda>a. nat ((int c - 1 - int a) mod int r)"
  have tm: "f (a * m + i) * ext ey (m * r) g (int (c * m + j) - int (a * m + i))
          = wpow (- ey * ?d1 a) * (if i \<le> j then f (a * m + i) * g (?b1 a * m + (j - i)) else 0)
            + wpow (- ey * ?d2 a) * (if i \<le> j then 0 else f (a * m + i) * g (?b2 a * m + (j + m - i)))"
    if i: "i < m" for a i
  proof (cases "i \<le> j")
    case True
    have "int (c * m + j) - int (a * m + i) = (int c - int a) * int m + int (j - i)"
      using True by (simp add: algebra_simps of_nat_diff)
    moreover have "j - i < m" using j by simp
    ultimately show ?thesis
      using True by (simp only: ext_block [OF m r]) (simp add: mult.left_commute)
  next
    case False
    have "int (c * m + j) - int (a * m + i) = (int c - 1 - int a) * int m + int (j + m - i)"
      using False i by (simp add: algebra_simps of_nat_diff)
    moreover have "j + m - i < m" using False i by simp
    ultimately show ?thesis
      using False by (simp only: ext_block [OF m r]) (simp add: mult.left_commute)
  qed
  have "cmul ey (m * r) f g (c * m + j)
        = (\<Sum>a<r. \<Sum>i<m. f (a * m + i) * ext ey (m * r) g (int (c * m + j) - int (a * m + i)))"
    unfolding cmul_def by (rule sum_blocks)
  also have "\<dots> = (\<Sum>a<r. \<Sum>i<m.
            wpow (- ey * ?d1 a) * (if i \<le> j then f (a * m + i) * g (?b1 a * m + (j - i)) else 0)
            + wpow (- ey * ?d2 a) * (if i \<le> j then 0 else f (a * m + i) * g (?b2 a * m + (j + m - i))))"
    by (intro sum.cong refl tm) simp
  also have "\<dots> = (\<Sum>a<r. wpow (- ey * ?d1 a) * low_part m (\<lambda>i. f (a * m + i)) (\<lambda>i. g (?b1 a * m + i)) j)
                 + (\<Sum>a<r. wpow (- ey * ?d2 a) * high_part m (\<lambda>i. f (a * m + i)) (\<lambda>i. g (?b2 a * m + i)) j)"
    by (simp only: sum.distrib sum_distrib_left low_part_def high_part_def)
  finally show ?thesis
    by (simp only: ylow_def yhigh_def)
qed

section \<open>The recombination loops\<close>

lemma block_unique:
  fixes i j c k m :: nat
  assumes "i * m + j = c * m + k" "j < m" "k < m"
  shows "i = c \<and> j = k"
proof -
  have "(i * m + j) div m = i" "(i * m + j) mod m = j" using assms(2) by simp_all
  moreover have "(c * m + k) div m = c" "(c * m + k) mod m = k" using assms(3) by simp_all
  ultimately show ?thesis using assms(1) by simp
qed

lemma sum_delta2:
  fixes h :: "nat \<Rightarrow> nat \<Rightarrow> 'a::comm_monoid_add"
  assumes "c < r" "j < m"
  shows "(\<Sum>i<r. \<Sum>k<m. if k = j \<and> i = c then h i k else 0) = h c j"
proof -
  have "(\<Sum>i<r. \<Sum>k<m. if k = j \<and> i = c then h i k else 0)
      = (\<Sum>i<r. if i = c then (\<Sum>k<m. if k = j then h c k else 0) else 0)"
    by (rule sum.cong [OF refl]) simp
  also have "\<dots> = (\<Sum>k<m. if k = j then h c k else 0)"
    using assms(1) by (simp add: sum.delta)
  also have "\<dots> = h c j"
    using assms(2) by (simp add: sum.delta)
  finally show ?thesis .
qed

lemma wr2_accumulate:
  "rd (wr d2 (add_assign (rd (wr d1 (add_assign (rd t d1) v1) t) d2) v2)
         (wr d1 (add_assign (rd t d1) v1) t)) x
   = rd t x + ((if x = d1 then v1 else 0) + (if x = d2 then v2 else 0))"
  by simp

lemma crt_loop_rd:
  fixes s :: conv64 and w :: T
  assumes n: "n = m * r" and a: "a + n \<le> to \<or> to + n \<le> a" and b: "b + n \<le> to \<or> to + n \<le> b"
  defines "s' \<equiv> fold (\<lambda>i s. fold (\<lambda>j s.
            let s = wr (to + (i * m + j))
                      (add_assign (rd s (to + (i * m + j)))
                         ((1 - OMEGA) * rd s (a + (i * m + j))
                            + (1 - OMEGA2) * conjT (rd s (b + (i * m + j))))) s
            in if i * m + m + j < n then
                 wr (to + (i * m + m + j))
                   (add_assign (rd s (to + (i * m + m + j)))
                      ((OMEGA2 - OMEGA)
                         * (rd s (a + (i * m + j)) - conjT (rd s (b + (i * m + j)))))) s
               else
                 wr (to + (i * m + m + j - n))
                   (add_assign (rd s (to + (i * m + m + j - n)))
                      (w * (rd s (a + (i * m + j)) - conjT (rd s (b + (i * m + j)))))) s)
          [0..<m] s)
        [0..<r] (fold (\<lambda>i s. wr (to + i) 0 s) [0..<n] s)"
  shows "c < r \<Longrightarrow> j < m \<Longrightarrow> rd s' (to + (c * m + j))
           = (1 - OMEGA) * rd s (a + (c * m + j)) + (1 - OMEGA2) * conjT (rd s (b + (c * m + j)))
             + (if c = 0
                then w * (rd s (a + ((r - 1) * m + j)) - conjT (rd s (b + ((r - 1) * m + j))))
                else (OMEGA2 - OMEGA)
                       * (rd s (a + ((c - 1) * m + j)) - conjT (rd s (b + ((c - 1) * m + j)))))"
    and "x < to \<or> to + n \<le> x \<Longrightarrow> rd s' x = rd s x"
    and "tmp s' = tmp s"
proof -
  define D where "D = {x. to \<le> x \<and> x < to + n}"
  define s0 where "s0 = fold (\<lambda>i s. wr (to + i) 0 s) [0..<n] s"
  define X where "X i j = (1 - OMEGA) * rd s (a + (i * m + j))
                            + (1 - OMEGA2) * conjT (rd s (b + (i * m + j)))" for i j
  define Y where "Y i j = (if i * m + m + j < n then OMEGA2 - OMEGA else w)
                            * (rd s (a + (i * m + j)) - conjT (rd s (b + (i * m + j))))" for i j
  define d2 where "d2 i j = (if i * m + m + j < n then to + (i * m + m + j) else to + (i * m + m + j - n))"
    for i j
  define cin where "cin i j x = (if x = to + (i * m + j) then X i j else 0)
                                 + (if x = d2 i j then Y i j else 0)" for i j x
  let ?In = "\<lambda>i j s.
            let s = wr (to + (i * m + j))
                      (add_assign (rd s (to + (i * m + j)))
                         ((1 - OMEGA) * rd s (a + (i * m + j))
                            + (1 - OMEGA2) * conjT (rd s (b + (i * m + j))))) s
            in if i * m + m + j < n then
                 wr (to + (i * m + m + j))
                   (add_assign (rd s (to + (i * m + m + j)))
                      ((OMEGA2 - OMEGA)
                         * (rd s (a + (i * m + j)) - conjT (rd s (b + (i * m + j)))))) s
               else
                 wr (to + (i * m + m + j - n))
                   (add_assign (rd s (to + (i * m + m + j - n)))
                      (w * (rd s (a + (i * m + j)) - conjT (rd s (b + (i * m + j)))))) s"
  have s': "s' = fold (\<lambda>i s. fold (?In i) [0..<m] s) [0..<r] s0"
    unfolding s'_def s0_def by (rule refl)
  have s0: "rd s0 x = (if to \<le> x \<and> x < to + n then 0 else rd s x)" for x
    unfolding s0_def by (rule rd_fill)
  have bnd: "i * m + j < n" if "i < r" "j < m" for i j
    using blk_bound [OF that(1), of m] that(2) n by simp
  have src: "a + (i * m + j) \<notin> D" "b + (i * m + j) \<notin> D" if "i < r" "j < m" for i j
    using bnd [OF that] a b by (auto simp: D_def)
  have d2D: "d2 i j \<in> D" if "i < r" "j < m" for i j
  proof -
    have "i * m + m + j < 2 * n" using bnd [OF that] blk_bound [OF that(1), of m] n that(2) by simp
    then show ?thesis by (auto simp: d2_def D_def)
  qed
  have cout: "cin i j x = 0" if "x \<notin> D" "i < r" "j < m" for i j x
    using that(1) d2D [OF that(2,3)] bnd [OF that(2,3)] by (auto simp: cin_def D_def)
  have step: "rd (?In i j t) x = rd t x + cin i j x"
    if ij: "i < r" "j < m" and t: "\<forall>y. y \<notin> D \<longrightarrow> rd t y = rd s y" for i j t x
  proof -
    have ra: "rd t (a + (i * m + j)) = rd s (a + (i * m + j))"
      and rb: "rd t (b + (i * m + j)) = rd s (b + (i * m + j))"
      using t src [OF ij] by simp_all
    have na: "a + (i * m + j) \<noteq> to + (i * m + j)" "b + (i * m + j) \<noteq> to + (i * m + j)"
      using src [OF ij] bnd [OF ij] by (auto simp: D_def)
    define v1 where "v1 = (1 - OMEGA) * rd t (a + (i * m + j))
                            + (1 - OMEGA2) * conjT (rd t (b + (i * m + j)))"
    define s1 where "s1 = wr (to + (i * m + j)) (add_assign (rd t (to + (i * m + j))) v1) t"
    have r1: "rd s1 (a + (i * m + j)) = rd s (a + (i * m + j))"
      "rd s1 (b + (i * m + j)) = rd s (b + (i * m + j))"
      using na ra rb by (simp_all add: s1_def)
    have v1: "v1 = X i j" by (simp add: v1_def X_def ra rb)
    define v2 where "v2 = Y i j"
    have eq: "?In i j t = wr (d2 i j) (add_assign (rd s1 (d2 i j)) v2) s1"
      unfolding Let_def s1_def [symmetric] v1_def [symmetric] r1 v2_def Y_def d2_def
      by (cases "i * m + m + j < n") simp_all
    show ?thesis
      unfolding eq unfolding s1_def wr2_accumulate cin_def v1 v2_def by (rule refl)
  qed
  have inner: "rd (fold (?In i) [0..<m] t) x = rd t x + (\<Sum>j = 0..<m. cin i j x)"
    if i: "i < r" and t: "\<forall>y. y \<notin> D \<longrightarrow> rd t y = rd s y" for i t x
  proof (rule fold_accumulate [where D = D])
    fix j t' x
    assume j: "0 \<le> j" "j < m" and t': "\<forall>y. y \<notin> D \<longrightarrow> rd t' y = rd t y"
    have "\<forall>y. y \<notin> D \<longrightarrow> rd t' y = rd s y" using t t' by simp
    then show "rd (?In i j t') x = rd t' x + cin i j x"
      by (rule step [OF i j(2)])
  next
    fix j x
    assume "0 \<le> j" "j < m" "x \<notin> D"
    then show "cin i j x = 0" using cout i by simp
  qed
  have outer: "rd s' x = rd s0 x + (\<Sum>i = 0..<r. \<Sum>j = 0..<m. cin i j x)" for x
    unfolding s'
  proof (rule fold_accumulate [where D = D])
    fix i t x
    assume i: "0 \<le> i" "i < r" and t: "\<forall>y. y \<notin> D \<longrightarrow> rd t y = rd s0 y"
    have ts: "\<forall>y. y \<notin> D \<longrightarrow> rd t y = rd s y"
      using t by (auto simp: s0 D_def)
    show "rd (fold (?In i) [0..<m] t) x = rd t x + (\<Sum>j = 0..<m. cin i j x)"
      by (rule inner [OF i(2) ts])
  next
    fix i x
    assume "0 \<le> i" "i < r" "x \<notin> D"
    then show "(\<Sum>j = 0..<m. cin i j x) = 0" using cout by simp
  qed
  show "rd s' x = rd s x" if "x < to \<or> to + n \<le> x"
  proof -
    have "x \<notin> D" using that by (auto simp: D_def)
    then have "(\<Sum>i = 0..<r. \<Sum>j = 0..<m. cin i j x) = 0" using cout by simp
    then show ?thesis using that by (auto simp add: outer s0)
  qed
  show "tmp s' = tmp s"
    unfolding s'_def by (simp add: tmp_fold Let_def)
  show "rd s' (to + (c * m + j))
           = (1 - OMEGA) * rd s (a + (c * m + j)) + (1 - OMEGA2) * conjT (rd s (b + (c * m + j)))
             + (if c = 0
                then w * (rd s (a + ((r - 1) * m + j)) - conjT (rd s (b + ((r - 1) * m + j))))
                else (OMEGA2 - OMEGA)
                       * (rd s (a + ((c - 1) * m + j)) - conjT (rd s (b + ((c - 1) * m + j)))))"
    if c: "c < r" and j: "j < m"
  proof -
    define c' where "c' = (if c = 0 then r - 1 else c - 1)"
    have c': "c' < r" using c by (auto simp: c'_def)
    have lt: "i * m + m + k < n \<longleftrightarrow> i + 1 < r" if "i < r" "k < m" for i k
    proof
      assume "i + 1 < r"
      then show "i * m + m + k < n" using bnd [of "i + 1" k] that(2) by simp
    next
      assume l: "i * m + m + k < n"
      show "i + 1 < r"
      proof (rule ccontr)
        assume "\<not> i + 1 < r"
        then have "r = Suc i" using that(1) by simp
        then have "n = i * m + m" unfolding n by (simp add: mult.commute)
        then show False using l by simp
      qed
    qed
    have e1: "(to + (c * m + j) = to + (i * m + k)) \<longleftrightarrow> (k = j \<and> i = c)" if "k < m" for i k
      using block_unique [of i m k c j] that j by auto
    have e2: "(to + (c * m + j) = d2 i k) \<longleftrightarrow> (k = j \<and> i = c')" if ik: "i < r" "k < m" for i k
    proof (cases "i + 1 < r")
      case True
      then have d: "d2 i k = to + ((i + 1) * m + k)" using lt [OF ik] by (simp add: d2_def)
      have "(c * m + j = (i + 1) * m + k) \<longleftrightarrow> (k = j \<and> c = i + 1)"
        using block_unique [of c m j "i + 1" k] ik(2) j by auto
      then show ?thesis unfolding d using True c by (auto simp: c'_def)
    next
      case False
      then have ir: "i = r - 1" "i + 1 = r" using ik(1) by simp_all
      have "r = Suc i" using ir(2) by simp
      then have "i * m + m = n" unfolding n by (simp add: mult.commute)
      then have d: "d2 i k = to + (0 * m + k)" using lt [OF ik] False by (simp add: d2_def)
      have "(c * m + j = 0 * m + k) \<longleftrightarrow> (k = j \<and> c = 0)"
        using block_unique [of c m j 0 k] ik(2) j by auto
      then show ?thesis unfolding d using ir c by (auto simp: c'_def)
    qed
    have "(\<Sum>i = 0..<r. \<Sum>k = 0..<m. cin i k (to + (c * m + j)))
        = (\<Sum>i<r. \<Sum>k<m. (if k = j \<and> i = c then X i k else 0) + (if k = j \<and> i = c' then Y i k else 0))"
      unfolding atLeast0LessThan
    proof (intro sum.cong refl)
      fix i k assume "i \<in> {..<r}" "k \<in> {..<m}"
      then have ik: "i < r" "k < m" by simp_all
      show "cin i k (to + (c * m + j))
            = (if k = j \<and> i = c then X i k else 0) + (if k = j \<and> i = c' then Y i k else 0)"
        unfolding cin_def e1 [OF ik(2)] e2 [OF ik] by (rule refl)
    qed
    also have "\<dots> = (\<Sum>i<r. \<Sum>k<m. if k = j \<and> i = c then X i k else 0)
                   + (\<Sum>i<r. \<Sum>k<m. if k = j \<and> i = c' then Y i k else 0)"
      by (simp only: sum.distrib)
    also have "\<dots> = X c j + Y c' j"
      by (simp only: sum_delta2 [OF c j] sum_delta2 [OF c' j])
    finally have sum: "(\<Sum>i = 0..<r. \<Sum>k = 0..<m. cin i k (to + (c * m + j))) = X c j + Y c' j" .
    have Y: "Y c' j = (if c = 0
                then w * (rd s (a + ((r - 1) * m + j)) - conjT (rd s (b + ((r - 1) * m + j))))
                else (OMEGA2 - OMEGA)
                       * (rd s (a + ((c - 1) * m + j)) - conjT (rd s (b + ((c - 1) * m + j)))))"
      using lt [OF c' j] c by (auto simp: Y_def c'_def)
    have "rd s' (to + (c * m + j)) = X c j + Y c' j"
      using bnd [OF c j] by (simp add: outer s0 sum)
    then show ?thesis unfolding Y X_def .
  qed
qed


lemma mul_crt_rd:
  fixes s :: conv64
  assumes n: "n = m * r" and q: "q + n \<le> to"
  defines "s' \<equiv> mul_crt q n m r to s"
  shows "c < r \<Longrightarrow> j < m \<Longrightarrow> rd s' (to + (c * m + j))
           = ((1 - OMEGA) * rd s (to + (n + c * m + j)) + (1 - OMEGA2) * conjT (rd s (q + (c * m + j)))
             + (if c = 0
                then (1 - OMEGA2) * (rd s (to + (n + (r - 1) * m + j)) - conjT (rd s (q + ((r - 1) * m + j))))
                else (OMEGA2 - OMEGA)
                       * (rd s (to + (n + (c - 1) * m + j)) - conjT (rd s (q + ((c - 1) * m + j))))))
             * INV3"
    and "x < to \<or> to + n \<le> x \<Longrightarrow> rd s' x = rd s x"
    and "tmp s' = tmp s"
proof -
  define G where "G = fold (\<lambda>i s. fold (\<lambda>j s.
            let s = wr (to + (i * m + j))
                      (add_assign (rd s (to + (i * m + j)))
                         ((1 - OMEGA) * rd s ((to + n) + (i * m + j))
                            + (1 - OMEGA2) * conjT (rd s (q + (i * m + j))))) s
            in if i * m + m + j < n then
                 wr (to + (i * m + m + j))
                   (add_assign (rd s (to + (i * m + m + j)))
                      ((OMEGA2 - OMEGA)
                         * (rd s ((to + n) + (i * m + j)) - conjT (rd s (q + (i * m + j)))))) s
               else
                 wr (to + (i * m + m + j - n))
                   (add_assign (rd s (to + (i * m + m + j - n)))
                      ((1 - OMEGA2) * (rd s ((to + n) + (i * m + j)) - conjT (rd s (q + (i * m + j)))))) s)
          [0..<m] s)
        [0..<r] (fold (\<lambda>i s. wr (to + i) 0 s) [0..<n] s)"
  have s': "s' = scale_cells to n INV3 G"
    unfolding s'_def mul_crt_def G_def Let_def by (simp only: add.assoc)
  have a: "to + n + n \<le> to \<or> to + n \<le> to + n" by simp
  have b: "q + n \<le> to \<or> to + n \<le> q" using q by simp
  note L = crt_loop_rd [where a = "to + n" and b = q and w = "1 - OMEGA2" and s = s, OF n a b,
      folded G_def]
  show "rd s' x = rd s x" if "x < to \<or> to + n \<le> x"
    using that L(2) [OF that] by (auto simp add: s' scale_cells_rd)
  show "tmp s' = tmp s"
    using L(3) by (simp add: s')
  show "rd s' (to + (c * m + j))
           = ((1 - OMEGA) * rd s (to + (n + c * m + j)) + (1 - OMEGA2) * conjT (rd s (q + (c * m + j)))
             + (if c = 0
                then (1 - OMEGA2) * (rd s (to + (n + (r - 1) * m + j)) - conjT (rd s (q + ((r - 1) * m + j))))
                else (OMEGA2 - OMEGA)
                       * (rd s (to + (n + (c - 1) * m + j)) - conjT (rd s (q + ((c - 1) * m + j))))))
             * INV3"
    if c: "c < r" and j: "j < m"
  proof -
    have "c * m + j < n" using blk_bound [OF c, of m] j n by simp
    then have "rd s' (to + (c * m + j)) = rd G (to + (c * m + j)) * INV3"
      by (simp add: s' scale_cells_rd)
    then show ?thesis
      unfolding L(1) [OF c j] by (simp only: add.assoc)
  qed
qed

lemma raw_crt_rd:
  fixes s :: conv64
  assumes n: "n = m * r" and pp: "pp + n \<le> to"
  defines "s' \<equiv> raw_crt pp n m r to s"
  shows "c < r \<Longrightarrow> j < m \<Longrightarrow> rd s' (to + (c * m + j))
           = (1 - OMEGA) * rd s (pp + (c * m + j)) + (1 - OMEGA2) * conjT (rd s (pp + (c * m + j)))
             + (if c = 0
                then (OMEGA2 - OMEGA) * (rd s (pp + ((r - 1) * m + j)) - conjT (rd s (pp + ((r - 1) * m + j))))
                else (OMEGA2 - OMEGA)
                       * (rd s (pp + ((c - 1) * m + j)) - conjT (rd s (pp + ((c - 1) * m + j)))))"
    and "x < to \<or> to + n \<le> x \<Longrightarrow> rd s' x = rd s x"
    and "tmp s' = tmp s"
proof -
  have s': "s' = fold (\<lambda>i s. fold (\<lambda>j s.
            let s = wr (to + (i * m + j))
                      (add_assign (rd s (to + (i * m + j)))
                         ((1 - OMEGA) * rd s (pp + (i * m + j))
                            + (1 - OMEGA2) * conjT (rd s (pp + (i * m + j))))) s
            in if i * m + m + j < n then
                 wr (to + (i * m + m + j))
                   (add_assign (rd s (to + (i * m + m + j)))
                      ((OMEGA2 - OMEGA)
                         * (rd s (pp + (i * m + j)) - conjT (rd s (pp + (i * m + j)))))) s
               else
                 wr (to + (i * m + m + j - n))
                   (add_assign (rd s (to + (i * m + m + j - n)))
                      ((OMEGA2 - OMEGA) * (rd s (pp + (i * m + j)) - conjT (rd s (pp + (i * m + j)))))) s)
          [0..<m] s)
        [0..<r] (fold (\<lambda>i s. wr (to + i) 0 s) [0..<n] s)"
    unfolding s'_def raw_crt_def Let_def by (rule refl)
  have a: "pp + n \<le> to \<or> to + n \<le> pp" using pp by simp
  note L = crt_loop_rd [where a = pp and b = pp and w = "OMEGA2 - OMEGA" and s = s, OF n a a,
      unfolded Let_def, folded s' [unfolded Let_def]]
  show "c < r \<Longrightarrow> j < m \<Longrightarrow> rd s' (to + (c * m + j))
           = (1 - OMEGA) * rd s (pp + (c * m + j)) + (1 - OMEGA2) * conjT (rd s (pp + (c * m + j)))
             + (if c = 0
                then (OMEGA2 - OMEGA) * (rd s (pp + ((r - 1) * m + j)) - conjT (rd s (pp + ((r - 1) * m + j))))
                else (OMEGA2 - OMEGA)
                       * (rd s (pp + ((c - 1) * m + j)) - conjT (rd s (pp + ((c - 1) * m + j)))))"
    by (rule L(1))
  show "x < to \<or> to + n \<le> x \<Longrightarrow> rd s' x = rd s x" by (rule L(2))
  show "tmp s' = tmp s" by (rule L(3))
qed

section \<open>The recursive calls of mul\<close>

lemma ofold_fold:
  assumes "\<And>x s. x \<in> set xs \<Longrightarrow> I s \<Longrightarrow> f x s = Some (B x s) \<and> I (B x s)" and "I s"
  shows "ofold f xs s = Some (fold B xs s) \<and> I (fold B xs s)"
  using assms by (induction xs arbitrary: s) simp_all

lemma mul_ok_base:
  assumes "n \<le> 27"
  shows "mul_ok tp n"
  unfolding mul_ok_def
proof (intro allI impI)
  fix p q to :: nat and s :: conv64
  assume a: "tmp s = tp \<and> p + n \<le> to \<and> q + n \<le> to \<and> (p + n \<le> q \<or> q + n \<le> p) \<and> to + 4 * n \<le> tp"
  have e: "mul p q n to s = Some (mul_base p q n to s)"
    using assms by (simp add: mul.simps)
  have 1: "\<forall>k<n. rd (mul_base p q n to s) (to + k) = cmul 1 n (blk s p) (blk s q) k"
    using mul_base_rd(1) [of p n to q] a by simp
  have 2: "\<forall>x. x < tp \<and> (x < p \<or> p + n \<le> x) \<and> (x < q \<or> q + n \<le> x)
                      \<and> (x < to \<or> to + 4 * n \<le> x) \<longrightarrow> rd (mul_base p q n to s) x = rd s x"
    using mul_base_rd(2) [of p n to q] a by auto
  show "\<exists>s'. mul p q n to s = Some s' \<and> tmp s' = tp
            \<and> (\<forall>k<n. rd s' (to + k) = cmul 1 n (blk s p) (blk s q) k)
            \<and> (\<forall>x. x < tp \<and> (x < p \<or> p + n \<le> x) \<and> (x < q \<or> q + n \<le> x)
                      \<and> (x < to \<or> to + 4 * n \<le> x) \<longrightarrow> rd s' x = rd s x)"
    unfolding e using 1 2 a by simp
qed


lemma mul_loop:
  assumes ok: "mul_ok tp m" and tp: "tmp s = tp" and n: "n = m * r"
    and P: "P + n \<le> TO" and Q: "Q + n \<le> TO" and PQ: "P + n \<le> Q \<or> Q + n \<le> P"
    and top: "TO + n + 3 * m \<le> tp"
  shows "\<exists>s'. ofold (\<lambda>i s. mul (P + m * i) (Q + m * i) m (TO + m * i) s) [0..<r] s = Some s'
          \<and> tmp s' = tp
          \<and> (\<forall>i k. i < r \<and> k < m \<longrightarrow>
                 rd s' (TO + (i * m + k)) = cmul 1 m (blk s (P + i * m)) (blk s (Q + i * m)) k)
          \<and> (\<forall>x. x < tp \<and> (x < P \<or> P + n \<le> x) \<and> (x < Q \<or> Q + n \<le> x)
                    \<and> (x < TO \<or> TO + n + 3 * m \<le> x) \<longrightarrow> rd s' x = rd s x)"
proof -
  define B where "B i t = (if tmp t = tp \<and> i < r
                           then the (mul (P + m * i) (Q + m * i) m (TO + m * i) t) else t)" for i t
  define W where "W i = {x. tp \<le> x} \<union> {x. P + m * i \<le> x \<and> x < P + m * i + m}
                        \<union> {x. Q + m * i \<le> x \<and> x < Q + m * i + m}
                        \<union> {x. TO + m * i \<le> x \<and> x < TO + m * i + 4 * m}" for i
  define V where "V i = {x. TO + m * i \<le> x \<and> x < TO + m * i + m}" for i
  define D where "D i = {x. P + m * i \<le> x \<and> x < P + m * i + m}
                        \<union> {x. Q + m * i \<le> x \<and> x < Q + m * i + m}" for i
  have bb: "m * i + m \<le> n" if "i < r" for i
    using blk_bound [OF that, of m] n by (simp add: mult.commute)
  have bo: "m * i + m \<le> m * i'" if "i < i'" for i i'
    using blk_order [OF that, of m] by (simp add: mult.commute)
  have H: "mul (P + m * i) (Q + m * i) m (TO + m * i) t = Some (B i t) \<and> tmp (B i t) = tp
           \<and> (\<forall>k<m. rd (B i t) (TO + m * i + k)
                        = cmul 1 m (blk t (P + m * i)) (blk t (Q + m * i)) k)
           \<and> (\<forall>x. x < tp \<and> (x < P + m * i \<or> P + m * i + m \<le> x)
                     \<and> (x < Q + m * i \<or> Q + m * i + m \<le> x)
                     \<and> (x < TO + m * i \<or> TO + m * i + 4 * m \<le> x) \<longrightarrow> rd (B i t) x = rd t x)"
    if i: "i < r" and t: "tmp t = tp" for i t
  proof -
    have lay: "tmp t = tp \<and> P + m * i + m \<le> TO + m * i \<and> Q + m * i + m \<le> TO + m * i
               \<and> (P + m * i + m \<le> Q + m * i \<or> Q + m * i + m \<le> P + m * i)
               \<and> TO + m * i + 4 * m \<le> tp"
      using t P Q PQ top bb [OF i] by auto
    from ok [unfolded mul_ok_def, rule_format, OF lay]
    obtain s' where s': "mul (P + m * i) (Q + m * i) m (TO + m * i) t = Some s'" "tmp s' = tp"
      "\<forall>k<m. rd s' (TO + m * i + k) = cmul 1 m (blk t (P + m * i)) (blk t (Q + m * i)) k"
      "\<forall>x. x < tp \<and> (x < P + m * i \<or> P + m * i + m \<le> x)
                     \<and> (x < Q + m * i \<or> Q + m * i + m \<le> x)
                     \<and> (x < TO + m * i \<or> TO + m * i + 4 * m \<le> x) \<longrightarrow> rd s' x = rd t x"
      by blast
    have "B i t = s'" using i t s'(1) by (simp add: B_def)
    then show ?thesis using s' by simp
  qed
  have run: "ofold (\<lambda>i s. mul (P + m * i) (Q + m * i) m (TO + m * i) s) [0..<r] s
               = Some (fold B [0..<r] s) \<and> tmp (fold B [0..<r] s) = tp"
    by (rule ofold_fold [where I = "\<lambda>t. tmp t = tp"]) (use H tp in auto)
  have tmpc: "tmp (B j t) = tmp t" for j t
    using H [of j t] by (cases "tmp t = tp \<and> j < r") (auto simp: B_def)
  have frame: "rd (B j t) x = rd t x" if "0 \<le> j" "j < r" "tmp t = tp" "x \<notin> W j" for j t x
    using H [OF that(2,3)] that(4) by (auto simp: W_def)
  have det: "rd (B j t') x = rd (B j t) x"
    if j: "0 \<le> j" "j < r" and t: "tmp t = tp" "tmp t' = tp"
      and ag: "\<forall>y\<in>D j. rd t' y = rd t y" and x: "x \<in> V j" for j t t' x
  proof -
    from x obtain k where k: "k < m" "x = TO + m * j + k"
      using interval_nat [of "TO + m * j" x m] by (auto simp: V_def)
    have m: "0 < m" using k(1) by simp
    have "cmul 1 m (blk t' (P + m * j)) (blk t' (Q + m * j)) k
        = cmul 1 m (blk t (P + m * j)) (blk t (Q + m * j)) k"
      by (rule cmul_cong [OF _ _ m]) (use ag in \<open>auto simp: D_def blk_def\<close>)
    then show ?thesis
      unfolding k(2) using H [OF j(2) t(1)] H [OF j(2) t(2)] k(1) by simp
  qed
  have indep: "D j \<inter> W j' = {}" if "0 \<le> j'" "j' < j" "j < r" for j j'
    using bo [OF that(2)] bb [OF that(3)] P Q PQ top by (auto simp: D_def W_def)
  note L = fold_indep [where B = B and a = 0 and b = r and W = W and V = V and D = D and tp = tp
      and s = s, OF frame tmpc det indep tp]
  have val: "rd (fold B [0..<r] s) (TO + (i * m + k)) = cmul 1 m (blk s (P + i * m)) (blk s (Q + i * m)) k"
    if i: "i < r" and k: "k < m" for i k
  proof -
    have x: "TO + m * i + k \<in> V i" using k by (simp add: V_def)
    have later: "\<forall>j'. i < j' \<and> j' < r \<longrightarrow> TO + m * i + k \<notin> W j'"
    proof (intro allI impI)
      fix j' assume j': "i < j' \<and> j' < r"
      show "TO + m * i + k \<notin> W j'"
        using bo [of i j'] bb [of j'] j' k P Q top by (auto simp: W_def)
    qed
    have "rd (fold B [0..<r] s) (TO + m * i + k) = rd (B i s) (TO + m * i + k)"
      by (rule L(1)) (use i x later in auto)
    also have "\<dots> = cmul 1 m (blk s (P + m * i)) (blk s (Q + m * i)) k"
      using H [OF i tp] k by simp
    finally show ?thesis by (simp add: mult.commute add.assoc)
  qed
  have keep: "rd (fold B [0..<r] s) x = rd s x"
    if x: "x < tp" "x < P \<or> P + n \<le> x" "x < Q \<or> Q + n \<le> x" "x < TO \<or> TO + n + 3 * m \<le> x" for x
  proof -
    have "x \<notin> W j" if "j < r" for j
      using bb [OF that] x by (auto simp: W_def)
    then have w: "\<forall>j. 0 \<le> j \<and> j < r \<longrightarrow> x \<notin> W j" by simp
    show ?thesis by (rule L(2)) (use w in auto)
  qed
  show ?thesis
    using run val keep by blast
qed

section \<open>The recombined product\<close>

lemma times3_INV3: "(3 * x + 3 * y) * INV3 = x + y"
proof -
  have "(3 * x + 3 * y) * INV3 = (3 * INV3) * (x + y)" by (simp only: algebra_simps)
  then show ?thesis by simp
qed

lemma crt_core:
  assumes m: "0 < m" and r: "0 < r" and c: "c < r" and j: "j < m"
    and A: "\<And>c. c < r \<Longrightarrow> A c = ylow ey m r (\<lambda>a i. f (a * m + i)) (\<lambda>b i. g (b * m + i)) (int c) j
                               + OMEGA * yhigh ey m r (\<lambda>a i. f (a * m + i)) (\<lambda>b i. g (b * m + i)) (int c) j"
    and B: "\<And>c. c < r \<Longrightarrow> Bc c = ylow ey m r (\<lambda>a i. f (a * m + i)) (\<lambda>b i. g (b * m + i)) (int c) j
                               + OMEGA2 * yhigh ey m r (\<lambda>a i. f (a * m + i)) (\<lambda>b i. g (b * m + i)) (int c) j"
    and W: "W = wpow ey * (OMEGA2 - OMEGA)"
  shows "((1 - OMEGA) * A c + (1 - OMEGA2) * Bc c
           + (if c = 0 then W * (A (r - 1) - Bc (r - 1))
              else (OMEGA2 - OMEGA) * (A (c - 1) - Bc (c - 1)))) * INV3
         = cmul ey (m * r) f g (c * m + j)"
proof -
  let ?l = "\<lambda>C. ylow ey m r (\<lambda>a i. f (a * m + i)) (\<lambda>b i. g (b * m + i)) C j"
  let ?h = "\<lambda>C. yhigh ey m r (\<lambda>a i. f (a * m + i)) (\<lambda>b i. g (b * m + i)) C j"
  have X: "(1 - OMEGA) * A c + (1 - OMEGA2) * Bc c = 3 * ?l (int c)"
    unfolding A [OF c] B [OF c] by (rule crt_coefficients(1))
  have Y: "(OMEGA2 - OMEGA) * (A c' - Bc c') = 3 * ?h (int c')" if "c' < r" for c'
    unfolding A [OF that] B [OF that] by (rule crt_coefficients(2))
  have wrap: "(if c = 0 then W * (A (r - 1) - Bc (r - 1))
              else (OMEGA2 - OMEGA) * (A (c - 1) - Bc (c - 1))) = 3 * ?h (int c - 1)"
  proof (cases "c = 0")
    case True
    have r1: "r - 1 < r" using r by simp
    have "W * (A (r - 1) - Bc (r - 1)) = wpow ey * ((OMEGA2 - OMEGA) * (A (r - 1) - Bc (r - 1)))"
      unfolding W by (simp only: mult.assoc)
    also have "\<dots> = 3 * (wpow ey * ?h (int (r - 1)))"
      unfolding Y [OF r1] by (simp only: mult.left_commute)
    also have "wpow ey * ?h (int (r - 1)) = ?h (int (r - 1) - int r)"
      by (rule yhigh_wrap [OF r, symmetric])
    also have "int (r - 1) - int r = int c - 1" using r True by simp
    finally show ?thesis using True by simp
  next
    case False
    then have c1: "c - 1 < r" "int (c - 1) = int c - 1" using c by simp_all
    show ?thesis using False Y [OF c1(1)] c1(2) by simp
  qed
  show ?thesis
    unfolding X wrap times3_INV3 by (rule cmul_blocks [OF m r c j, symmetric])
qed

lemma wrap_factor: "wpow 1 * (OMEGA2 - OMEGA) = 1 - OMEGA2" "wpow 0 * (OMEGA2 - OMEGA) = OMEGA2 - OMEGA"
  by (simp_all add: algebra_simps)

lemma conjT_conjT_fun: "(\<lambda>a i. conjT (conjT (F a i))) = F"
  by (simp add: conjT_conjT)

section \<open>Multiplication of two sequences of blocks through the transforms\<close>

lemma frame_okD:
  assumes "frame_ok tp p n s s'"
  shows "tmp s' = tmp s" and "x < tp \<Longrightarrow> x < p \<or> p + n \<le> x \<Longrightarrow> rd s' x = rd s x"
  using assms by (simp_all add: frame_ok_def)

lemma fft_conv:
  assumes ok: "mul_ok tp m" and tp: "tmp s = tp" and n: "n = m * 3 ^ b" and dvd: "3 ^ b dvd 3 * m"
    and X: "X + n \<le> Z" and Y: "Y + n \<le> Z" and XY: "X + n \<le> Y \<or> Y + n \<le> X"
    and top: "Z + n + 3 * m \<le> tp"
  shows "\<exists>s1 s2 s3 s4. fftdif X m (3 ^ b) s = Some s1 \<and> fftdif Y m (3 ^ b) s1 = Some s2
           \<and> ofold (\<lambda>i s. mul (X + m * i) (Y + m * i) m (Z + m * i) s) [0..<3 ^ b] s2 = Some s3
           \<and> fftdit Z m (3 ^ b) s3 = Some s4 \<and> tmp s4 = tp
           \<and> (\<forall>k j. k < 3 ^ b \<and> j < m \<longrightarrow> rd s4 (Z + (k * m + j))
                  = of_nat (3 ^ b) * yprod 0 m (3 ^ b) (\<lambda>i. blk s (X + i * m)) (\<lambda>i. blk s (Y + i * m)) k j)
           \<and> (\<forall>x. x < tp \<and> (x < X \<or> X + n \<le> x) \<and> (x < Y \<or> Y + n \<le> x)
                    \<and> (x < Z \<or> Z + n + 3 * m \<le> x) \<longrightarrow> rd s4 x = rd s x)"
proof -
  let ?r = "3 ^ b :: nat"
  let ?F = "\<lambda>i. blk s (X + i * m)" and ?G = "\<lambda>i. blk s (Y + i * m)"
  have bX: "X + m * ?r \<le> tp" and bY: "Y + m * ?r \<le> tp" and bZ: "Z + m * ?r \<le> tp"
    using X Y top n by simp_all
  have bnd: "i * m + j < n" if "i < ?r" "j < m" for i j
    using blk_bound [OF that(1), of m] that(2) n by simp
  obtain s1 where s1: "fftdif X m ?r s = Some s1" and f1: "frame_ok tp X (m * ?r) s s1"
    using fftdif_frame [OF tp bX] by blast
  have t1: "tmp s1 = tp" using frame_okD(1) [OF f1] tp by simp
  have v1: "rd s1 (X + (k * m + j)) = dft m b ?F k j" if "k < ?r" "j < m" for k j
    by (rule fftdif_dft [OF tp bX dvd s1 that])
  obtain s2 where s2: "fftdif Y m ?r s1 = Some s2" and f2: "frame_ok tp Y (m * ?r) s1 s2"
    using fftdif_frame [OF t1 bY] by blast
  have t2: "tmp s2 = tp" using frame_okD(1) [OF f2] t1 by simp
  have v2: "rd s2 (Y + (k * m + j)) = dft m b ?G k j" if kj: "k < ?r" "j < m" for k j
  proof -
    have "rd s2 (Y + (k * m + j)) = dft m b (\<lambda>i. blk s1 (Y + i * m)) k j"
      by (rule fftdif_dft [OF t1 bY dvd s2 kj])
    also have "\<dots> = dft m b ?G k j"
    proof (rule dft_cong)
      show "0 < m" using kj(2) by simp
      fix i j' assume ij: "i < ?r" "j' < m"
      have "rd s1 (Y + (i * m + j')) = rd s (Y + (i * m + j'))"
        by (rule frame_okD(2) [OF f1]) (use bnd [OF ij] bY XY n in auto)
      then show "blk s1 (Y + i * m) j' = blk s (Y + i * m) j'"
        by (simp add: blk_def add.assoc)
    qed
    finally show ?thesis .
  qed
  have v1': "rd s2 (X + (k * m + j)) = dft m b ?F k j" if kj: "k < ?r" "j < m" for k j
  proof -
    have "rd s2 (X + (k * m + j)) = rd s1 (X + (k * m + j))"
      by (rule frame_okD(2) [OF f2]) (use bnd [OF kj] bX XY n in auto)
    then show ?thesis using v1 [OF kj] by simp
  qed
  from mul_loop [OF ok t2 n X Y XY top]
  obtain s3 where s3: "ofold (\<lambda>i s. mul (X + m * i) (Y + m * i) m (Z + m * i) s) [0..<?r] s2 = Some s3"
    and t3: "tmp s3 = tp"
    and v3: "\<forall>i k. i < ?r \<and> k < m \<longrightarrow>
                 rd s3 (Z + (i * m + k)) = cmul 1 m (blk s2 (X + i * m)) (blk s2 (Y + i * m)) k"
    and f3: "\<forall>x. x < tp \<and> (x < X \<or> X + n \<le> x) \<and> (x < Y \<or> Y + n \<le> x)
                    \<and> (x < Z \<or> Z + n + 3 * m \<le> x) \<longrightarrow> rd s3 x = rd s2 x"
    by blast
  have prod: "rd s3 (Z + (k * m + j)) = cmul 1 m (dft m b ?F k) (dft m b ?G k) j"
    if kj: "k < ?r" "j < m" for k j
  proof -
    have m: "0 < m" using kj(2) by simp
    have "rd s3 (Z + (k * m + j)) = cmul 1 m (blk s2 (X + k * m)) (blk s2 (Y + k * m)) j"
      using v3 kj by simp
    also have "\<dots> = cmul 1 m (dft m b ?F k) (dft m b ?G k) j"
      by (rule cmul_cong [OF _ _ m])
        (use v1' [OF kj(1)] v2 [OF kj(1)] in \<open>simp_all add: blk_def add.assoc\<close>)
    finally show ?thesis .
  qed
  from fft_multiply [OF t3 bZ dvd prod]
  obtain s4 where s4: "fftdit Z m ?r s3 = Some s4" and f4: "frame_ok tp Z (m * ?r) s3 s4"
    and v4: "\<forall>k j. k < ?r \<and> j < m \<longrightarrow> rd s4 (Z + (k * m + j)) = of_nat ?r * yprod 0 m ?r ?F ?G k j"
    by blast
  have t4: "tmp s4 = tp" using frame_okD(1) [OF f4] t3 by simp
  have keep: "rd s4 x = rd s x"
    if x: "x < tp" "x < X \<or> X + n \<le> x" "x < Y \<or> Y + n \<le> x" "x < Z \<or> Z + n + 3 * m \<le> x" for x
  proof -
    have "rd s4 x = rd s3 x" by (rule frame_okD(2) [OF f4]) (use x n in auto)
    also have "\<dots> = rd s2 x" using f3 x by simp
    also have "\<dots> = rd s1 x" by (rule frame_okD(2) [OF f2]) (use x n in auto)
    also have "\<dots> = rd s x" by (rule frame_okD(2) [OF f1]) (use x n in auto)
    finally show ?thesis .
  qed
  show ?thesis
    using s1 s2 s3 s4 t4 v4 keep by blast
qed

section \<open>The recursive step of mul\<close>

lemma of_nat_pow3_INV3: "of_nat (3 ^ b) * y * INV3 ^ b = (y::T)"
proof -
  have "of_nat (3 ^ b) = (3::T) ^ b" by simp
  then have "of_nat (3 ^ b) * y * INV3 ^ b = (INV3 ^ b * 3 ^ b) * y"
    by (simp only: mult.commute mult.left_commute)
  then show ?thesis by (simp only: INV3_pow mult_1)
qed

lemma mul_step:
  assumes ok: "mul_ok tp m" and n: "n = m * 3 ^ b" and big: "27 < n" and dvd: "3 ^ b dvd m"
    and m3: "3 * m \<le> n" and split: "mul_split n = Some (m, 3 ^ b, INV3 ^ b)"
  shows "mul_ok tp n"
  unfolding mul_ok_def
proof (intro allI impI)
  fix p q to :: nat and s :: conv64
  assume lay: "tmp s = tp \<and> p + n \<le> to \<and> q + n \<le> to \<and> (p + n \<le> q \<or> q + n \<le> p) \<and> to + 4 * n \<le> tp"
  let ?r = "3 ^ b :: nat"
  have tp: "tmp s = tp" and p: "p + n \<le> to" and q: "q + n \<le> to"
    and pq: "p + n \<le> q \<or> q + n \<le> p" and top: "to + 4 * n \<le> tp"
    using lay by simp_all
  have m: "0 < m" using big n by (cases m) simp_all
  have r: "0 < ?r" by simp
  have dvd3: "?r dvd 3 * m" using dvd by (rule dvd_mult)
  have top1: "to + n \<le> tp" and top2: "to + 2 * n \<le> tp" and top3: "to + 3 * n \<le> tp"
    and top4: "to + 2 * n + n + 3 * m \<le> tp"
    using top m3 by simp_all
  have bnd: "i * m + j < n" if "i < ?r" "j < m" for i j
    using blk_bound [OF that(1), of m] that(2) n by simp
  define u where "u = m div ?r"
  define t2 where "t2 = 2 * m div ?r"
  have u: "int u * int ?r = 1 * int m"
  proof -
    have "u * ?r = m" using dvd by (simp add: u_def)
    then have "int (u * ?r) = int m" by (rule arg_cong)
    then show ?thesis by simp
  qed
  have t2: "int t2 * int ?r = 2 * int m"
  proof -
    have "?r dvd 2 * m" using dvd by (rule dvd_mult)
    then have "t2 * ?r = 2 * m" by (simp add: t2_def)
    then have "int (t2 * ?r) = int (2 * m)" by (rule arg_cong)
    then show ?thesis by simp
  qed
  define P where "P = (\<lambda>a i. blk s p (a * m + i))"
  define Q where "Q = (\<lambda>a i. blk s q (a * m + i))"
  define Pt where "Pt = (\<lambda>a. shiftx m (int (u * a)) (P a))"
  define Qt where "Qt = (\<lambda>a. shiftx m (int (u * a)) (Q a))"
  define Pc where "Pc = (\<lambda>a i. conjT (P a i))"
  define Qc where "Qc = (\<lambda>a i. conjT (Q a i))"
  define Pct where "Pct = (\<lambda>a. shiftx m (int (t2 * a)) (Pc a))"
  define Qct where "Qct = (\<lambda>a. shiftx m (int (t2 * a)) (Qc a))"
  have Pb: "blk s (p + a * m) = P a" and Qb: "blk s (q + a * m) = Q a" for a
    by (simp_all add: P_def Q_def blk_def add.assoc fun_eq_iff)

  define s1 where "s1 = mul_twiddle_in p q n m ?r to s"
  note T1 = mul_twiddle_in_rd [OF tp n p q top2, folded s1_def u_def, unfolded Pb Qb]
  have t1: "tmp s1 = tp" using T1(4) tp by simp
  have v1: "blk s1 (to + i * m) j = Pt i j" "blk s1 (to + n + i * m) j = Qt i j"
    if "i < ?r" "j < m" for i j
    using T1(1,2) [OF that] by (simp_all add: blk_def Pt_def Qt_def add.assoc)

  have XY: "to + n \<le> to + n \<or> to + n + n \<le> to" by simp
  from fft_conv [OF ok t1 n dvd3 _ _ XY top4]
  obtain sa sb sc s5 where A1: "fftdif to m ?r s1 = Some sa" and A2: "fftdif (to + n) m ?r sa = Some sb"
    and A3: "ofold (\<lambda>i s. mul (to + m * i) (to + n + m * i) m (to + 2 * n + m * i) s) [0..<?r] sb = Some sc"
    and A4: "fftdit (to + 2 * n) m ?r sc = Some s5" and t5: "tmp s5 = tp"
    and v5: "\<forall>k j. k < ?r \<and> j < m \<longrightarrow> rd s5 (to + 2 * n + (k * m + j))
                  = of_nat ?r * yprod 0 m ?r (\<lambda>i. blk s1 (to + i * m)) (\<lambda>i. blk s1 (to + n + i * m)) k j"
    and f5: "\<forall>x. x < tp \<and> (x < to \<or> to + n \<le> x) \<and> (x < to + n \<or> to + n + n \<le> x)
                    \<and> (x < to + 2 * n \<or> to + 2 * n + n + 3 * m \<le> x) \<longrightarrow> rd s5 x = rd s1 x"
    by auto
  define s6 where "s6 = scale_cells (to + 2 * n) n (INV3 ^ b) s5"
  have t6: "tmp s6 = tp" using t5 by (simp add: s6_def)
  have v6: "blk s6 (to + (2 * n + k * m)) j = yprod 0 m ?r Pt Qt k j" if kj: "k < ?r" "j < m" for k j
  proof -
    have "rd s6 (to + 2 * n + (k * m + j)) = rd s5 (to + 2 * n + (k * m + j)) * INV3 ^ b"
      using bnd [OF kj] by (simp add: s6_def scale_cells_rd)
    also have "\<dots> = of_nat ?r * yprod 0 m ?r (\<lambda>i. blk s1 (to + i * m)) (\<lambda>i. blk s1 (to + n + i * m)) k j
                      * INV3 ^ b"
      using v5 kj by simp
    also have "\<dots> = yprod 0 m ?r (\<lambda>i. blk s1 (to + i * m)) (\<lambda>i. blk s1 (to + n + i * m)) k j"
      by (rule of_nat_pow3_INV3)
    also have "\<dots> = yprod 0 m ?r Pt Qt k j"
      by (rule yprod_cong [OF _ _ m r]) (use v1 in auto)
    finally show ?thesis by (simp add: blk_def add.assoc)
  qed
  define s7 where "s7 = mul_twiddle_out n m ?r to s6"
  note T7 = mul_twiddle_out_rd [OF t6 n top3, folded s7_def u_def]
  have t7: "tmp s7 = tp" using T7(3) t6 by simp
  have A7: "rd s7 (to + (n + i * m + j)) = yprod 1 m ?r P Q i j" if ij: "i < ?r" "j < m" for i j
  proof -
    have "rd s7 (to + (n + i * m + j)) = shiftx m (- int (u * i)) (blk s6 (to + (2 * n + i * m))) j"
      by (rule T7(1) [OF ij])
    also have "\<dots> = shiftx m (- int (u * i)) (yprod 0 m ?r Pt Qt i) j"
      by (rule shiftx_cong [OF _ m]) (rule v6 [OF ij(1)])
    also have "\<dots> = yprod 1 m ?r P Q i j"
      unfolding Pt_def Qt_def by (rule yprod_twist [OF m r u ij(2)])
    finally show ?thesis .
  qed
  have K7: "rd s7 x = rd s x" if x: "x < tp" "x < to \<or> to + 4 * n \<le> x" for x
  proof -
    have "rd s7 x = rd s6 x" by (rule T7(2)) (use x in auto)
    also have "\<dots> = rd s5 x" using x by (auto simp add: s6_def scale_cells_rd)
    also have "\<dots> = rd s1 x" using f5 x m3 by auto
    also have "\<dots> = rd s x" by (rule T1(3)) (use x in auto)
    finally show ?thesis .
  qed

  define s8 where "s8 = mul_conj_twiddle_in p q m ?r to s7"
  note T8 = mul_conj_twiddle_in_rd [OF t7 n p q pq top1, folded s8_def t2_def]
  have t8: "tmp s8 = tp" using T8(5) t7 by simp
  have b7: "blk s7 (p + i * m) j = P i j" "blk s7 (q + i * m) j = Q i j" if ij: "i < ?r" "j < m" for i j
  proof -
    have "rd s7 (p + (i * m + j)) = rd s (p + (i * m + j))"
      by (rule K7) (use bnd [OF ij] p top in auto)
    then show "blk s7 (p + i * m) j = P i j" by (simp add: blk_def P_def add.assoc)
    have "rd s7 (q + (i * m + j)) = rd s (q + (i * m + j))"
      by (rule K7) (use bnd [OF ij] q top in auto)
    then show "blk s7 (q + i * m) j = Q i j" by (simp add: blk_def Q_def add.assoc)
  qed
  have v8: "blk s8 (to + i * m) j = Pct i j" "blk s8 (p + i * m) j = Qct i j"
    if ij: "i < ?r" "j < m" for i j
  proof -
    have "rd s8 (to + (i * m + j)) = shiftx m (int (t2 * i)) (\<lambda>j. conjT (blk s7 (p + i * m) j)) j"
      by (rule T8(1) [OF ij])
    also have "\<dots> = shiftx m (int (t2 * i)) (Pc i) j"
      by (rule shiftx_cong [OF _ m]) (simp add: b7 [OF ij(1)] Pc_def)
    finally show "blk s8 (to + i * m) j = Pct i j" by (simp add: blk_def Pct_def add.assoc)
    have "rd s8 (p + (i * m + j)) = shiftx m (int (t2 * i)) (\<lambda>j. conjT (blk s7 (q + i * m) j)) j"
      by (rule T8(2) [OF ij])
    also have "\<dots> = shiftx m (int (t2 * i)) (Qc i) j"
      by (rule shiftx_cong [OF _ m]) (simp add: b7 [OF ij(1)] Qc_def)
    finally show "blk s8 (p + i * m) j = Qct i j" by (simp add: blk_def Qct_def add.assoc)
  qed

  have XYb: "to + n \<le> p \<or> p + n \<le> to" using p by simp
  have Yb: "p + n \<le> to + 2 * n" using p by simp
  from fft_conv [OF ok t8 n dvd3 _ Yb XYb top4]
  obtain sd se sf s12 where B1: "fftdif to m ?r s8 = Some sd" and B2: "fftdif p m ?r sd = Some se"
    and B3: "ofold (\<lambda>i s. mul (to + m * i) (p + m * i) m (to + 2 * n + m * i) s) [0..<?r] se = Some sf"
    and B4: "fftdit (to + 2 * n) m ?r sf = Some s12" and t12: "tmp s12 = tp"
    and v12: "\<forall>k j. k < ?r \<and> j < m \<longrightarrow> rd s12 (to + 2 * n + (k * m + j))
                  = of_nat ?r * yprod 0 m ?r (\<lambda>i. blk s8 (to + i * m)) (\<lambda>i. blk s8 (p + i * m)) k j"
    and f12: "\<forall>x. x < tp \<and> (x < to \<or> to + n \<le> x) \<and> (x < p \<or> p + n \<le> x)
                    \<and> (x < to + 2 * n \<or> to + 2 * n + n + 3 * m \<le> x) \<longrightarrow> rd s12 x = rd s8 x"
    by auto
  define s13 where "s13 = scale_cells (to + 2 * n) n (INV3 ^ b) s12"
  have t13: "tmp s13 = tp" using t12 by (simp add: s13_def)
  have v13: "blk s13 (to + (2 * n + k * m)) j = yprod 0 m ?r Pct Qct k j" if kj: "k < ?r" "j < m" for k j
  proof -
    have "rd s13 (to + 2 * n + (k * m + j)) = rd s12 (to + 2 * n + (k * m + j)) * INV3 ^ b"
      using bnd [OF kj] by (simp add: s13_def scale_cells_rd)
    also have "\<dots> = of_nat ?r * yprod 0 m ?r (\<lambda>i. blk s8 (to + i * m)) (\<lambda>i. blk s8 (p + i * m)) k j
                      * INV3 ^ b"
      using v12 kj by simp
    also have "\<dots> = yprod 0 m ?r (\<lambda>i. blk s8 (to + i * m)) (\<lambda>i. blk s8 (p + i * m)) k j"
      by (rule of_nat_pow3_INV3)
    also have "\<dots> = yprod 0 m ?r Pct Qct k j"
      by (rule yprod_cong [OF _ _ m r]) (use v8 in auto)
    finally show ?thesis by (simp add: blk_def add.assoc)
  qed
  define s14 where "s14 = mul_conj_twiddle_out q n m ?r to s13"
  note T14 = mul_conj_twiddle_out_rd [OF t13 n top3 q, folded s14_def t2_def]
  have t14: "tmp s14 = tp" using T14(3) t13 by simp
  have B14: "rd s14 (q + (i * m + j)) = yprod 2 m ?r Pc Qc i j" if ij: "i < ?r" "j < m" for i j
  proof -
    have "rd s14 (q + (i * m + j)) = shiftx m (- int (t2 * i)) (blk s13 (to + (2 * n + i * m))) j"
      by (rule T14(1) [OF ij])
    also have "\<dots> = shiftx m (- int (t2 * i)) (yprod 0 m ?r Pct Qct i) j"
      by (rule shiftx_cong [OF _ m]) (rule v13 [OF ij(1)])
    also have "\<dots> = yprod 2 m ?r Pc Qc i j"
      unfolding Pct_def Qct_def by (rule yprod_twist [OF m r t2 ij(2)])
    finally show ?thesis .
  qed
  have K14: "rd s14 x = rd s7 x"
    if x: "x < tp" "x < p \<or> p + n \<le> x" "x < q \<or> q + n \<le> x" "x < to \<or> to + n \<le> x"
      "x < to + 2 * n \<or> to + 4 * n \<le> x" for x
  proof -
    have "rd s14 x = rd s13 x" by (rule T14(2)) (use x in auto)
    also have "\<dots> = rd s12 x" using x by (auto simp add: s13_def scale_cells_rd)
    also have "\<dots> = rd s8 x" using f12 x m3 by auto
    also have "\<dots> = rd s7 x" by (rule T8(4)) (use x in auto)
    finally show ?thesis .
  qed
  have A14: "rd s14 (to + (n + i * m + j)) = yprod 1 m ?r P Q i j" if ij: "i < ?r" "j < m" for i j
  proof -
    have "rd s14 (to + (n + i * m + j)) = rd s7 (to + (n + i * m + j))"
      by (rule K14) (use bnd [OF ij] p q top in auto)
    then show ?thesis using A7 [OF ij] by simp
  qed

  define s15 where "s15 = mul_crt q n m ?r to s14"
  note T15 = mul_crt_rd [where s = s14, OF n q, folded s15_def]
  have t15: "tmp s15 = tp" using T15(3) t14 by simp
  have val: "rd s15 (to + k) = cmul 1 n (blk s p) (blk s q) k" if k: "k < n" for k
  proof -
    obtain c j where cj: "c < ?r" "j < m" "to + k = to + (c * m + j)"
      using region_blocks [of to "to + k" m ?r] k n by auto
    have r1: "?r - 1 < ?r" by simp
    define A where "A = (\<lambda>c. yprod 1 m ?r P Q c j)"
    define Bc where "Bc = (\<lambda>c. conjT (yprod 2 m ?r Pc Qc c j))"
    have cc: "(\<lambda>a i. conjT (Pc a i)) = P" "(\<lambda>a i. conjT (Qc a i)) = Q"
      by (simp_all add: Pc_def Qc_def)
    have Aeq: "A c = ylow 1 m ?r (\<lambda>a i. blk s p (a * m + i)) (\<lambda>b i. blk s q (b * m + i)) (int c) j
                    + OMEGA * yhigh 1 m ?r (\<lambda>a i. blk s p (a * m + i)) (\<lambda>b i. blk s q (b * m + i)) (int c) j"
      for c
      unfolding A_def P_def Q_def by (rule yprod_low_high [OF cj(2)])
    have Beq: "Bc c = ylow 1 m ?r (\<lambda>a i. blk s p (a * m + i)) (\<lambda>b i. blk s q (b * m + i)) (int c) j
                    + OMEGA2 * yhigh 1 m ?r (\<lambda>a i. blk s p (a * m + i)) (\<lambda>b i. blk s q (b * m + i)) (int c) j"
      for c
      unfolding Bc_def conjT_yprod [OF cj(2)] cc ylow_minus2 yhigh_minus2 P_def Q_def by (rule refl)
    have rdA: "rd s14 (to + (n + c' * m + j)) = A c'" if "c' < ?r" for c'
      using A14 [OF that cj(2)] by (simp add: A_def)
    have rdB: "conjT (rd s14 (q + (c' * m + j))) = Bc c'" if "c' < ?r" for c'
      using B14 [OF that cj(2)] by (simp add: Bc_def)
    have c1: "c - 1 < ?r" using cj(1) by simp
    have "rd s15 (to + (c * m + j))
        = ((1 - OMEGA) * A c + (1 - OMEGA2) * Bc c
           + (if c = 0 then (1 - OMEGA2) * (A (?r - 1) - Bc (?r - 1))
              else (OMEGA2 - OMEGA) * (A (c - 1) - Bc (c - 1)))) * INV3"
      unfolding T15(1) [OF cj(1,2)] rdA [OF cj(1)] rdB [OF cj(1)] rdA [OF r1] rdB [OF r1]
        rdA [OF c1] rdB [OF c1] by (rule refl)
    also have "\<dots> = cmul 1 (m * ?r) (blk s p) (blk s q) (c * m + j)"
      by (rule crt_core [OF m r cj(1,2) Aeq Beq wrap_factor(1) [symmetric]])
    finally show ?thesis using cj(3) n by simp
  qed
  have keep: "rd s15 x = rd s x"
    if x: "x < tp" "x < p \<or> p + n \<le> x" "x < q \<or> q + n \<le> x" "x < to \<or> to + 4 * n \<le> x" for x
  proof -
    have "rd s15 x = rd s14 x" by (rule T15(2)) (use x in auto)
    also have "\<dots> = rd s7 x" by (rule K14) (use x in auto)
    also have "\<dots> = rd s x" by (rule K7) (use x in auto)
    finally show ?thesis .
  qed
  have A3': "ofold (\<lambda>i s. mul (to + m * i) (to + (n + m * i)) m (to + (2 * n + m * i)) s) [0..<?r] sb = Some sc"
    using A3 by (simp only: add.assoc)
  have B3': "ofold (\<lambda>i s. mul (to + m * i) (p + m * i) m (to + (2 * n + m * i)) s) [0..<?r] se = Some sf"
    using B3 by (simp only: add.assoc)
  have run: "mul p q n to s = Some s15"
    using big
    by (simp add: mul.simps [of p q n to s] split s1_def [symmetric] A1 A2 A3' A4 s6_def [symmetric]
        s7_def [symmetric] s8_def [symmetric] B1 B2 B3' B4 s13_def [symmetric] s14_def [symmetric]
        s15_def [symmetric])
  show "\<exists>s'. mul p q n to s = Some s' \<and> tmp s' = tp
            \<and> (\<forall>k<n. rd s' (to + k) = cmul 1 n (blk s p) (blk s q) k)
            \<and> (\<forall>x. x < tp \<and> (x < p \<or> p + n \<le> x) \<and> (x < q \<or> q + n \<le> x)
                      \<and> (x < to \<or> to + 4 * n \<le> x) \<longrightarrow> rd s' x = rd s x)"
    using run t15 val keep by blast
qed

section \<open>mul computes the product modulo x^n - omega\<close>

lemma mul_ok_pow3: "mul_ok tp (3 ^ k)"
proof (induction k rule: less_induct)
  case (less k)
  show ?case
  proof (cases "k \<le> 3")
    case True
    then have "(3::nat) ^ k \<le> 3 ^ 3" by (intro power_increasing) simp_all
    then show ?thesis by (intro mul_ok_base) simp
  next
    case False
    define a where "a = (k + 1) div 2"
    define b where "b = k div 2"
    have k: "k = a + b" "b \<le> a" "a < k" "a + 1 \<le> k" using False by (auto simp: a_def b_def)
    have ok: "mul_ok tp (3 ^ a)" using less k(3) by simp
    have n: "(3::nat) ^ k = 3 ^ a * 3 ^ b" unfolding k(1) by (rule power_add)
    have "(3::nat) ^ 4 \<le> 3 ^ k" using False by (intro power_increasing) simp_all
    then have big: "27 < (3::nat) ^ k" by simp
    have dvd: "(3::nat) ^ b dvd 3 ^ a" using k(2) by (rule le_imp_power_dvd)
    have "(3::nat) ^ (a + 1) \<le> 3 ^ k" using k(4) by (intro power_increasing) simp_all
    then have m3: "3 * (3::nat) ^ a \<le> 3 ^ k" by simp
    have split: "mul_split (3 ^ k) = Some (3 ^ a, 3 ^ b, INV3 ^ b)"
      unfolding a_def b_def by (rule mul_split_pow3)
    show ?thesis
      by (rule mul_step [OF ok n big dvd m3 split])
  qed
qed


text \<open>
  C2: for every \<open>n = 3^k\<close> and every pair of blocks \<open>p\<close>, \<open>q\<close> of \<open>n\<close> elements of T,
  \<open>mul(p, q, n, to)\<close> returns and leaves in \<open>to[0..n)\<close> the product \<open>p * q\<close> reduced modulo
  \<open>x^n - omega\<close>: coefficient \<open>i\<close> is the sum of \<open>p[j] * q[i - j]\<close> for \<open>j <= i\<close> plus
  \<open>omega\<close> times the sum of \<open>p[j] * q[i + n - j]\<close> for \<open>j > i\<close>.  The scratch space: the
  blocks \<open>p\<close> and \<open>q\<close> do not overlap and lie below \<open>to\<close>, and \<open>4n\<close> cells from \<open>to\<close> on lie
  below \<open>tmp\<close>; every call of \<open>mul\<close> in \<open>multiply_cyclic_raw\<close> and in \<open>mul\<close> itself is of
  this kind.  The blocks \<open>p\<close> and \<open>q\<close> are read in the state before the call; nothing is
  said of what they hold afterwards.
\<close>

theorem mul_product_mod:
  assumes "tmp s = tp" and "p + 3 ^ k \<le> to" and "q + 3 ^ k \<le> to"
    and "p + 3 ^ k \<le> q \<or> q + 3 ^ k \<le> p" and "to + 4 * 3 ^ k \<le> tp"
  shows "\<exists>s'. mul p q (3 ^ k) to s = Some s'
           \<and> (\<forall>i<3 ^ k. rd s' (to + i)
                  = (\<Sum>j<3 ^ k. rd s (p + j) * (if j \<le> i then rd s (q + (i - j))
                                                  else OMEGA * rd s (q + (i + 3 ^ k - j)))))"
proof -
  let ?n = "3 ^ k :: nat"
  from mul_ok_pow3 [of tp k, unfolded mul_ok_def, rule_format, of s p to q] assms
  obtain s' where s': "mul p q ?n to s = Some s'"
    and v: "\<forall>i<?n. rd s' (to + i) = cmul 1 ?n (blk s p) (blk s q) i"
    by blast
  have "cmul 1 ?n (blk s p) (blk s q) i
        = (\<Sum>j<?n. rd s (p + j) * (if j \<le> i then rd s (q + (i - j))
                                      else OMEGA * rd s (q + (i + ?n - j))))" if i: "i < ?n" for i
    unfolding cmul_def
    by (rule sum.cong [OF refl]) (simp add: ext_wrap [OF i] blk_def)
  with s' v show ?thesis by simp
qed

theorem mul_product_mod_witness:
  "tmp \<lparr>tmp = 6, mem = (\<lambda>i. T (of_nat i + 2) 1)\<rparr> = 6
   \<and> (0::nat) + 3 ^ 0 \<le> 2 \<and> (1::nat) + 3 ^ 0 \<le> 2 \<and> (0::nat) + 3 ^ 0 \<le> 1 \<and> (2::nat) + 4 * 3 ^ 0 \<le> 6
   \<and> mul 0 1 (3 ^ 0) 2 \<lparr>tmp = 6, mem = (\<lambda>i. T (of_nat i + 2) 1)\<rparr> \<noteq> None
   \<and> rd (the (mul 0 1 (3 ^ 0) 2 \<lparr>tmp = 6, mem = (\<lambda>i. T (of_nat i + 2) 1)\<rparr>)) 2 = T 5 4"
proof -
  let ?s = "\<lparr>tmp = 6, mem = (\<lambda>i. T (of_nat i + 2) 1)\<rparr>"
  from mul_product_mod [of ?s 6 0 0 2 1]
  obtain s' where s': "mul 0 1 (3 ^ 0) 2 ?s = Some s'"
    and v: "\<forall>i<3 ^ 0. rd s' (2 + i)
              = (\<Sum>j<3 ^ 0. rd ?s (0 + j) * (if j \<le> i then rd ?s (1 + (i - j))
                                               else OMEGA * rd ?s (1 + (i + 3 ^ 0 - j))))"
    by auto
  from v have "rd s' 2 = rd ?s 0 * rd ?s 1" by simp
  also have "\<dots> = T 5 4" by (simp add: rd_def times_T_def)
  finally show ?thesis using s' by simp
qed

section \<open>The split of multiply_cyclic_raw\<close>

lemma while_raw_aux:
  "j \<le> k div 2 + 1 \<Longrightarrow>
   while_option (\<lambda>m::nat. m * m \<le> 3 ^ k) (\<lambda>m. m * 3) (3 ^ j) = Some (3 ^ (k div 2 + 1))"
proof (induction "k div 2 + 1 - j" arbitrary: j)
  case 0
  then have j: "j = k div 2 + 1" by simp
  have "k < j + j" using j by arith
  then have "(3::nat) ^ k < 3 ^ (j + j)" by (intro power_strict_increasing) simp_all
  then have "\<not> ((3::nat) ^ j * 3 ^ j \<le> 3 ^ k)"
    unfolding power_add [symmetric] by (simp add: not_le)
  then show ?case
    by (subst while_option_unfold) (simp add: j)
next
  case (Suc d)
  then have lt: "j < k div 2 + 1" by simp
  then have "j + j \<le> k" by arith
  then have "(3::nat) ^ (j + j) \<le> 3 ^ k" by (intro power_increasing) simp_all
  then have "(3::nat) ^ j * 3 ^ j \<le> 3 ^ k"
    unfolding power_add [symmetric] .
  moreover have "while_option (\<lambda>m::nat. m * m \<le> 3 ^ k) (\<lambda>m. m * 3) (3 ^ Suc j) = Some (3 ^ (k div 2 + 1))"
    using Suc.hyps(1) [of "Suc j"] Suc.hyps(2) lt by simp
  ultimately show ?case
    by (subst while_option_unfold) (simp add: mult.commute)
qed

lemma pow3_div_low: "(3::nat) ^ k div 3 ^ (k div 2) = 3 ^ ((k + 1) div 2)"
proof -
  have "k = k div 2 + (k + 1) div 2" by arith
  then have "(3::nat) ^ k = 3 ^ (k div 2) * 3 ^ ((k + 1) div 2)"
    by (metis power_add)
  then show ?thesis by simp
qed

lemma raw_split_pow3:
  "raw_split (3 ^ k) = Some (3 ^ (k div 2), 3 ^ ((k + 1) div 2), INV3 ^ ((k + 1) div 2))"
proof -
  have w: "while_option (\<lambda>m::nat. m * m \<le> 3 ^ k) (\<lambda>m. m * 3) 1 = Some (3 ^ (k div 2 + 1))"
    using while_raw_aux [of 0 k] by simp
  show ?thesis
    unfolding raw_split_def w using pow3_div_low [of k] by (simp add: Let_def inv_loop_pow3)
qed

section \<open>multiply_cyclic_raw computes the cyclic product\<close>

lemma copy_in_rd:
  assumes "pp + n \<le> qq" and "k \<le> n"
  shows "rd (fold (\<lambda>i s. wr (qq + i) (T_of (q ! i)) (wr (pp + i) (T_of (p ! i)) s)) [0..<k] s) x
         = (if qq \<le> x \<and> x < qq + k then T_of (q ! (x - qq))
            else if pp \<le> x \<and> x < pp + k then T_of (p ! (x - pp)) else rd s x)"
  using assms(2)
proof (induction k arbitrary: x)
  case 0
  then show ?case by auto
next
  case (Suc k)
  then have IH: "\<And>x. rd (fold (\<lambda>i s. wr (qq + i) (T_of (q ! i)) (wr (pp + i) (T_of (p ! i)) s)) [0..<k] s) x
         = (if qq \<le> x \<and> x < qq + k then T_of (q ! (x - qq))
            else if pp \<le> x \<and> x < pp + k then T_of (p ! (x - pp)) else rd s x)" and k: "k < n"
    by simp_all
  show ?case
    using assms(1) k by (auto simp add: IH)
qed

lemma cmul0_T_of:
  assumes "0 < n"
  shows "cmul 0 n (\<lambda>i. T_of (f i)) (\<lambda>i. T_of (g i)) i
         = T_of (\<Sum>j<n. f j * g (nat ((int i - int j) mod int n)))"
  unfolding cmul_def T_of_sum
  by (rule sum.cong [OF refl]) (simp add: ext_def T_of_mult)


lemma raw_lift_correct:
  "\<exists>s. raw_lift p q (3 ^ k) = Some s
       \<and> (\<forall>i<3 ^ k. rd s (2 * 3 ^ k + i) * INV3
              = T_of (\<Sum>j<3 ^ k. p ! j * q ! nat ((int i - int j) mod 3 ^ k)))"
proof -
  let ?n = "3 ^ k :: nat" and ?m = "3 ^ (k div 2) :: nat" and ?b = "Suc k div 2"
  let ?r = "3 ^ ?b :: nat"
  let ?tp = "3 * ?n + 3 * ?m"
  define s0 where "s0 = fold (\<lambda>i s. wr (?n + i) (T_of (q ! i)) (wr i (T_of (p ! i)) s)) [0..<?n]
                          \<lparr>tmp = ?tp, mem = \<lambda>_. T 0 0\<rparr>"
  define f where "f = (\<lambda>i. T_of (p ! i))"
  define g where "g = (\<lambda>i. T_of (q ! i))"
  define F where "F = (\<lambda>a i. f (a * ?m + i))"
  define G where "G = (\<lambda>a i. g (a * ?m + i))"
  have m: "0 < ?m" and r: "0 < ?r" by simp_all
  have n: "?n = ?m * ?r"
  proof -
    have "k = k div 2 + Suc k div 2" by arith
    then show ?thesis by (metis power_add)
  qed
  have "?b \<le> Suc (k div 2)" by arith
  then have "?r dvd 3 ^ Suc (k div 2)" by (rule le_imp_power_dvd)
  then have dvd: "?r dvd 3 * ?m" by simp
  have ok: "mul_ok ?tp ?m" by (rule mul_ok_pow3)
  have bnd: "i * ?m + j < ?n" if "i < ?r" "j < ?m" for i j
    using blk_bound [OF that(1), of ?m] that(2) n by simp
  have t0: "tmp s0 = ?tp" unfolding s0_def by (simp add: tmp_fold)
  have c0: "rd s0 x = (if ?n \<le> x \<and> x < ?n + ?n then T_of (q ! (x - ?n))
            else if 0 \<le> x \<and> x < 0 + ?n then T_of (p ! (x - 0)) else rd \<lparr>tmp = ?tp, mem = \<lambda>_. T 0 0\<rparr> x)" for x
    unfolding s0_def using copy_in_rd [of 0 ?n ?n ?n q p _ x] by simp
  have v0: "blk s0 (0 + i * ?m) j = F i j" "blk s0 (?n + i * ?m) j = G i j" if ij: "i < ?r" "j < ?m" for i j
    using bnd [OF ij] by (simp_all add: blk_def c0 F_def G_def f_def g_def add.assoc)
  have X: "0 + ?n \<le> 2 * ?n" and Y: "?n + ?n \<le> 2 * ?n" and XY: "0 + ?n \<le> ?n \<or> ?n + ?n \<le> 0"
    and top: "2 * ?n + ?n + 3 * ?m \<le> ?tp"
    by simp_all
  from fft_conv [OF ok t0 n dvd X Y XY top]
  obtain s1 s2 s3 s4 where e1: "fftdif 0 ?m ?r s0 = Some s1" and e2: "fftdif ?n ?m ?r s1 = Some s2"
    and e3: "ofold (\<lambda>i s. mul (0 + ?m * i) (?n + ?m * i) ?m (2 * ?n + ?m * i) s) [0..<?r] s2 = Some s3"
    and e4: "fftdit (2 * ?n) ?m ?r s3 = Some s4" and t4: "tmp s4 = ?tp"
    and v4: "\<forall>c j. c < ?r \<and> j < ?m \<longrightarrow> rd s4 (2 * ?n + (c * ?m + j))
                  = of_nat ?r * yprod 0 ?m ?r (\<lambda>i. blk s0 (0 + i * ?m)) (\<lambda>i. blk s0 (?n + i * ?m)) c j"
    by blast
  define s5 where "s5 = fold (\<lambda>i s. wr i (rd s (2 * ?n + i) * INV3 ^ ?b) s) [0..<?n] s4"
  have c5: "rd s5 x = (if 0 + 0 \<le> x \<and> x < 0 + ?n then rd s4 (2 * ?n + (x - 0)) * INV3 ^ ?b else rd s4 x)" for x
    unfolding s5_def
    using rd_map_loop [of 0 ?n "\<lambda>j. 2 * ?n + j" 0 "\<lambda>u. u * INV3 ^ ?b" s4 x] by simp
  have v5: "rd s5 (0 + (c * ?m + j)) = yprod 0 ?m ?r F G c j" if cj: "c < ?r" "j < ?m" for c j
  proof -
    have "rd s5 (0 + (c * ?m + j)) = rd s4 (2 * ?n + (c * ?m + j)) * INV3 ^ ?b"
      using bnd [OF cj] by (simp add: c5)
    also have "\<dots> = of_nat ?r * yprod 0 ?m ?r (\<lambda>i. blk s0 (0 + i * ?m)) (\<lambda>i. blk s0 (?n + i * ?m)) c j
                     * INV3 ^ ?b"
      using v4 cj by simp
    also have "\<dots> = yprod 0 ?m ?r (\<lambda>i. blk s0 (0 + i * ?m)) (\<lambda>i. blk s0 (?n + i * ?m)) c j"
      by (rule of_nat_pow3_INV3)
    also have "\<dots> = yprod 0 ?m ?r F G c j"
      by (rule yprod_cong [OF _ _ m r]) (use v0 in auto)
    finally show ?thesis .
  qed
  define s6 where "s6 = raw_crt 0 ?n ?m ?r (2 * ?n) s5"
  note T6 = raw_crt_rd [where s = s5 and pp = 0, OF n X, folded s6_def]
  have val: "rd s6 (2 * ?n + i) * INV3 = T_of (\<Sum>j<?n. p ! j * q ! nat ((int i - int j) mod 3 ^ k))"
    if i: "i < ?n" for i
  proof -
    obtain c j where cj: "c < ?r" "j < ?m" "2 * ?n + i = 2 * ?n + (c * ?m + j)"
      using region_blocks [of "2 * ?n" "2 * ?n + i" ?m ?r] i n by auto
    have r1: "?r - 1 < ?r" by simp
    have c1: "c - 1 < ?r" using cj(1) by simp
    define A where "A = (\<lambda>c. yprod 0 ?m ?r F G c j)"
    define Bc where "Bc = (\<lambda>c. conjT (yprod 0 ?m ?r F G c j))"
    have cc: "(\<lambda>a i. conjT (F a i)) = F" "(\<lambda>a i. conjT (G a i)) = G"
      by (simp_all add: F_def G_def f_def g_def)
    have Aeq: "A c = ylow 0 ?m ?r (\<lambda>a i. f (a * ?m + i)) (\<lambda>b i. g (b * ?m + i)) (int c) j
                    + OMEGA * yhigh 0 ?m ?r (\<lambda>a i. f (a * ?m + i)) (\<lambda>b i. g (b * ?m + i)) (int c) j"
      for c
      unfolding A_def F_def G_def by (rule yprod_low_high [OF cj(2)])
    have Beq: "Bc c = ylow 0 ?m ?r (\<lambda>a i. f (a * ?m + i)) (\<lambda>b i. g (b * ?m + i)) (int c) j
                    + OMEGA2 * yhigh 0 ?m ?r (\<lambda>a i. f (a * ?m + i)) (\<lambda>b i. g (b * ?m + i)) (int c) j"
      for c
      unfolding Bc_def conjT_yprod [OF cj(2)] cc minus_zero unfolding F_def G_def by (rule refl)
    have rdA: "rd s5 (0 + (c' * ?m + j)) = A c'" "conjT (rd s5 (0 + (c' * ?m + j))) = Bc c'"
      if "c' < ?r" for c'
      using v5 [OF that cj(2)] by (simp_all add: A_def Bc_def)
    have "rd s6 (2 * ?n + (c * ?m + j)) 
        = (1 - OMEGA) * A c + (1 - OMEGA2) * Bc c
           + (if c = 0 then (OMEGA2 - OMEGA) * (A (?r - 1) - Bc (?r - 1))
              else (OMEGA2 - OMEGA) * (A (c - 1) - Bc (c - 1)))"
      unfolding T6(1) [OF cj(1,2)] rdA(1) [OF cj(1)] rdA(1) [OF r1] rdA(1) [OF c1]
      by (simp only: Bc_def A_def)
    then have "rd s6 (2 * ?n + (c * ?m + j)) * INV3 = cmul 0 (?m * ?r) f g (c * ?m + j)"
      using crt_core [OF m r cj(1,2) Aeq Beq wrap_factor(2) [symmetric]] by simp
    also have "\<dots> = cmul 0 ?n f g i" using cj(3) n by simp
    also have "\<dots> = T_of (\<Sum>j<?n. p ! j * q ! nat ((int i - int j) mod int ?n))"
      unfolding f_def g_def by (rule cmul0_T_of) simp
    finally show ?thesis using cj(3) by simp
  qed
  have e3': "ofold (\<lambda>i. mul (i * ?m) (?n + i * ?m) ?m (2 * ?n + i * ?m)) [0..<?r] s2 = Some s3"
    using e3 by (simp add: mult.commute)
  have run: "raw_lift p q ?n = Some s6"
    by (simp add: raw_lift_def raw_split_pow3 Let_def s0_def [symmetric] e1 e2 e3' e4
        s5_def [symmetric] s6_def [symmetric])
  show ?thesis using run val by blast
qed

section \<open>multiply computes the product\<close>

lemma fold_write_vec:
  fixes V :: "'v \<Rightarrow> 'e list"
  assumes "n \<le> length (V tg)"
  shows "fold (\<lambda>i V. V(tg := (V tg)[i := h i])) [0..<n] V = V(tg := map h [0..<n] @ drop n (V tg))"
proof -
  define B where "B = (\<lambda>i (V :: 'v \<Rightarrow> 'e list). V(tg := (V tg)[i := h i]))"
  have "n \<le> length (V tg) \<Longrightarrow> fold B [0..<n] V = V(tg := map h [0..<n] @ drop n (V tg))"
  proof (induction n)
    case 0
    then show ?case by simp
  next
    case (Suc n)
    from Suc.prems have n: "n < length (V tg)" by simp
    then have IH: "fold B [0..<n] V = V(tg := map h [0..<n] @ drop n (V tg))"
      by (intro Suc.IH) simp
    have l: "(map h [0..<n] @ drop n (V tg))[n := h n] = map h [0..<Suc n] @ drop (Suc n) (V tg)"
      using n by (simp add: list_update_append upd_conv_take_nth_drop)
    have "fold B [0..<Suc n] V = B n (fold B [0..<n] V)" by simp
    also have "\<dots> = V(tg := map h [0..<Suc n] @ drop (Suc n) (V tg))"
      unfolding IH using l by (simp add: B_def)
    finally show ?case .
  qed
  then show ?thesis using assms by (simp add: B_def)
qed

lemma fold_copy_vec:
  fixes V :: "'v \<Rightarrow> 'e list"
  assumes "a \<noteq> b" and "n \<le> length (V a)"
  shows "fold (\<lambda>i V. V(a := (V a)[i := V b ! i])) [0..<n] V
         = V(a := map (\<lambda>i. V b ! i) [0..<n] @ drop n (V a))"
proof -
  define B where "B = (\<lambda>i (V :: 'v \<Rightarrow> 'e list). V(a := (V a)[i := V b ! i]))"
  have "n \<le> length (V a) \<Longrightarrow> fold B [0..<n] V = V(a := map (\<lambda>i. V b ! i) [0..<n] @ drop n (V a))"
  proof (induction n)
    case 0
    then show ?case by simp
  next
    case (Suc n)
    from Suc.prems have n: "n < length (V a)" by simp
    then have IH: "fold B [0..<n] V = V(a := map (\<lambda>i. V b ! i) [0..<n] @ drop n (V a))"
      by (intro Suc.IH) simp
    have l: "(map (\<lambda>i. V b ! i) [0..<n] @ drop n (V a))[n := V b ! n]
          = map (\<lambda>i. V b ! i) [0..<Suc n] @ drop (Suc n) (V a)"
      using n by (simp add: list_update_append upd_conv_take_nth_drop)
    have "fold B [0..<Suc n] V = B n (fold B [0..<n] V)" by simp
    also have "\<dots> = V(a := map (\<lambda>i. V b ! i) [0..<Suc n] @ drop (Suc n) (V a))"
      unfolding IH using l assms(1) by (simp add: B_def)
    finally show ?case .
  qed
  then show ?thesis using assms(2) by (simp add: B_def)
qed

lemma T_a_T_of [simp]: "T_a (T_of x) = x"
  by (simp add: T_of_def)

lemma multiply_cyclic_raw_correct:
  assumes "length (V tg) = 3 ^ k"
  shows "\<exists>V'. multiply_cyclic_raw pv qv (3 ^ k) tg V = Some V'
           \<and> V' tg = map (\<lambda>i. \<Sum>j<3 ^ k. V pv ! j * V qv ! nat ((int i - int j) mod 3 ^ k)) [0..<3 ^ k]
           \<and> (\<forall>v. v \<noteq> tg \<longrightarrow> V' v = V v)"
proof -
  obtain s where s: "raw_lift (V pv) (V qv) (3 ^ k) = Some s"
    and v: "\<forall>i<3 ^ k. rd s (2 * 3 ^ k + i) * INV3
              = T_of (\<Sum>j<3 ^ k. V pv ! j * V qv ! nat ((int i - int j) mod 3 ^ k))"
    using raw_lift_correct [of "V pv" "V qv" k] by blast
  let ?h = "\<lambda>i. T_a (rd s (2 * 3 ^ k + i) * INV3)"
  have "multiply_cyclic_raw pv qv (3 ^ k) tg V = Some (V(tg := map ?h [0..<3 ^ k] @ drop (3 ^ k) (V tg)))"
    unfolding multiply_cyclic_raw_def s using fold_write_vec [of "3 ^ k" V tg ?h] assms
    by (simp add: Let_def)
  moreover have "map ?h [0..<3 ^ k]
      = map (\<lambda>i. \<Sum>j<3 ^ k. V pv ! j * V qv ! nat ((int i - int j) mod 3 ^ k)) [0..<3 ^ k]"
    using v by simp
  ultimately show ?thesis using assms by simp
qed


lemma size_loop:
  assumes "bound \<le> 2 ^ 59"
  shows "\<exists>K. while_option (\<lambda>s. s < bound) (\<lambda>s. s * 3 mod 2 ^ 64) (1::nat) = Some (3 ^ K)
              \<and> bound \<le> 3 ^ K"
proof -
  define K where "K = (LEAST k. bound \<le> 3 ^ k)"
  have "bound < 3 ^ bound" by (rule less_exp [THEN less_le_trans]) (simp add: power_mono)
  then have ex: "bound \<le> 3 ^ bound" by simp
  have K: "bound \<le> 3 ^ K" unfolding K_def using ex by (rule LeastI)
  have small: "3 ^ j < bound" if "j < K" for j
    using not_less_Least [of j "\<lambda>k. bound \<le> 3 ^ k"] that by (simp add: K_def not_le)
  have aux: "j \<le> K \<Longrightarrow> while_option (\<lambda>s. s < bound) (\<lambda>s. s * 3 mod 2 ^ 64) ((3::nat) ^ j) = Some (3 ^ K)"
    for j
  proof (induction "K - j" arbitrary: j)
    case 0
    then have "j = K" by simp
    then show ?case using K by (subst while_option_unfold) simp
  next
    case (Suc d)
    then have lt: "j < K" by simp
    have b: "(3::nat) ^ j < bound" using small [OF lt] .
    then have "(3::nat) ^ j * 3 < 2 ^ 64" using assms by simp
    then have step: "(3::nat) ^ j * 3 mod 2 ^ 64 = 3 ^ Suc j" by simp
    have "while_option (\<lambda>s. s < bound) (\<lambda>s. s * 3 mod 2 ^ 64) ((3::nat) ^ Suc j) = Some (3 ^ K)"
      using Suc.hyps(1) [of "Suc j"] Suc.hyps(2) lt by simp
    then show ?case
      using b by (subst while_option_unfold) (simp only: step if_True)
  qed
  show ?thesis using aux [of 0] K by auto
qed

lemma resize_nth: "j < n \<Longrightarrow> resize n xs ! j = (if j < length xs then xs ! j else 0)"
  by (simp add: resize_def nth_append)

lemma length_resize [simp]: "length (resize n xs) = n"
  by (simp add: resize_def)

lemma cyclic_is_linear:
  assumes n: "length p + length q \<le> n + 1" and i: "i < n"
  shows "(\<Sum>j<n. resize n p ! j * resize n q ! nat ((int i - int j) mod int n)) = conv p q i"
proof -
  have tm: "resize n p ! j * resize n q ! nat ((int i - int j) mod int n)
          = (if j < length p \<and> j \<le> i \<and> i - j < length q then p ! j * q ! (i - j) else 0)"
    if j: "j < n" for j
  proof (cases "j \<le> i")
    case True
    then have "nat ((int i - int j) mod int n) = i - j"
      using i by (simp add: nat_diff_distrib' flip: of_nat_diff)
    moreover have "i - j < n" using i by simp
    ultimately show ?thesis using True j by (simp add: resize_nth)
  next
    case False
    have "int i - int j = int (i + n - j) + int n * (- 1)" using False j by simp
    then have "(int i - int j) mod int n = int (i + n - j) mod int n"
      by (simp only: mod_mult_self2)
    also have "\<dots> = int (i + n - j)" using False j by simp
    finally have idx: "nat ((int i - int j) mod int n) = i + n - j" by simp
    have lt: "i + n - j < n" using False j by simp
    have "\<not> (j < length p \<and> i + n - j < length q)" using n False by auto
    then show ?thesis using False j lt by (auto simp add: idx resize_nth)
  qed
  have 1: "(\<Sum>j<n. resize n p ! j * resize n q ! nat ((int i - int j) mod int n))
      = (\<Sum>j<n. if j < length p \<and> j \<le> i \<and> i - j < length q then p ! j * q ! (i - j) else 0)"
    by (rule sum.cong [OF refl]) (simp add: tm)
  show ?thesis
  proof (cases "q = []")
    case True
    then show ?thesis unfolding 1 conv_def by simp
  next
    case False
    then have le: "length p \<le> n" using n by (cases q) simp_all
    have "(\<Sum>j<n. if j < length p \<and> j \<le> i \<and> i - j < length q then p ! j * q ! (i - j) else 0)
        = (\<Sum>j<length p. if j \<le> i \<and> i - j < length q then p ! j * q ! (i - j) else 0)"
      by (rule sum.mono_neutral_cong_right) (use le in auto)
    then show ?thesis unfolding 1 conv_def .
  qed
qed

lemma multiply_conv:
  assumes ne: "1 \<le> length p + length q" and sz: "length p + length q \<le> 2 ^ 59"
  shows "multiply p q = Some (map (conv p q) [0..<length p + length q - 1])"
proof -
  define V where "V = caller p q"
  define Va where "Va = V(Loc_pp := replicate (length (V In_p)) 0)"
  define Vb where "Vb = Va(Loc_qq := replicate (length (Va In_q)) 0)"
  define Vc where "Vc = fold (\<lambda>i V. V(Loc_pp := (V Loc_pp)[i := V In_p ! i])) [0..<length (Vb In_p)] Vb"
  define Vd where "Vd = fold (\<lambda>i V. V(Loc_qq := (V Loc_qq)[i := V In_q ! i])) [0..<length (Vc In_q)] Vc"
  define bound where "bound = (length (Vd In_p) + length (Vd In_q) + (2 ^ 64 - 1)) mod 2 ^ 64"
  define Ve where "Ve = (\<lambda>s. Vd(Loc_pp := resize s (Vd Loc_pp)))"
  define Vf where "Vf = (\<lambda>s. (Ve s)(Loc_qq := resize s (Ve s Loc_qq)))"
  define Vg where "Vg = (\<lambda>s. (Vf s)(Loc_res := replicate s 0))"
  have unfold: "multiply_run V
      = Option.bind (while_option (\<lambda>s. s < bound) (\<lambda>s. s * 3 mod 2 ^ 64) 1) (\<lambda>s.
        Option.bind (multiply_cyclic_raw Loc_pp Loc_qq (length (Vg s Loc_pp)) Loc_res (Vg s)) (\<lambda>V5.
        Some (V5(Loc_res := resize bound (V5 Loc_res)),
              (V5(Loc_res := resize bound (V5 Loc_res))) Loc_res)))"
    unfolding multiply_run_def Let_def Va_def Vb_def Vc_def Vd_def bound_def Ve_def Vf_def Vg_def
    by (rule refl)
  have V: "V In_p = p" "V In_q = q" by (simp_all add: V_def caller_def)
  have Vb: "Vb In_p = p" "Vb In_q = q" "Vb Loc_pp = replicate (length p) 0"
    "Vb Loc_qq = replicate (length q) 0"
    by (simp_all add: Vb_def Va_def V)
  have Vc_eq: "Vc = Vb(Loc_pp := p)"
  proof -
    have "fold (\<lambda>i V. V(Loc_pp := (V Loc_pp)[i := V In_p ! i])) [0..<length p] Vb
        = Vb(Loc_pp := map (\<lambda>i. Vb In_p ! i) [0..<length p] @ drop (length p) (Vb Loc_pp))"
      by (rule fold_copy_vec) (simp_all add: Vb)
    then show ?thesis unfolding Vc_def by (simp add: Vb map_nth)
  qed
  have Vc: "Vc In_p = p" "Vc In_q = q" "Vc Loc_pp = p" "Vc Loc_qq = replicate (length q) 0"
    by (simp_all add: Vc_eq Vb)
  have Vd_eq: "Vd = Vc(Loc_qq := q)"
  proof -
    have "fold (\<lambda>i V. V(Loc_qq := (V Loc_qq)[i := V In_q ! i])) [0..<length q] Vc
        = Vc(Loc_qq := map (\<lambda>i. Vc In_q ! i) [0..<length q] @ drop (length q) (Vc Loc_qq))"
      by (rule fold_copy_vec) (simp_all add: Vc)
    then show ?thesis unfolding Vd_def by (simp add: Vc map_nth)
  qed
  have Vd: "Vd In_p = p" "Vd In_q = q" "Vd Loc_pp = p" "Vd Loc_qq = q"
    by (simp_all add: Vd_eq Vc)
  have bound: "bound = length p + length q - 1"
  proof -
    have "length p + length q + (2 ^ 64 - 1) = (length p + length q - 1) + 2 ^ 64 * 1"
      using ne by simp
    then have "bound = (length p + length q - 1) mod 2 ^ 64"
      unfolding bound_def Vd by (simp only: mod_mult_self2)
    also have "\<dots> = length p + length q - 1"
      using sz by simp
    finally show ?thesis .
  qed
  obtain K where K: "while_option (\<lambda>s. s < bound) (\<lambda>s. s * 3 mod 2 ^ 64) (1::nat) = Some (3 ^ K)"
    and bK: "bound \<le> 3 ^ K"
  proof -
    have "bound \<le> 2 ^ 59" using sz bound by simp
    from size_loop [OF this] show ?thesis using that by blast
  qed
  let ?n = "3 ^ K :: nat"
  have Vg: "Vg ?n Loc_pp = resize ?n p" "Vg ?n Loc_qq = resize ?n q" "Vg ?n Loc_res = replicate ?n 0"
    by (simp_all add: Vg_def Vf_def Ve_def Vd)
  have len: "length (Vg ?n Loc_pp) = ?n" "length (Vg ?n Loc_res) = ?n"
    by (simp_all add: Vg)
  obtain V5 where raw: "multiply_cyclic_raw Loc_pp Loc_qq ?n Loc_res (Vg ?n) = Some V5"
    and res: "V5 Loc_res = map (\<lambda>i. \<Sum>j<?n. Vg ?n Loc_pp ! j * Vg ?n Loc_qq ! nat ((int i - int j) mod 3 ^ K))
                              [0..<?n]"
    using multiply_cyclic_raw_correct [where V = "Vg ?n" and tg = Loc_res and k = K
        and pv = Loc_pp and qv = Loc_qq] len(2) by blast
  have coef: "(\<Sum>j<?n. Vg ?n Loc_pp ! j * Vg ?n Loc_qq ! nat ((int i - int j) mod 3 ^ K)) = conv p q i"
    if "i < ?n" for i
    unfolding Vg using cyclic_is_linear [of p q ?n i] that bK bound ne by simp
  have "V5 Loc_res = map (conv p q) [0..<?n]"
    unfolding res by (rule map_cong [OF refl]) (simp add: coef)
  then have out: "resize bound (V5 Loc_res) = map (conv p q) [0..<bound]"
    using bK by (simp add: resize_def take_map)
  have "multiply_run V = Some (V5(Loc_res := resize bound (V5 Loc_res)), resize bound (V5 Loc_res))"
    unfolding unfold K by (simp add: len raw)
  then have "multiply p q = Some (resize bound (V5 Loc_res))"
    unfolding multiply_def V_def [symmetric] by simp
  then show ?thesis
    unfolding out unfolding bound .
qed

end
